(* ===== verification/Prelude.thy ===== *)
theory Prelude
  imports Main "HOL-Library.Finite_Map" "HOL-Library.Word" "HOL-Library.Multiset"
begin

section \<open>Shared vocabulary of the development\<close>

text \<open>
  This theory holds what every component shares: the type of results of code that may panic,
  loops over a list whose body may fail, machine arithmetic at the width of the Rust types,
  the ordered maps and sets of the Rust standard library, and generic lemmas on sums and lists.

  \<^item> A function of the source that may panic (\<open>assert!\<close>, \<open>expect\<close>, \<open>unwrap\<close>, an index out of
    bounds) returns a value of \<open>panic + 'a\<close>: \<open>Inl\<close> names the panic site, \<open>Inr\<close> is a normal
    return. A function that returns \<open>ConsensusResult\<close> returns \<open>consensus_error + 'a\<close>.
  \<^item> \<open>BTreeSet<T>\<close> is \<open>'a fset\<close> and \<open>BTreeMap<K, V>\<close> is \<open>('k, 'v) fmap\<close>; iteration is in key
    order, by \<open>sorted_list_of_fset\<close>.
  \<^item> The release profile of the workspace does not turn overflow checks on, so unchecked
    arithmetic wraps around; \<open>wrap64\<close> and \<open>wrap32\<close> write that out where it matters.
\<close>

named_theorems res_simps \<open>rules for computations that may panic\<close>
named_theorems btree_simps \<open>rules for the ordered maps and sets\<close>

subsection \<open>Panics\<close>

text \<open>One constructor for each panic site of the modelled code.\<close>

datatype panic =
    CommitteeEmpty                \<comment> \<open>\<open>Committee::new\<close>: no authority\<close>
  | TooManyAuthorities            \<comment> \<open>\<open>Committee::new\<close>: \<open>u32::MAX\<close> authorities or more\<close>
  | TotalStakeZero                \<comment> \<open>\<open>Committee::new\<close>: total stake is zero\<close>
  | QuorumMustIntersect           \<comment> \<open>\<open>Committee::new\<close>: quorum intersection assertion\<close>
  | StakeScaleOverflow            \<comment> \<open>\<open>Committee::new_v3\<close>: \<open>checked_mul\<close> overflows\<close>
  | CertQuorumSafety              \<comment> \<open>\<open>Committee::new_v3\<close>: first stake-safety assertion\<close>
  | QuorumQuorumSafety            \<comment> \<open>\<open>Committee::new_v3\<close>: second stake-safety assertion\<close>
  | IndexOutOfBounds              \<comment> \<open>\<open>Index<AuthorityIndex>\<close>: \<open>get(..).unwrap()\<close> on \<open>None\<close>\<close>
  | GenesisSerialization          \<comment> \<open>\<open>genesis_blocks\<close>: the encoder fails\<close>
  | RoundUnderflow                \<comment> \<open>\<open>verify_block\<close>: \<open>checked_sub(1).unwrap()\<close>\<close>
  | RangeShrinks                  \<comment> \<open>\<open>CommitRange::extend_to\<close>: the end would move back\<close>
  | RangeEndBeforeStart           \<comment> \<open>\<open>CommitRange::size\<close>: \<open>end < start\<close>\<close>
  | InvalidScoreIndex             \<comment> \<open>\<open>authorities_by_score\<close>: not an authority\<close>
  | DuplicateVote                 \<comment> \<open>\<open>ScoringSubdag::add_subdags\<close>: the vote exists\<close>
  | CommitRangeUnset              \<comment> \<open>\<open>ScoringSubdag\<close>: no commit range\<close>
  | BlockNotInStore               \<comment> \<open>\<open>MemStore\<close> and \<open>load_committed_subdag_from_store\<close>\<close>
  | LeaderNotInSubDag             \<comment> \<open>\<open>load_committed_subdag_from_store\<close>\<close>
  | GenesisBlockAccepted          \<comment> \<open>\<open>DagState::accept_block\<close>: round 0\<close>
  | OwnSlotEquivocation           \<comment> \<open>\<open>DagState::accept_block\<close>: own slot is taken\<close>
  | ParentBlockMissing            \<comment> \<open>\<open>DagState::update_block_metadata\<close>\<close>
  | RoundInfoGap                  \<comment> \<open>\<open>DagState::update_round_info\<close> and \<open>get_round_info\<close>\<close>
  | SlotBelowGcRound              \<comment> \<open>\<open>DagState::get_block_info_at_slot\<close>\<close>
  | RoundHasCommittedBlocks       \<comment> \<open>\<open>DagState::get_uncommitted_blocks_at_round\<close>\<close>
  | BlockMissingInDag             \<comment> \<open>a block that must be in the cache or the store is not\<close>
  | GenesisRoundRequested         \<comment> \<open>\<open>DagState::get_last_cached_block_per_authority\<close>\<close>
  | RoundEvicted                  \<comment> \<open>a query at or below the last evicted round\<close>
  | CommitIndexGap                \<comment> \<open>\<open>DagState::add_commit\<close>: index is not the next one\<close>
  | CommitTimestampDecreases      \<comment> \<open>\<open>DagState::add_commit\<close>: timestamps not monotone\<close>
  | LastCommitUnset               \<comment> \<open>\<open>DagState::add_commit_info\<close>\<close>
  | ScoringSubdagNotEmpty         \<comment> \<open>\<open>DagState::add_commit_info\<close>\<close>
  | CommitsToWriteNotEmpty        \<comment> \<open>\<open>DagState::ensure_commits_to_write_is_empty\<close>\<close>
  | BlockCommittedTwice           \<comment> \<open>\<open>DagState::new\<close> and \<open>Linearizer::linearize_sub_dag\<close>\<close>
  | LeaderBelowGcRound            \<comment> \<open>\<open>Linearizer::linearize_sub_dag\<close>\<close>
  | CommitSerialization           \<comment> \<open>\<open>Linearizer\<close>: the encoder fails\<close>
  | MedianTimestampFailed         \<comment> \<open>\<open>calculate_commit_timestamp\<close>: no quorum of stake\<close>
  | TooManyUnscoredCommits        \<comment> \<open>\<open>LeaderSchedule::commits_until_leader_schedule_update\<close>\<close>
  | SwapThresholdTooHigh          \<comment> \<open>\<open>LeaderSwapTable::new_inner\<close>: threshold above 33\<close>
  | SwapTableGap                  \<comment> \<open>\<open>LeaderSchedule::update_leader_swap_table\<close>\<close>
  | LeaderOffsetTooLarge          \<comment> \<open>\<open>LeaderSchedule::elect_leader_stake_based\<close>\<close>
  | LeaderChoiceFailed            \<comment> \<open>\<open>LeaderSchedule::elect_leader_stake_based\<close>: weighted choice\<close>
  | MultiLeaderSwap               \<comment> \<open>\<open>LeaderSwapTable::swap\<close>: offset is not zero\<close>
  | NoGoodNodes                   \<comment> \<open>\<open>LeaderSwapTable::swap\<close>: no good node to choose\<close>
  | TwoCertifiedLeaders           \<comment> \<open>\<open>BaseCommitter\<close>: more than one certified block in a slot\<close>
  | AnchorTooClose                \<comment> \<open>\<open>LeaderSlotDecider::try_indirect_decide\<close>\<close>
  | CommittedAndSkipped           \<comment> \<open>\<open>LeaderSlotDecider::try_direct_decide\<close>\<close>
  | SlotDecisionChanged           \<comment> \<open>\<open>RoundState::update_slot_decision\<close>\<close>
  | PendingStateMoved             \<comment> \<open>\<open>FlexCommitter::maybe_refresh_pending_commit_state\<close>\<close>
  | SuspendedBlockMissing         \<comment> \<open>\<open>BlockManager::try_unsuspend_block\<close>: not suspended\<close>
  | MissingDependencyAbsent       \<comment> \<open>\<open>BlockManager::try_unsuspend_block\<close>: not waited for\<close>
  | GcBlockSuspended              \<comment> \<open>\<open>BlockManager::try_unsuspend_blocks_for_latest_gc_round\<close>\<close>
  | CommittedBlockNotAccepted     \<comment> \<open>\<open>BlockManager::try_accept_blocks_internal\<close>\<close>
  | CommittedBlocksMissing        \<comment> \<open>\<open>BlockManager::try_accept_committed_blocks\<close>\<close>
  | ReplayTargetSet               \<comment> \<open>\<open>CommitConsumerMonitor::set_replay_target\<close>: set before\<close>
  | ConsensusShutdown             \<comment> \<open>\<open>ConsensusError::Shutdown\<close>, which stops the core thread\<close>
  | NoCommitsUntilUpdate          \<comment> \<open>\<open>Core::try_commit\<close>: the schedule allows no commit\<close>
  | CertifiedLimitZero            \<comment> \<open>\<open>Core::try_select_certified_leaders\<close>: limit is zero\<close>
  | CertifiedCommitEmpty          \<comment> \<open>\<open>Core::try_select_certified_leaders\<close>: no block\<close>
  | CertifiedLeaderMismatch       \<comment> \<open>\<open>Core::try_select_certified_leaders\<close>: last block is not the leader\<close>
  | CertifiedRefMismatch          \<comment> \<open>\<open>Core::try_commit\<close>: another commit was certified\<close>
  | CertifiedCommitsInvalid       \<comment> \<open>\<open>Core::add_certified_commits\<close>: not the next commit\<close>
  | V3PathNotModelled             \<comment> \<open>the branch of \<open>Core\<close> taken with \<open>enable_v3\<close>\<close>
  | UnexpectedState               \<comment> \<open>an \<open>expect\<close> or \<open>assert!\<close> on an internal invariant\<close>

subsection \<open>Computations that may fail\<close>

definition rbind :: "'e + 'a \<Rightarrow> ('a \<Rightarrow> 'e + 'b) \<Rightarrow> 'e + 'b" where
  "rbind x f = (case x of Inl e \<Rightarrow> Inl e | Inr a \<Rightarrow> f a)"

definition rassert :: "bool \<Rightarrow> 'e \<Rightarrow> 'e + unit" where
  "rassert b e = (if b then Inr () else Inl e)"

fun is_ok :: "'e + 'a \<Rightarrow> bool" where
  "is_ok (Inl e) = False"
| "is_ok (Inr a) = True"

text \<open>An \<open>Option\<close> that is unwrapped: \<open>None\<close> is the panic \<open>e\<close>.\<close>

definition rexpect :: "'e \<Rightarrow> 'a option \<Rightarrow> 'e + 'a" where
  "rexpect e x = (case x of None \<Rightarrow> Inl e | Some a \<Rightarrow> Inr a)"

lemma rbind_simps [simp, res_simps]:
  "rbind (Inl e) f = Inl e"
  "rbind (Inr a) f = f a"
  by (simp_all add: rbind_def)

lemma rbind_eq_Inr [res_simps]: "rbind x f = Inr b \<longleftrightarrow> (\<exists>a. x = Inr a \<and> f a = Inr b)"
  by (cases x) auto

lemma rbind_eq_Inl [res_simps]:
  "rbind x f = Inl e \<longleftrightarrow> x = Inl e \<or> (\<exists>a. x = Inr a \<and> f a = Inl e)"
  by (cases x) auto

lemma rbind_assoc: "rbind (rbind x f) g = rbind x (\<lambda>a. rbind (f a) g)"
  by (cases x) auto

lemma rbind_cong [fundef_cong]:
  "x = y \<Longrightarrow> (\<And>a. y = Inr a \<Longrightarrow> f a = g a) \<Longrightarrow> rbind x f = rbind y g"
  by (cases y) auto

lemma rassert_eq [res_simps]:
  "rassert b e = Inr u \<longleftrightarrow> b"
  "rassert b e = Inl e' \<longleftrightarrow> \<not> b \<and> e' = e"
  by (auto simp: rassert_def)

lemma rassert_True [simp]: "rassert True e = Inr ()"
  by (simp add: rassert_def)

lemma rassert_False [simp]: "rassert False e = Inl e"
  by (simp add: rassert_def)

lemma rexpect_simps [simp]:
  "rexpect e None = Inl e"
  "rexpect e (Some a) = Inr a"
  by (simp_all add: rexpect_def)

lemma rexpect_eq [res_simps]:
  "rexpect e x = Inr a \<longleftrightarrow> x = Some a"
  "rexpect e x = Inl e' \<longleftrightarrow> x = None \<and> e' = e"
  by (auto simp: rexpect_def split: option.splits)

lemma is_ok_iff: "is_ok x \<longleftrightarrow> (\<exists>a. x = Inr a)"
  by (cases x) auto

text \<open>A \<open>for\<close> loop whose body may fail, and a fallible \<open>map(..).collect()\<close>.\<close>

primrec rfold :: "('a \<Rightarrow> 's \<Rightarrow> 'e + 's) \<Rightarrow> 'a list \<Rightarrow> 's \<Rightarrow> 'e + 's" where
  "rfold f [] s = Inr s"
| "rfold f (x # xs) s = rbind (f x s) (rfold f xs)"

primrec rmap :: "('a \<Rightarrow> 'e + 'b) \<Rightarrow> 'a list \<Rightarrow> 'e + 'b list" where
  "rmap f [] = Inr []"
| "rmap f (x # xs) = rbind (f x) (\<lambda>y. rbind (rmap f xs) (\<lambda>ys. Inr (y # ys)))"

lemma rfold_append: "rfold f (xs @ ys) s = rbind (rfold f xs s) (rfold f ys)"
  by (induction xs arbitrary: s) (simp_all add: rbind_assoc cong: rbind_cong)

lemma rfold_invariant:
  assumes "rfold f xs s = Inr t" and "P s"
    and "\<And>x s t. x \<in> set xs \<Longrightarrow> P s \<Longrightarrow> f x s = Inr t \<Longrightarrow> P t"
  shows "P t"
  using assms
proof (induction xs arbitrary: s)
  case Nil
  then show ?case by simp
next
  case (Cons x xs)
  from Cons.prems(1) obtain u where u: "f x s = Inr u" and t: "rfold f xs u = Inr t"
    by (auto simp: rbind_eq_Inr)
  have "P u" using Cons.prems(2,3) u by force
  with t show ?case using Cons.prems(3) by (intro Cons.IH) auto
qed

lemma rfold_total:
  assumes "P s"
    and "\<And>x s. x \<in> set xs \<Longrightarrow> P s \<Longrightarrow> \<exists>t. f x s = Inr t \<and> P t"
  shows "\<exists>t. rfold f xs s = Inr t \<and> P t"
  using assms
proof (induction xs arbitrary: s)
  case Nil
  then show ?case by simp
next
  case (Cons x xs)
  then obtain u where "f x s = Inr u" "P u" by force
  moreover have "\<exists>t. rfold f xs u = Inr t \<and> P t"
    using Cons.prems(2) \<open>P u\<close> by (intro Cons.IH) auto
  ultimately show ?case by (auto simp: rbind_eq_Inr)
qed

lemma rmap_eq_Inr: "rmap f xs = Inr ys \<longleftrightarrow> list_all2 (\<lambda>x y. f x = Inr y) xs ys"
  by (induction xs arbitrary: ys) (auto simp: rbind_eq_Inr list_all2_Cons1)

lemma rmap_total: "(\<And>x. x \<in> set xs \<Longrightarrow> f x = Inr (g x)) \<Longrightarrow> rmap f xs = Inr (map g xs)"
  by (induction xs) auto

subsection \<open>Machine integers\<close>

definition u16_max :: nat where "u16_max = 2 ^ 16 - 1"
definition u32_max :: nat where "u32_max = 2 ^ 32 - 1"
definition u64_max :: nat where "u64_max = 2 ^ 64 - 1"

definition wrap32 :: "nat \<Rightarrow> nat" where "wrap32 n = n mod 2 ^ 32"
definition wrap64 :: "nat \<Rightarrow> nat" where "wrap64 n = n mod 2 ^ 64"

text \<open>Unchecked subtraction of \<open>u64\<close> values in a release build.\<close>

definition wsub64 :: "nat \<Rightarrow> nat \<Rightarrow> nat" where
  "wsub64 a b = (if b \<le> a then a - b else a + 2 ^ 64 - b)"

text \<open>\<open>checked_mul\<close>, \<open>checked_add\<close> and \<open>checked_sub\<close> of \<open>u64\<close>, and saturating operations of \<open>u32\<close>.\<close>

definition checked_mul64 :: "nat \<Rightarrow> nat \<Rightarrow> nat option" where
  "checked_mul64 a b = (if a * b \<le> u64_max then Some (a * b) else None)"

definition checked_add64 :: "nat \<Rightarrow> nat \<Rightarrow> nat option" where
  "checked_add64 a b = (if a + b \<le> u64_max then Some (a + b) else None)"

definition checked_sub64 :: "nat \<Rightarrow> nat \<Rightarrow> nat option" where
  "checked_sub64 a b = (if b \<le> a then Some (a - b) else None)"

definition saturating_add32 :: "nat \<Rightarrow> nat \<Rightarrow> nat" where
  "saturating_add32 a b = min (a + b) u32_max"

lemma wrap64_id [simp]: "n < 2 ^ 64 \<Longrightarrow> wrap64 n = n"
  by (simp add: wrap64_def)

lemma wrap32_id [simp]: "n < 2 ^ 32 \<Longrightarrow> wrap32 n = n"
  by (simp add: wrap32_def)

lemma wsub64_id [simp]: "b \<le> a \<Longrightarrow> wsub64 a b = a - b"
  by (simp add: wsub64_def)

subsection \<open>Sums over finite sets of indices\<close>

lemma sum_Int_lower:
  fixes w :: "'a \<Rightarrow> nat"
  assumes "finite M" "A \<subseteq> M" "B \<subseteq> M"
  shows "sum w A + sum w B \<le> sum w M + sum w (A \<inter> B)"
proof -
  have fin: "finite A" "finite B" using assms finite_subset by auto
  have "sum w A + sum w B = sum w (A \<union> B) + sum w (A \<inter> B)"
    using fin by (simp add: sum.union_inter)
  moreover have "sum w (A \<union> B) \<le> sum w M"
    using assms by (intro sum_mono2) auto
  ultimately show ?thesis by simp
qed

lemma sum_list_map_nth: "(\<Sum>x\<leftarrow>xs. f x) = (\<Sum>i<length xs. f (xs ! i))" for f :: "'a \<Rightarrow> nat"
proof -
  have "sum_list (map f xs) = (\<Sum>i = 0..<length xs. map f xs ! i)"
    by (simp add: sum_list_sum_nth)
  also have "\<dots> = (\<Sum>i<length xs. f (xs ! i))"
    by (rule sum.cong) (auto simp: atLeast0LessThan)
  finally show ?thesis .
qed

subsection \<open>Vectors and ordered collections\<close>

text \<open>\<open>Vec\<close> indexing, which panics out of bounds.\<close>

definition vec_get :: "'a list \<Rightarrow> nat \<Rightarrow> panic + 'a" where
  "vec_get xs i = (if i < length xs then Inr (xs ! i) else Inl IndexOutOfBounds)"

lemma vec_get_eq [res_simps]:
  "vec_get xs i = Inr x \<longleftrightarrow> i < length xs \<and> x = xs ! i"
  "vec_get xs i = Inl e \<longleftrightarrow> \<not> i < length xs \<and> e = IndexOutOfBounds"
  by (auto simp: vec_get_def)

lemma vec_get_valid [simp]: "i < length xs \<Longrightarrow> vec_get xs i = Inr (xs ! i)"
  by (simp add: vec_get_def)

text \<open>The range queries of \<open>BTreeMap\<close> and \<open>BTreeSet\<close>, in key order.\<close>

definition fmap_range :: "('k :: linorder \<Rightarrow> bool) \<Rightarrow> ('k, 'v) fmap \<Rightarrow> ('k \<times> 'v) list" where
  "fmap_range P m = filter (\<lambda>(k, v). P k) (sorted_list_of_fmap m)"

definition fset_range :: "('k :: linorder \<Rightarrow> bool) \<Rightarrow> 'k fset \<Rightarrow> 'k list" where
  "fset_range P S = filter P (sorted_list_of_fset S)"

text \<open>\<open>BTreeSet::last\<close>.\<close>

definition fset_last :: "('k :: linorder) fset \<Rightarrow> 'k option" where
  "fset_last S = (if S = {||} then None else Some (fMax S))"

lemma fset_range_set [simp]: "set (fset_range P S) = {x. x |\<in>| S \<and> P x}"
  by (auto simp: fset_range_def)

lemma sorted_list_of_fset_strict: "sorted_wrt (<) (sorted_list_of_fset S)"
  by (simp add: sorted_list_of_fset.rep_eq)

lemma fset_range_sorted: "sorted_wrt (<) (fset_range P S)"
  by (simp add: fset_range_def sorted_wrt_filter sorted_list_of_fset_strict)

lemma fmap_range_set [simp]: "(k, v) \<in> set (fmap_range P m) \<longleftrightarrow> fmlookup m k = Some v \<and> P k"
  by (auto simp: fmap_range_def sorted_list_of_fmap_def fmlookup_dom_iff)

lemma fmap_range_sorted: "sorted_wrt (<) (map fst (fmap_range P m))"
proof -
  have "sorted_wrt (<) (map fst (sorted_list_of_fmap m))"
    by (simp add: sorted_list_of_fmap_def comp_def sorted_list_of_fset_strict)
  then show ?thesis
    by (simp add: fmap_range_def sorted_wrt_map sorted_wrt_filter case_prod_beta)
qed

lemma fset_last_None [simp]: "fset_last S = None \<longleftrightarrow> S = {||}"
  by (simp add: fset_last_def)

lemma fset_last_empty [simp]: "fset_last {||} = None"
  by simp

lemma fset_last_Some: "fset_last S = Some x \<longleftrightarrow> x |\<in>| S \<and> (\<forall>y. y |\<in>| S \<longrightarrow> y \<le> x)"
  by (cases "S = {||}") (auto simp: fset_last_def intro: antisym fMax_in fMax_ge)

subsection \<open>Batched lookups\<close>

text \<open>
  A pattern of the code: answer what can be answered locally, collect the rest with their positions,
  ask a second source for all of them at once, and put its answers in place.
\<close>

definition batched_lookup ::
  "('a \<Rightarrow> 'b option) \<Rightarrow> ('a list \<Rightarrow> 'b list) \<Rightarrow> 'b \<Rightarrow> 'a list \<Rightarrow> 'b list" where
  "batched_lookup local_answer remote dflt xs =
    (let (results, missing) =
       fold (\<lambda>(i, x) (results, missing).
           case local_answer x of
             Some y \<Rightarrow> (results[i := y], missing)
           | None \<Rightarrow> (results, missing @ [(i, x)]))
         (enumerate 0 xs) (replicate (length xs) dflt, [])
     in if missing = [] then results
        else fold (\<lambda>((i, _), y) results. results[i := y]) (zip missing (remote (map snd missing)))
               results)"

lemma nth_Cons_shift:
  assumes "Suc n \<le> i"
  shows "(x # xs) ! (i - n) = xs ! (i - Suc n)"
proof -
  have "i - n = Suc (i - Suc n)" using assms by simp
  then show ?thesis by simp
qed

lemma le_iff_eq_or_Suc: "n \<le> i \<longleftrightarrow> i = n \<or> Suc n \<le> i"
  by auto

lemma batched_local_phase:
  assumes "n + length xs \<le> length results"
  shows "\<exists>results'. fold (\<lambda>(i, x) (results, missing).
         case local_answer x of
           Some y \<Rightarrow> (results[i := y], missing)
         | None \<Rightarrow> (results, missing @ [(i, x)])) (enumerate n xs) (results, missing)
      = (results', missing @ filter (\<lambda>(i, x). local_answer x = None) (enumerate n xs))
    \<and> length results' = length results
    \<and> (\<forall>i < length results. results' ! i =
         (if n \<le> i \<and> i < n + length xs \<and> local_answer (xs ! (i - n)) \<noteq> None
          then the (local_answer (xs ! (i - n))) else results ! i))"
  using assms
proof (induction xs arbitrary: n results missing)
  case Nil
  then show ?case by auto
next
  case (Cons x xs)
  show ?case
  proof (cases "local_answer x")
    case None
    then show ?thesis
      using Cons.IH [of "Suc n" results "missing @ [(n, x)]"] Cons.prems
      by (auto simp: nth_Cons_shift le_iff_eq_or_Suc [of n])
  next
    case (Some y)
    then show ?thesis
      using Cons.IH [of "Suc n" "results[n := y]" missing] Cons.prems
      by (auto simp: nth_Cons_shift le_iff_eq_or_Suc [of n] nth_list_update)
  qed
qed

lemma batched_remote_phase:
  fixes g :: "'a \<Rightarrow> 'b"
  assumes "distinct (map fst ms)" "\<forall>(i, x) \<in> set ms. i < length results"
  defines "res \<equiv> fold (\<lambda>((i, _), y) results. results[i := y]) (zip ms (map (g \<circ> snd) ms)) results"
  shows "length res = length results
    \<and> (\<forall>i < length results. res ! i = (case map_of ms i of Some x \<Rightarrow> g x | None \<Rightarrow> results ! i))"
  using assms(1,2) unfolding res_def
proof (induction ms arbitrary: results)
  case Nil
  then show ?case by simp
next
  case (Cons m ms)
  obtain i x where m: "m = (i, x)" by force
  have "map_of ms i = None" using Cons.prems(1) m by (simp add: map_of_eq_None_iff)
  then show ?case
    using Cons.IH [of "results[i := g x]"] Cons.prems m
    by (auto simp: nth_list_update split: option.splits)
qed

lemma map_of_enumerate_filter:
  "n \<le> i \<Longrightarrow> i < n + length xs \<Longrightarrow>
   map_of (filter (\<lambda>(i, x). P x) (enumerate n xs)) i = (if P (xs ! (i - n)) then Some (xs ! (i - n)) else None)"
proof (induction xs arbitrary: n)
  case (Cons x xs)
  show ?case
  proof (cases "i = n")
    case True
    have "map_of (filter (\<lambda>(i, x). P x) (enumerate (Suc n) xs)) n = None"
      by (auto simp: map_of_eq_None_iff in_set_enumerate_eq)
    with True show ?thesis by simp
  next
    case False
    then have "i - n = Suc (i - Suc n)" using Cons.prems(1) by simp
    with False Cons show ?thesis by simp
  qed
qed simp

lemma batched_lookup_eq:
  assumes "\<And>ys. remote ys = map g ys"
  shows "batched_lookup local_answer remote dflt xs =
     map (\<lambda>x. case local_answer x of Some y \<Rightarrow> y | None \<Rightarrow> g x) xs"
proof -
  let ?ms = "filter (\<lambda>(i, x). local_answer x = None) (enumerate 0 xs)"
  obtain res where res: "fold (\<lambda>(i, x) (results, missing).
         case local_answer x of
           Some y \<Rightarrow> (results[i := y], missing)
         | None \<Rightarrow> (results, missing @ [(i, x)])) (enumerate 0 xs) (replicate (length xs) dflt, [])
      = (res, ?ms)" "length res = length xs"
    "\<forall>i < length xs. res ! i = (if local_answer (xs ! i) \<noteq> None
          then the (local_answer (xs ! i)) else dflt)"
    using batched_local_phase [of 0 xs "replicate (length xs) dflt" local_answer "[]"] by auto
  have dist: "distinct (map fst ?ms)"
    by (simp add: distinct_map_filter)
  have bnd: "\<forall>(i, x) \<in> set ?ms. i < length res"
    using res(2) by (auto simp: in_set_enumerate_eq)
  let ?out = "fold (\<lambda>((i, _), y) results. results[i := y]) (zip ?ms (map (g \<circ> snd) ?ms)) res"
  have out: "length ?out = length xs"
    "\<forall>i < length xs. ?out ! i = (case map_of ?ms i of Some x \<Rightarrow> g x | None \<Rightarrow> res ! i)"
    using batched_remote_phase [OF dist bnd, of g] res(2) by auto
  have "?out = map (\<lambda>x. case local_answer x of Some y \<Rightarrow> y | None \<Rightarrow> g x) xs"
    using out res(3) map_of_enumerate_filter [of 0 _ xs "\<lambda>x. local_answer x = None"]
    by (intro nth_equalityI) (auto split: option.splits)
  moreover have "batched_lookup local_answer remote dflt xs = ?out"
    by (simp add: batched_lookup_def res(1) assms comp_def)
  ultimately show ?thesis by simp
qed

subsection \<open>Reachability through unmarked nodes\<close>

text \<open>
  What a traversal that marks the nodes it visits still has to visit: the nodes reachable from \<open>S\<close>
  by paths inside the set \<open>U\<close> of unmarked nodes.
\<close>

inductive_set reach :: "('a \<Rightarrow> 'a set) \<Rightarrow> 'a set \<Rightarrow> 'a set \<Rightarrow> 'a set"
  for succ :: "'a \<Rightarrow> 'a set" and U :: "'a set" and S :: "'a set" where
  reach_start: "r \<in> S \<Longrightarrow> r \<in> U \<Longrightarrow> r \<in> reach succ U S"
| reach_step: "r \<in> reach succ U S \<Longrightarrow> a \<in> succ r \<Longrightarrow> a \<in> U \<Longrightarrow> a \<in> reach succ U S"

lemma reach_subset: "reach succ U S \<subseteq> U"
  by (auto elim: reach.cases)

lemma reach_empty [simp]: "reach succ U {} = {}"
proof -
  have "False" if "r \<in> reach succ U {}" for r using that by induction auto
  then show ?thesis by blast
qed

lemma reach_skip: "r \<notin> U \<Longrightarrow> reach succ U (insert r S) = reach succ U S"
proof (intro equalityI subsetI)
  fix x assume "x \<in> reach succ U (insert r S)" "r \<notin> U"
  then show "x \<in> reach succ U S" by induction (auto intro: reach.intros)
next
  fix x assume "x \<in> reach succ U S"
  then show "x \<in> reach succ U (insert r S)" by induction (auto intro: reach.intros)
qed

lemma reach_insert:
  assumes "r \<in> U"
  shows "reach succ U (insert r S) = insert r (reach succ (U - {r}) (succ r \<union> S))"
proof (intro equalityI subsetI)
  fix x assume "x \<in> reach succ U (insert r S)"
  then show "x \<in> insert r (reach succ (U - {r}) (succ r \<union> S))"
    by induction (auto intro: reach.intros)
next
  fix x assume x: "x \<in> insert r (reach succ (U - {r}) (succ r \<union> S))"
  have r: "r \<in> reach succ U (insert r S)" using assms by (auto intro: reach.intros)
  have "y \<in> reach succ U (insert r S)" if "y \<in> reach succ (U - {r}) (succ r \<union> S)" for y
    using that r by induction (auto intro: reach.intros)
  with x r show "x \<in> reach succ U (insert r S)" by auto
qed

lemma distinct_map_append:
  assumes "distinct (map f xs)" "distinct (map f ys)" "\<And>y. y \<in> set ys \<Longrightarrow> f y \<notin> f ` set xs"
  shows "distinct (map f (xs @ ys))"
proof -
  have "z \<notin> f ` set ys" if z: "z \<in> f ` set xs" for z
  proof
    assume "z \<in> f ` set ys"
    then obtain y where "y \<in> set ys" "z = f y" by (rule imageE)
    then show False using assms(3) z by simp
  qed
  then have "set (map f xs) \<inter> set (map f ys) = {}" unfolding set_map by blast
  then show ?thesis unfolding map_append distinct_append using assms(1,2) by blast
qed

end
