(* ===== verification/Committee.thy ===== *)
theory Committee
  imports Prelude
begin

section \<open>The committee and its thresholds\<close>

text \<open>
  Models \<open>consensus/config/src/committee.rs\<close>: the authorities of an epoch, the two constructors
  that compute the thresholds from the stakes (\<open>Committee::new\<close> for \<open>3f + 1\<close> and
  \<open>Committee::new_v3\<close> for the hybrid budget \<open>5f + 3c + 1\<close>), and the accessors. Stakes are \<open>u64\<close>;
  the unchecked sums and products of the constructors wrap at \<open>2 ^ 64\<close>.

  The locales \<open>quorum_system\<close> and \<open>hybrid_quorum_system\<close> state what the protocol relies on, the
  intersection of quorums; they are interpreted on the committees the constructors build.
\<close>

type_synonym bytes = "8 word list"
type_synonym authority_index = nat
type_synonym stake = nat

record authority =
  a_stake :: stake
  address :: string
  hostname :: string
  authority_name :: bytes
  protocol_key :: bytes
  network_key :: bytes

record committee =
  epoch :: nat
  authorities :: "authority list"
  total_stake :: stake
  quorum_threshold :: stake
  certification_threshold :: stake
  validity_threshold :: stake

subsection \<open>Constructors\<close>

definition committee_new :: "nat \<Rightarrow> authority list \<Rightarrow> panic + committee" where
  "committee_new ep auths =
    (if auths = [] then Inl CommitteeEmpty
     else if \<not> length auths < u32_max then Inl TooManyAuthorities
     else
       let total = wrap64 (\<Sum>a\<leftarrow>auths. a_stake a) in
       if total = 0 then Inl TotalStakeZero
       else
         let fault_tolerance = (total - 1) div 3;
             quorum = total - fault_tolerance;
             validity = fault_tolerance + 1
         in if \<not> wsub64 (wrap64 (2 * quorum)) fault_tolerance > total
            then Inl QuorumMustIntersect
            else Inr \<lparr>epoch = ep, authorities = auths, total_stake = total,
                      quorum_threshold = quorum, certification_threshold = quorum,
                      validity_threshold = validity\<rparr>)"

text \<open>The closure \<open>scale\<close> of \<open>new_v3\<close>.\<close>

definition scale_stake :: "stake \<Rightarrow> stake \<Rightarrow> stake \<Rightarrow> panic + stake" where
  "scale_stake actual_total base_stake nominal =
     rbind (rexpect StakeScaleOverflow (checked_mul64 nominal (actual_total - 1)))
       (\<lambda>p. Inr (p div base_stake))"

definition committee_new_v3 ::
  "nat \<Rightarrow> authority list \<Rightarrow> stake \<Rightarrow> stake \<Rightarrow> panic + committee" where
  "committee_new_v3 ep auths malicious_stake crash_stake =
    (if auths = [] then Inl CommitteeEmpty
     else if \<not> length auths < u32_max then Inl TooManyAuthorities
     else
       let total = wrap64 (\<Sum>a\<leftarrow>auths. a_stake a) in
       if total = 0 then Inl TotalStakeZero
       else
         let base_stake = wrap64 (5 * malicious_stake + 3 * crash_stake) in
         rbind (if base_stake > 0
                then rbind (scale_stake total base_stake malicious_stake) (\<lambda>f.
                     rbind (scale_stake total base_stake crash_stake) (\<lambda>c. Inr (f, c)))
                else Inr (0, 0))
           (\<lambda>(f, c).
             let validity = wrap64 (f + 1);
                 certification = wrap64 (2 * f + c + 1);
                 quorum = wsub64 (wsub64 total f) c
             in if \<not> wrap64 (certification + quorum) \<ge> wrap64 (total + f + 1)
                then Inl CertQuorumSafety
                else if \<not> wrap64 (quorum * 2) \<ge> wrap64 (total + f + certification)
                then Inl QuorumQuorumSafety
                else Inr \<lparr>epoch = ep, authorities = auths, total_stake = total,
                          quorum_threshold = quorum, certification_threshold = certification,
                          validity_threshold = validity\<rparr>))"

subsection \<open>Accessors and helpers\<close>

definition committee_size :: "committee \<Rightarrow> nat" where
  "committee_size c = length (authorities c)"

definition committee_authority :: "committee \<Rightarrow> authority_index \<Rightarrow> panic + authority" where
  "committee_authority c i =
     (if i < length (authorities c) then Inr (authorities c ! i) else Inl IndexOutOfBounds)"

definition committee_stake :: "committee \<Rightarrow> authority_index \<Rightarrow> panic + stake" where
  "committee_stake c i =
     (if i < length (authorities c) then Inr (a_stake (authorities c ! i))
      else Inl IndexOutOfBounds)"

definition indexed_authorities :: "committee \<Rightarrow> (authority_index \<times> authority) list" where
  "indexed_authorities c = enumerate 0 (authorities c)"

definition reached_quorum :: "committee \<Rightarrow> stake \<Rightarrow> bool" where
  "reached_quorum c s \<longleftrightarrow> s \<ge> quorum_threshold c"

definition reached_validity :: "committee \<Rightarrow> stake \<Rightarrow> bool" where
  "reached_validity c s \<longleftrightarrow> s \<ge> validity_threshold c"

definition to_authority_index :: "committee \<Rightarrow> nat \<Rightarrow> authority_index option" where
  "to_authority_index c i = (if i < length (authorities c) then Some i else None)"

definition is_valid_index :: "committee \<Rightarrow> authority_index \<Rightarrow> bool" where
  "is_valid_index c i \<longleftrightarrow> i < committee_size c"

subsection \<open>Stake of a set of authorities\<close>

text \<open>Specification functions: the members of a committee and the stake of a set of them.\<close>

definition members :: "committee \<Rightarrow> authority_index set" where
  "members c = {..<committee_size c}"

definition stk :: "committee \<Rightarrow> authority_index \<Rightarrow> stake" where
  "stk c i = (if i < committee_size c then a_stake (authorities c ! i) else 0)"

abbreviation weight :: "committee \<Rightarrow> authority_index set \<Rightarrow> stake" where
  "weight c A \<equiv> sum (stk c) A"

lemma finite_members [simp]: "finite (members c)"
  by (simp add: members_def)

lemma members_iff [simp]: "i \<in> members c \<longleftrightarrow> is_valid_index c i"
  by (simp add: members_def is_valid_index_def)

lemma committee_stake_valid [simp]: "is_valid_index c i \<Longrightarrow> committee_stake c i = Inr (stk c i)"
  by (simp add: committee_stake_def stk_def is_valid_index_def committee_size_def)

lemma committee_stake_eq [res_simps]:
  "committee_stake c i = Inr s \<longleftrightarrow> is_valid_index c i \<and> s = stk c i"
  "committee_stake c i = Inl e \<longleftrightarrow> \<not> is_valid_index c i \<and> e = IndexOutOfBounds"
  by (auto simp: committee_stake_def stk_def is_valid_index_def committee_size_def)

lemma committee_authority_valid:
  "is_valid_index c i \<Longrightarrow> \<exists>a. committee_authority c i = Inr a \<and> a_stake a = stk c i"
  by (simp add: committee_authority_def stk_def is_valid_index_def committee_size_def)

lemma weight_members: "weight c (members c) = (\<Sum>a\<leftarrow>authorities c. a_stake a)"
  by (simp add: sum_list_map_nth members_def committee_size_def stk_def)

lemma weight_mono: "finite B \<Longrightarrow> A \<subseteq> B \<Longrightarrow> weight c A \<le> weight c B"
  by (rule sum_mono2) auto

text \<open>Indices out of range carry no stake.\<close>

lemma weight_Int_members: "finite A \<Longrightarrow> weight c A = weight c (A \<inter> members c)"
  by (rule sum.mono_neutral_right) (auto simp: stk_def is_valid_index_def)

lemma weight_le_members: "finite A \<Longrightarrow> weight c A \<le> weight c (members c)"
  using weight_mono [of "members c" "A \<inter> members c" c] weight_Int_members [of A c] by simp

subsection \<open>Interfaces: what the protocol relies on\<close>

text \<open>
  A quorum system gives every configuration a finite set of weighted members such that two
  quorums share at least a validity threshold of weight. Faults weigh less than that.
\<close>

locale quorum_system =
  fixes ok :: "'c \<Rightarrow> bool"
    and parties :: "'c \<Rightarrow> 'n set"
    and wt :: "'c \<Rightarrow> 'n \<Rightarrow> nat"
    and quorum :: "'c \<Rightarrow> nat"
    and validity :: "'c \<Rightarrow> nat"
  assumes finite_parties: "ok c \<Longrightarrow> finite (parties c)"
    and quorum_bound: "ok c \<Longrightarrow> sum (wt c) (parties c) + validity c \<le> 2 * quorum c"
    and quorum_available: "ok c \<Longrightarrow> quorum c + validity c \<le> sum (wt c) (parties c) + 1"
begin

lemma quorums_share:
  assumes "ok c" "A \<subseteq> parties c" "B \<subseteq> parties c"
    and "quorum c \<le> sum (wt c) A" "quorum c \<le> sum (wt c) B"
  shows "validity c \<le> sum (wt c) (A \<inter> B)"
proof -
  have "sum (wt c) A + sum (wt c) B \<le> sum (wt c) (parties c) + sum (wt c) (A \<inter> B)"
    using assms finite_parties by (intro sum_Int_lower) auto
  then show ?thesis using assms quorum_bound [OF assms(1)] by linarith
qed

lemma heavy_set_escapes:
  assumes "ok c" "A \<subseteq> parties c" "F \<subseteq> parties c"
    and "validity c \<le> sum (wt c) A" "sum (wt c) F < validity c"
  shows "\<exists>p \<in> A. p \<notin> F"
proof (rule ccontr)
  assume "\<not> ?thesis"
  then have "A \<subseteq> F" by auto
  moreover have "finite F" using assms finite_parties finite_subset by blast
  ultimately have "sum (wt c) A \<le> sum (wt c) F" by (intro sum_mono2) auto
  with assms show False by linarith
qed

lemma quorums_share_correct:
  assumes "ok c" "A \<subseteq> parties c" "B \<subseteq> parties c" "F \<subseteq> parties c"
    and "quorum c \<le> sum (wt c) A" "quorum c \<le> sum (wt c) B" "sum (wt c) F < validity c"
  shows "\<exists>p \<in> A \<inter> B. p \<notin> F"
  using assms by (intro heavy_set_escapes [of c]) (auto intro: quorums_share)

lemma correct_parties_reach_quorum:
  assumes "ok c" "F \<subseteq> parties c" "sum (wt c) F < validity c"
  shows "quorum c \<le> sum (wt c) (parties c - F)"
proof -
  have "sum (wt c) (parties c - F) + sum (wt c) F = sum (wt c) (parties c)"
    using assms finite_parties by (simp add: sum.subset_diff)
  with assms quorum_available [OF assms(1)] show ?thesis by linarith
qed

end

text \<open>The thresholds of commit rule v3: certificates survive in the intersection of quorums.\<close>

locale hybrid_quorum_system = quorum_system +
  fixes cert :: "'c \<Rightarrow> nat"
  assumes cert_quorum: "ok c \<Longrightarrow> sum (wt c) (parties c) + validity c \<le> cert c + quorum c"
    and quorums_keep_cert: "ok c \<Longrightarrow> sum (wt c) (parties c) + validity c + cert c \<le> 2 * quorum c + 1"
begin

lemma cert_meets_quorum:
  assumes "ok c" "A \<subseteq> parties c" "B \<subseteq> parties c"
    and "cert c \<le> sum (wt c) A" "quorum c \<le> sum (wt c) B"
  shows "validity c \<le> sum (wt c) (A \<inter> B)"
proof -
  have "sum (wt c) A + sum (wt c) B \<le> sum (wt c) (parties c) + sum (wt c) (A \<inter> B)"
    using assms finite_parties by (intro sum_Int_lower) auto
  then show ?thesis using assms cert_quorum [OF assms(1)] by linarith
qed

lemma quorums_leave_cert:
  assumes "ok c" "A \<subseteq> parties c" "B \<subseteq> parties c" "F \<subseteq> parties c"
    and "quorum c \<le> sum (wt c) A" "quorum c \<le> sum (wt c) B" "sum (wt c) F < validity c"
  shows "cert c \<le> sum (wt c) (A \<inter> B - F)"
proof -
  have fin: "finite (A \<inter> B)" "finite F"
    using assms finite_parties finite_subset by blast+
  have "sum (wt c) A + sum (wt c) B \<le> sum (wt c) (parties c) + sum (wt c) (A \<inter> B)"
    using assms finite_parties by (intro sum_Int_lower) auto
  moreover have "sum (wt c) (A \<inter> B) \<le> sum (wt c) (A \<inter> B - F) + sum (wt c) F"
  proof -
    have "sum (wt c) (A \<inter> B) \<le> sum (wt c) ((A \<inter> B - F) \<union> F)"
      using fin by (intro sum_mono2) auto
    also have "\<dots> = sum (wt c) (A \<inter> B - F) + sum (wt c) F"
      using fin by (intro sum.union_disjoint) auto
    finally show ?thesis .
  qed
  ultimately show ?thesis using assms quorums_keep_cert [OF assms(1)] by linarith
qed

end

subsection \<open>Well-formed committees\<close>

definition committee_base :: "committee \<Rightarrow> bool" where
  "committee_base c \<longleftrightarrow>
     authorities c \<noteq> [] \<and> committee_size c < u32_max
     \<and> total_stake c = (\<Sum>a\<leftarrow>authorities c. a_stake a) \<and> 0 < total_stake c
     \<and> total_stake c \<le> u64_max"

text \<open>What \<open>Committee::new\<close> establishes: \<open>f = (total - 1) / 3\<close>.\<close>

definition committee_v2 :: "committee \<Rightarrow> bool" where
  "committee_v2 c \<longleftrightarrow> committee_base c
     \<and> quorum_threshold c = total_stake c - (total_stake c - 1) div 3
     \<and> validity_threshold c = (total_stake c - 1) div 3 + 1
     \<and> certification_threshold c = quorum_threshold c"

text \<open>What \<open>Committee::new_v3\<close> establishes, with the scaled budgets \<open>f\<close> and \<open>b\<close>.\<close>

definition committee_v3 :: "committee \<Rightarrow> bool" where
  "committee_v3 c \<longleftrightarrow> committee_base c
     \<and> (\<exists>f b. 5 * f + 3 * b + 1 \<le> total_stake c
          \<and> validity_threshold c = f + 1
          \<and> certification_threshold c = 2 * f + b + 1
          \<and> quorum_threshold c = total_stake c - f - b)"

definition committee_wf :: "committee \<Rightarrow> bool" where
  "committee_wf c \<longleftrightarrow> committee_v2 c \<or> committee_v3 c"

lemma committee_base_total: "committee_base c \<Longrightarrow> weight c (members c) = total_stake c"
  by (simp add: committee_base_def weight_members)

lemma weight_no_wrap:
  assumes "committee_base c" "finite A"
  shows "wrap64 (weight c A) = weight c A"
proof (rule wrap64_id)
  have "weight c A \<le> total_stake c"
    using weight_le_members [OF assms(2), of c] by (simp add: committee_base_total [OF assms(1)])
  then show "weight c A < 2 ^ 64" using assms(1) by (simp add: committee_base_def u64_max_def)
qed

lemma committee_wf_base: "committee_wf c \<Longrightarrow> committee_base c"
  by (auto simp: committee_wf_def committee_v2_def committee_v3_def)

lemma committee_wf_size: "committee_wf c \<Longrightarrow> 0 < committee_size c"
  by (auto dest!: committee_wf_base simp: committee_base_def committee_size_def)

lemma committee_v2_bounds:
  assumes "committee_v2 c"
  shows "total_stake c + validity_threshold c \<le> 2 * quorum_threshold c"
    and "quorum_threshold c + validity_threshold c = total_stake c + 1"
proof -
  have "0 < total_stake c" using assms by (simp add: committee_v2_def committee_base_def)
  then show "total_stake c + validity_threshold c \<le> 2 * quorum_threshold c"
    "quorum_threshold c + validity_threshold c = total_stake c + 1"
    using assms by (auto simp: committee_v2_def)
qed

lemma committee_v3_bounds:
  assumes "committee_v3 c"
  shows "total_stake c + validity_threshold c \<le> 2 * quorum_threshold c"
    and "quorum_threshold c + validity_threshold c \<le> total_stake c + 1"
    and "total_stake c + validity_threshold c \<le> certification_threshold c + quorum_threshold c"
    and "total_stake c + validity_threshold c + certification_threshold c
      \<le> 2 * quorum_threshold c + 1"
  using assms by (auto simp: committee_v3_def)

interpretation bft: quorum_system committee_wf members stk quorum_threshold validity_threshold
  by unfold_locales
    (auto simp: committee_base_total [OF committee_wf_base] committee_wf_def
      dest: committee_v2_bounds committee_v3_bounds)

interpretation hybrid: hybrid_quorum_system
  committee_v3 members stk quorum_threshold validity_threshold certification_threshold
  by unfold_locales
    (use committee_v3_bounds in \<open>auto simp: committee_base_total committee_v3_def\<close>)

subsection \<open>The constructors\<close>

lemma committee_new_eq:
  assumes "(\<Sum>a\<leftarrow>auths. a_stake a) < 2 ^ 63"
  defines "t \<equiv> \<Sum>a\<leftarrow>auths. a_stake a"
  shows "committee_new ep auths =
    (if auths = [] then Inl CommitteeEmpty
     else if \<not> length auths < u32_max then Inl TooManyAuthorities
     else if t = 0 then Inl TotalStakeZero
     else Inr \<lparr>epoch = ep, authorities = auths, total_stake = t,
                quorum_threshold = t - (t - 1) div 3,
                certification_threshold = t - (t - 1) div 3,
                validity_threshold = (t - 1) div 3 + 1\<rparr>)"
proof -
  have t: "t < 2 ^ 63" using assms by simp
  have w: "wrap64 t = t" by (rule wrap64_id) (use t in simp)
  have *: "wsub64 (wrap64 (2 * (t - (t - 1) div 3))) ((t - 1) div 3) > t" if "t \<noteq> 0"
  proof -
    have "2 * (t - (t - 1) div 3) \<le> 2 * t" by simp
    also have "\<dots> < 2 ^ 64" using t by simp
    finally have "wrap64 (2 * (t - (t - 1) div 3)) = 2 * (t - (t - 1) div 3)" by (rule wrap64_id)
    moreover have "(t - 1) div 3 \<le> 2 * (t - (t - 1) div 3)" using that by linarith
    moreover have "t < 2 * (t - (t - 1) div 3) - (t - 1) div 3" using that by linarith
    ultimately show ?thesis by simp
  qed
  show ?thesis
    using * unfolding committee_new_def t_def [symmetric] w by (auto simp: Let_def)
qed

lemma committee_new_v2:
  assumes "committee_new ep auths = Inr c" "(\<Sum>a\<leftarrow>auths. a_stake a) < 2 ^ 63"
  shows "committee_v2 c \<and> epoch c = ep \<and> authorities c = auths"
proof -
  have "(\<Sum>a\<leftarrow>auths. a_stake a) \<le> u64_max" using assms(2) by (simp add: u64_max_def)
  then show ?thesis
    using assms(1) unfolding committee_new_eq [OF assms(2)]
    by (auto simp: committee_v2_def committee_base_def committee_size_def
        simp del: sum_list_eq_0_iff split: if_splits)
qed

text \<open>
  C15. As long as the stakes sum to less than \<open>2 ^ 63\<close>, \<open>Committee::new\<close> fails on exactly its three
  input conditions: the quorum-intersection assertion never fires and no arithmetic wraps. The
  committee it returns has the given authorities and the \<open>3f + 1\<close> thresholds.
\<close>

theorem committee_new_correct:
  assumes "(\<Sum>a\<leftarrow>auths. a_stake a) < 2 ^ 63"
  shows "(is_ok (committee_new ep auths) \<longleftrightarrow>
            auths \<noteq> [] \<and> length auths < u32_max \<and> (\<Sum>a\<leftarrow>auths. a_stake a) \<noteq> 0)
       \<and> (\<forall>c. committee_new ep auths = Inr c \<longrightarrow>
            committee_v2 c \<and> epoch c = ep \<and> authorities c = auths)"
proof (intro conjI allI impI)
  show "is_ok (committee_new ep auths) \<longleftrightarrow>
      auths \<noteq> [] \<and> length auths < u32_max \<and> (\<Sum>a\<leftarrow>auths. a_stake a) \<noteq> 0"
    unfolding committee_new_eq [OF assms] by simp
qed (use committee_new_v2 [OF _ assms] in auto)

text \<open>The scaled fault budgets of \<open>new_v3\<close> stay within the total stake.\<close>

lemma scaled_budget:
  fixes m k t :: nat
  assumes "0 < 5 * m + 3 * k" "0 < t"
  shows "5 * (m * (t - 1) div (5 * m + 3 * k)) + 3 * (k * (t - 1) div (5 * m + 3 * k)) + 1 \<le> t"
proof -
  define d f b where "d = 5 * m + 3 * k" and "f = m * (t - 1) div d" and "b = k * (t - 1) div d"
  have "f * d \<le> m * (t - 1)" "b * d \<le> k * (t - 1)"
    unfolding f_def b_def by (simp_all only: div_times_less_eq_dividend)
  then have "5 * (f * d) + 3 * (b * d) \<le> 5 * (m * (t - 1)) + 3 * (k * (t - 1))"
    by linarith
  also have "\<dots> = (t - 1) * d" by (simp only: d_def algebra_simps)
  finally have "(5 * f + 3 * b) * d \<le> (t - 1) * d" by (simp only: algebra_simps)
  then have "5 * f + 3 * b \<le> t - 1" using assms(1) by (simp only: mult_le_cancel2 d_def)
  then show ?thesis using assms(2) unfolding f_def b_def d_def by linarith
qed

lemma new_v3_assertions:
  fixes f b t :: nat
  assumes "5 * f + 3 * b + 1 \<le> t" "t < 2 ^ 62"
  shows "wrap64 (f + 1) = f + 1" "wrap64 (2 * f + b + 1) = 2 * f + b + 1"
    "wsub64 (wsub64 t f) b = t - f - b"
    "wrap64 (2 * f + b + 1 + (t - f - b)) \<ge> wrap64 (t + f + 1)"
    "wrap64 ((t - f - b) * 2) \<ge> wrap64 (t + f + (2 * f + b + 1))"
proof -
  have "wrap64 n = n" if "n \<le> 2 * t" for n
    by (rule wrap64_id) (use that assms(2) in simp)
  note w = this
  show "wrap64 (f + 1) = f + 1" "wrap64 (2 * f + b + 1) = 2 * f + b + 1"
    using assms(1) by (auto intro!: w)
  show "wsub64 (wsub64 t f) b = t - f - b" using assms(1) by simp
  have "wrap64 (2 * f + b + 1 + (t - f - b)) = 2 * f + b + 1 + (t - f - b)"
    "wrap64 (t + f + 1) = t + f + 1" "wrap64 ((t - f - b) * 2) = (t - f - b) * 2"
    "wrap64 (t + f + (2 * f + b + 1)) = t + f + (2 * f + b + 1)"
    using assms(1) by (intro w; linarith)+
  then show "wrap64 (2 * f + b + 1 + (t - f - b)) \<ge> wrap64 (t + f + 1)"
    "wrap64 ((t - f - b) * 2) \<ge> wrap64 (t + f + (2 * f + b + 1))"
    using assms(1) by linarith+
qed

lemma scale_stake_ok:
  assumes "nominal * t < 2 ^ 64"
  shows "scale_stake t base nominal = Inr (nominal * (t - 1) div base)"
proof -
  have "nominal * (t - 1) \<le> nominal * t" by simp
  also have "\<dots> \<le> u64_max" using assms by (simp add: u64_max_def)
  finally show ?thesis by (simp add: scale_stake_def checked_mul64_def)
qed

lemma committee_new_v3_eq:
  assumes "(\<Sum>a\<leftarrow>auths. a_stake a) < 2 ^ 62" "5 * malicious + 3 * crash < 2 ^ 64"
    and "malicious * (\<Sum>a\<leftarrow>auths. a_stake a) < 2 ^ 64"
    and "crash * (\<Sum>a\<leftarrow>auths. a_stake a) < 2 ^ 64"
  defines "t \<equiv> \<Sum>a\<leftarrow>auths. a_stake a"
  shows "\<exists>f b. (t \<noteq> 0 \<longrightarrow> 5 * f + 3 * b + 1 \<le> t) \<and> committee_new_v3 ep auths malicious crash =
    (if auths = [] then Inl CommitteeEmpty
     else if \<not> length auths < u32_max then Inl TooManyAuthorities
     else if t = 0 then Inl TotalStakeZero
     else Inr \<lparr>epoch = ep, authorities = auths, total_stake = t, quorum_threshold = t - f - b,
                certification_threshold = 2 * f + b + 1, validity_threshold = f + 1\<rparr>)"
proof -
  define d where "d = 5 * malicious + 3 * crash"
  define f where "f = (if d > 0 then malicious * (t - 1) div d else 0)"
  define b where "b = (if d > 0 then crash * (t - 1) div d else 0)"
  have t: "t < 2 ^ 62" using assms(1) by (simp add: t_def)
  have w: "wrap64 t = t" by (rule wrap64_id) (use t in simp)
  have d: "wrap64 d = d" using assms(2) by (simp add: d_def)
  have fb: "(if d > 0
       then rbind (scale_stake t d malicious) (\<lambda>f. rbind (scale_stake t d crash) (\<lambda>c. Inr (f, c)))
       else Inr (0, 0)) = Inr (f, b)"
    using assms(3,4) by (simp add: scale_stake_ok f_def b_def t_def)
  have budget: "5 * f + 3 * b + 1 \<le> t" if "t \<noteq> 0"
    using that scaled_budget [of malicious crash t] by (auto simp: f_def b_def d_def)
  have "committee_new_v3 ep auths malicious crash =
    (if auths = [] then Inl CommitteeEmpty
     else if \<not> length auths < u32_max then Inl TooManyAuthorities
     else if t = 0 then Inl TotalStakeZero
     else Inr \<lparr>epoch = ep, authorities = auths, total_stake = t, quorum_threshold = t - f - b,
                certification_threshold = 2 * f + b + 1, validity_threshold = f + 1\<rparr>)"
  proof (cases "t = 0")
    case True
    then show ?thesis unfolding committee_new_v3_def t_def [symmetric] w Let_def by simp
  next
    case False
    note a = new_v3_assertions [OF budget [OF False] t]
    show ?thesis
      using a(4,5) False
      unfolding committee_new_v3_def t_def [symmetric] w Let_def d_def [symmetric] d fb
        rbind_simps prod.case a(1,2,3)
      by simp
  qed
  with budget show ?thesis by blast
qed

lemma committee_new_v3_v3:
  assumes "committee_new_v3 ep auths malicious crash = Inr c"
    and "(\<Sum>a\<leftarrow>auths. a_stake a) < 2 ^ 62" "5 * malicious + 3 * crash < 2 ^ 64"
    and "malicious * (\<Sum>a\<leftarrow>auths. a_stake a) < 2 ^ 64"
    and "crash * (\<Sum>a\<leftarrow>auths. a_stake a) < 2 ^ 64"
  shows "committee_v3 c \<and> epoch c = ep \<and> authorities c = auths"
proof -
  have "(\<Sum>a\<leftarrow>auths. a_stake a) \<le> u64_max" using assms(2) by (simp add: u64_max_def)
  then show ?thesis
    using assms(1) committee_new_v3_eq [OF assms(2-5), of ep]
    by (auto simp: committee_v3_def committee_base_def committee_size_def
        simp del: sum_list_eq_0_iff split: if_splits)
qed

text \<open>
  C16. With total stake below \<open>2 ^ 62\<close> and nominal budgets small enough that scaling does not
  overflow, \<open>Committee::new_v3\<close> never trips one of its two stake-safety assertions: it fails only on
  the three input conditions, and the committee it returns satisfies the hybrid thresholds
  \<open>f + 1\<close>, \<open>2f + c + 1\<close> and \<open>total - f - c\<close> for some \<open>f\<close>, \<open>c\<close> with \<open>5f + 3c + 1\<close> within the total.
\<close>

theorem committee_new_v3_correct:
  assumes "(\<Sum>a\<leftarrow>auths. a_stake a) < 2 ^ 62"
    and "5 * malicious + 3 * crash < 2 ^ 64"
    and "malicious * (\<Sum>a\<leftarrow>auths. a_stake a) < 2 ^ 64"
    and "crash * (\<Sum>a\<leftarrow>auths. a_stake a) < 2 ^ 64"
  shows "(is_ok (committee_new_v3 ep auths malicious crash) \<longleftrightarrow>
            auths \<noteq> [] \<and> length auths < u32_max \<and> (\<Sum>a\<leftarrow>auths. a_stake a) \<noteq> 0)
       \<and> (\<forall>c. committee_new_v3 ep auths malicious crash = Inr c \<longrightarrow>
            committee_v3 c \<and> epoch c = ep \<and> authorities c = auths)"
proof (intro conjI allI impI)
  show "is_ok (committee_new_v3 ep auths malicious crash) \<longleftrightarrow>
      auths \<noteq> [] \<and> length auths < u32_max \<and> (\<Sum>a\<leftarrow>auths. a_stake a) \<noteq> 0"
    using committee_new_v3_eq [OF assms, of ep]
    by (auto simp del: sum_list_eq_0_iff split: if_splits)
qed (use committee_new_v3_v3 [OF _ assms] in auto)

subsection \<open>Quorum intersection for constructed committees\<close>

text \<open>
  C13. For a committee built by \<open>Committee::new\<close>, any two sets of authorities that reach quorum share
  authorities of at least the validity threshold, so with less than that stake faulty they share a
  correct authority; and the correct authorities alone reach quorum.
\<close>

theorem quorum_intersection:
  assumes "committee_new ep auths = Inr c" "(\<Sum>a\<leftarrow>auths. a_stake a) < 2 ^ 63"
    and "A \<subseteq> members c" "B \<subseteq> members c" "F \<subseteq> members c"
    and "reached_quorum c (weight c A)" "reached_quorum c (weight c B)"
    and "\<not> reached_validity c (weight c F)"
  shows "reached_validity c (weight c (A \<inter> B)) \<and> (\<exists>p \<in> A \<inter> B. p \<notin> F)
    \<and> reached_quorum c (weight c (members c - F))"
proof -
  have "committee_wf c"
    using committee_new_v2 [OF assms(1,2)] by (simp add: committee_wf_def)
  then show ?thesis
    using assms bft.quorums_share [of c A B] bft.quorums_share_correct [of c A B F]
      bft.correct_parties_reach_quorum [of c F]
    unfolding reached_quorum_def reached_validity_def by auto
qed

text \<open>
  C14. For a committee built by \<open>Committee::new_v3\<close>: a certificate and a quorum share at least the
  validity threshold, and what two quorums share holds, without the faulty authorities, a
  certificate.
\<close>

theorem hybrid_intersection:
  assumes "committee_new_v3 ep auths malicious crash = Inr c"
    and "(\<Sum>a\<leftarrow>auths. a_stake a) < 2 ^ 62" "5 * malicious + 3 * crash < 2 ^ 64"
    and "malicious * (\<Sum>a\<leftarrow>auths. a_stake a) < 2 ^ 64"
    and "crash * (\<Sum>a\<leftarrow>auths. a_stake a) < 2 ^ 64"
    and "A \<subseteq> members c" "B \<subseteq> members c" "F \<subseteq> members c"
    and "reached_quorum c (weight c B)" "\<not> reached_validity c (weight c F)"
  shows "(certification_threshold c \<le> weight c A \<longrightarrow> reached_validity c (weight c (A \<inter> B)))
    \<and> (reached_quorum c (weight c A) \<longrightarrow> certification_threshold c \<le> weight c (A \<inter> B - F))"
proof -
  have "committee_v3 c"
    using committee_new_v3_v3 [OF assms(1-5)] by simp
  then show ?thesis
    using assms(6-) hybrid.cert_meets_quorum [of c A B] hybrid.quorums_leave_cert [of c A B F]
    unfolding reached_quorum_def reached_validity_def by auto
qed

subsection \<open>Example committees\<close>

text \<open>Committees of authorities with given stakes, the inputs of the witnesses below.\<close>

definition demo_authority :: "stake \<Rightarrow> authority" where
  "demo_authority s = \<lparr>a_stake = s, address = ''/ip4'', hostname = ''host'', authority_name = [],
     protocol_key = [], network_key = []\<rparr>"

definition demo_committee :: committee where
  "demo_committee = \<lparr>epoch = 0, authorities = map demo_authority [1, 1, 1, 1], total_stake = 4,
     quorum_threshold = 3, certification_threshold = 3, validity_threshold = 2\<rparr>"

definition demo_committee_v3 :: committee where
  "demo_committee_v3 = \<lparr>epoch = 0, authorities = map demo_authority [1, 1, 1, 1, 1, 1],
     total_stake = 6, quorum_threshold = 5, certification_threshold = 3, validity_threshold = 2\<rparr>"

lemma demo_committee_new: "committee_new 0 (map demo_authority [1, 1, 1, 1]) = Inr demo_committee"
  by (simp add: committee_new_def demo_committee_def demo_authority_def wrap64_def wsub64_def
    u32_max_def Let_def)

lemma demo_committee_v3_new:
  "committee_new_v3 0 (map demo_authority [1, 1, 1, 1, 1, 1]) 1 0 = Inr demo_committee_v3"
  by (simp add: committee_new_v3_def demo_committee_v3_def demo_authority_def wrap64_def wsub64_def
    u32_max_def u64_max_def Let_def scale_stake_def checked_mul64_def)

lemma demo_committee_wf: "committee_wf demo_committee"
  by (simp add: committee_wf_def committee_v2_def committee_base_def demo_committee_def
    demo_authority_def committee_size_def u32_max_def u64_max_def)

lemma demo_stk: "stk demo_committee i = (if i < 4 then 1 else 0)"
  by (auto simp: stk_def demo_committee_def demo_authority_def committee_size_def
    less_Suc_eq numeral_eq_Suc)

lemma demo_v3_stk: "stk demo_committee_v3 i = (if i < 6 then 1 else 0)"
  by (auto simp: stk_def demo_committee_v3_def demo_authority_def committee_size_def
    less_Suc_eq numeral_eq_Suc)

lemma demo_size: "committee_size demo_committee = 4" "committee_size demo_committee_v3 = 6"
  by (simp_all add: committee_size_def demo_committee_def demo_committee_v3_def)

lemma demo_thresholds:
  "quorum_threshold demo_committee = 3" "validity_threshold demo_committee = 2"
  "certification_threshold demo_committee = 3" "total_stake demo_committee = 4"
  "quorum_threshold demo_committee_v3 = 5" "validity_threshold demo_committee_v3 = 2"
  "certification_threshold demo_committee_v3 = 3" "total_stake demo_committee_v3 = 6"
  by (simp_all add: demo_committee_def demo_committee_v3_def)

lemma demo_valid [simp]: "is_valid_index demo_committee i \<longleftrightarrow> i < 4"
  by (simp add: is_valid_index_def demo_size)

theorem committee_new_correct_witness:
  "(\<Sum>a\<leftarrow>map demo_authority [1, 1, 1, 1]. a_stake a) < 2 ^ 63 \<and> committee_v2 demo_committee"
  using committee_new_correct [of "map demo_authority [1, 1, 1, 1]" 0] demo_committee_new
  by (simp add: demo_authority_def)

theorem committee_new_v3_correct_witness:
  "(\<Sum>a\<leftarrow>map demo_authority [1, 1, 1, 1, 1, 1]. a_stake a) < 2 ^ 62
   \<and> committee_v3 demo_committee_v3"
  using committee_new_v3_correct [of "map demo_authority [1, 1, 1, 1, 1, 1]" 1 0 0]
    demo_committee_v3_new
  by (simp add: demo_authority_def)

theorem quorum_intersection_witness:
  "reached_validity demo_committee (weight demo_committee ({0, 1, 2} \<inter> {1, 2, 3}))
   \<and> (\<exists>p \<in> {0, 1, 2} \<inter> {1, 2, 3}. p \<notin> {1 :: nat})
   \<and> reached_quorum demo_committee (weight demo_committee (members demo_committee - {1}))"
  by (rule quorum_intersection [OF demo_committee_new])
    (auto simp: demo_authority_def demo_stk demo_size reached_quorum_def reached_validity_def
      is_valid_index_def, simp_all add: demo_committee_def)

theorem hybrid_intersection_witness:
  "reached_validity demo_committee_v3
     (weight demo_committee_v3 ({0, 1, 2, 3, 4} \<inter> {1, 2, 3, 4, 5}))
   \<and> certification_threshold demo_committee_v3
        \<le> weight demo_committee_v3 ({0, 1, 2, 3, 4} \<inter> {1, 2, 3, 4, 5} - {2})"
proof -
  let ?A = "{0, 1, 2, 3, 4} :: nat set" and ?B = "{1, 2, 3, 4, 5} :: nat set"
  have "certification_threshold demo_committee_v3 \<le> weight demo_committee_v3 ?A"
    "reached_quorum demo_committee_v3 (weight demo_committee_v3 ?A)"
    "reached_quorum demo_committee_v3 (weight demo_committee_v3 ?B)"
    "\<not> reached_validity demo_committee_v3 (weight demo_committee_v3 {2})"
    by (simp_all add: demo_v3_stk reached_quorum_def reached_validity_def)
      (simp_all add: demo_committee_v3_def)
  then show ?thesis
    using hybrid_intersection [OF demo_committee_v3_new, of ?A ?B "{2}"]
    by (simp add: demo_authority_def demo_size is_valid_index_def)
qed

end
