(* ===== verification/Stake_Aggregator.thy ===== *)
theory Stake_Aggregator
  imports Committee
begin

section \<open>Aggregation of stake\<close>

text \<open>
  Models \<open>consensus/core/src/stake_aggregator.rs\<close>. The type parameter \<open>T: CommitteeThreshold\<close> of
  \<open>StakeAggregator<T>\<close> becomes the first argument of the operations that use it, the function
  \<open>T::is_threshold\<close>. The locale \<open>committee_threshold\<close> is the trait with its contract; the lemmas
  on the aggregator are proved once in it, and it is interpreted on both implementations.
\<close>

subsection \<open>Thresholds\<close>

definition quorum_is_threshold :: "committee \<Rightarrow> stake \<Rightarrow> bool" where
  "quorum_is_threshold c amount = reached_quorum c amount"

definition quorum_threshold_of :: "committee \<Rightarrow> stake" where
  "quorum_threshold_of c = quorum_threshold c"

definition certification_is_threshold :: "committee \<Rightarrow> stake \<Rightarrow> bool" where
  "certification_is_threshold c amount \<longleftrightarrow> amount \<ge> certification_threshold c"

definition certification_threshold_of :: "committee \<Rightarrow> stake" where
  "certification_threshold_of c = certification_threshold c"

subsection \<open>The aggregator\<close>

record stake_aggregator =
  votes :: "authority_index fset"
  agg_stake :: stake

definition aggregator_new :: stake_aggregator where
  "aggregator_new = \<lparr>votes = {||}, agg_stake = 0\<rparr>"

definition aggregator_add_unique ::
  "authority_index \<Rightarrow> committee \<Rightarrow> stake_aggregator \<Rightarrow> panic + bool \<times> stake_aggregator" where
  "aggregator_add_unique vote c agg =
    (if vote |\<notin>| votes agg
     then rbind (committee_stake c vote) (\<lambda>s.
       Inr (True, agg\<lparr>votes := finsert vote (votes agg), agg_stake := wrap64 (agg_stake agg + s)\<rparr>))
     else Inr (False, agg))"

definition aggregator_add ::
  "(committee \<Rightarrow> stake \<Rightarrow> bool) \<Rightarrow> authority_index \<Rightarrow> committee \<Rightarrow> stake_aggregator
     \<Rightarrow> panic + bool \<times> stake_aggregator" where
  "aggregator_add is_threshold vote c agg =
    rbind (if vote |\<notin>| votes agg
           then rbind (committee_stake c vote) (\<lambda>s.
             Inr (agg\<lparr>votes := finsert vote (votes agg), agg_stake := wrap64 (agg_stake agg + s)\<rparr>))
           else Inr agg)
      (\<lambda>agg'. Inr (is_threshold c (agg_stake agg'), agg'))"

definition aggregator_reached_threshold ::
  "(committee \<Rightarrow> stake \<Rightarrow> bool) \<Rightarrow> committee \<Rightarrow> stake_aggregator \<Rightarrow> bool" where
  "aggregator_reached_threshold is_threshold c agg = is_threshold c (agg_stake agg)"

definition aggregator_threshold :: "(committee \<Rightarrow> stake) \<Rightarrow> committee \<Rightarrow> stake" where
  "aggregator_threshold threshold c = threshold c"

definition aggregator_clear :: "stake_aggregator \<Rightarrow> stake_aggregator" where
  "aggregator_clear agg = agg\<lparr>votes := {||}, agg_stake := 0\<rparr>"

text \<open>The callers add votes in a loop and look at the aggregator afterwards.\<close>

definition aggregator_add_all ::
  "(committee \<Rightarrow> stake \<Rightarrow> bool) \<Rightarrow> authority_index list \<Rightarrow> committee \<Rightarrow> stake_aggregator
     \<Rightarrow> panic + stake_aggregator" where
  "aggregator_add_all is_threshold vs c =
     rfold (\<lambda>v agg. rbind (aggregator_add is_threshold v c agg) (\<lambda>(_, agg'). Inr agg')) vs"

subsection \<open>Invariant\<close>

definition aggregator_inv :: "committee \<Rightarrow> stake_aggregator \<Rightarrow> bool" where
  "aggregator_inv c agg \<longleftrightarrow>
     (\<forall>v. v |\<in>| votes agg \<longrightarrow> is_valid_index c v) \<and> agg_stake agg = weight c (fset (votes agg))"

lemma aggregator_new_inv [simp]: "aggregator_inv c aggregator_new"
  by (simp add: aggregator_inv_def aggregator_new_def)

lemma aggregator_new_simps [simp]: "votes aggregator_new = {||}" "agg_stake aggregator_new = 0"
  by (simp_all add: aggregator_new_def)

lemma aggregator_clear_eq [simp]: "aggregator_clear agg = aggregator_new"
  by (simp add: aggregator_clear_def aggregator_new_def)

lemma aggregator_insert:
  assumes "committee_base c" "aggregator_inv c agg" "v |\<notin>| votes agg"
  shows "wrap64 (agg_stake agg + stk c v) = weight c (insert v (fset (votes agg)))"
proof -
  have "agg_stake agg + stk c v = weight c (insert v (fset (votes agg)))"
    using assms(2,3) by (simp add: aggregator_inv_def)
  then show ?thesis using weight_no_wrap [OF assms(1), of "insert v (fset (votes agg))"] by simp
qed

lemma aggregator_add_unique_ok:
  assumes "committee_base c" "aggregator_inv c agg" "is_valid_index c v"
  shows "\<exists>agg'. aggregator_add_unique v c agg = Inr (v |\<notin>| votes agg, agg')
    \<and> aggregator_inv c agg' \<and> votes agg' = finsert v (votes agg)"
proof (cases "v |\<in>| votes agg")
  case True
  then show ?thesis using assms(2) by (auto simp: aggregator_add_unique_def)
next
  case False
  then show ?thesis using assms aggregator_insert [OF assms(1,2) False]
    by (auto simp: aggregator_add_unique_def aggregator_inv_def)
qed

lemma aggregator_inv_total:
  assumes "committee_base c" "aggregator_inv c agg"
  shows "agg_stake agg \<le> total_stake c"
  using assms weight_le_members [of "fset (votes agg)" c]
  by (simp add: aggregator_inv_def committee_base_total)

subsection \<open>The trait \<open>CommitteeThreshold\<close>\<close>

locale committee_threshold =
  fixes is_thr :: "committee \<Rightarrow> stake \<Rightarrow> bool"
    and thr :: "committee \<Rightarrow> stake"
  assumes is_thr_iff: "is_thr c s \<longleftrightarrow> thr c \<le> s"
begin

lemma aggregator_add_ok:
  assumes "committee_base c" "aggregator_inv c agg" "is_valid_index c v"
  shows "\<exists>agg'. aggregator_add is_thr v c agg
      = Inr (thr c \<le> weight c (insert v (fset (votes agg))), agg')
    \<and> aggregator_inv c agg' \<and> votes agg' = finsert v (votes agg)"
proof (cases "v |\<in>| votes agg")
  case True
  then show ?thesis using assms(2)
    by (auto simp: aggregator_add_def is_thr_iff aggregator_inv_def insert_absorb)
next
  case False
  then show ?thesis using assms aggregator_insert [OF assms(1,2) False]
    by (auto simp: aggregator_add_def aggregator_inv_def is_thr_iff)
qed

lemma aggregator_add_all_ok:
  assumes "committee_base c" "aggregator_inv c agg" "\<And>v. v \<in> set vs \<Longrightarrow> is_valid_index c v"
  shows "\<exists>agg'. aggregator_add_all is_thr vs c agg = Inr agg' \<and> aggregator_inv c agg'
    \<and> fset (votes agg') = fset (votes agg) \<union> set vs"
  using assms(2,3)
proof (induction vs arbitrary: agg)
  case Nil
  then show ?case by (simp add: aggregator_add_all_def)
next
  case (Cons v vs)
  obtain agg1 where 1: "aggregator_add is_thr v c agg
      = Inr (thr c \<le> weight c (insert v (fset (votes agg))), agg1)"
    "aggregator_inv c agg1" "votes agg1 = finsert v (votes agg)"
    using aggregator_add_ok [OF assms(1) Cons.prems(1), of v] Cons.prems(2) by auto
  obtain agg2 where "aggregator_add_all is_thr vs c agg1 = Inr agg2" "aggregator_inv c agg2"
    "fset (votes agg2) = fset (votes agg1) \<union> set vs"
    using Cons.IH [OF 1(2)] Cons.prems(2) by auto
  then show ?case using 1 by (auto simp: aggregator_add_all_def)
qed

lemma aggregator_votes_ok:
  assumes "committee_base c" "\<And>v. v \<in> set vs \<Longrightarrow> is_valid_index c v"
  shows "\<exists>agg. aggregator_add_all is_thr vs c aggregator_new = Inr agg
    \<and> fset (votes agg) = set vs \<and> agg_stake agg = weight c (set vs)
    \<and> agg_stake agg \<le> total_stake c
    \<and> (aggregator_reached_threshold is_thr c agg \<longleftrightarrow> thr c \<le> weight c (set vs))"
  using aggregator_add_all_ok [OF assms(1) aggregator_new_inv assms(2)]
    aggregator_inv_total [OF assms(1)]
  by (fastforce simp: aggregator_new_def aggregator_inv_def aggregator_reached_threshold_def is_thr_iff)

end

interpretation quorum_votes: committee_threshold quorum_is_threshold quorum_threshold_of
  by unfold_locales (simp add: quorum_is_threshold_def quorum_threshold_of_def reached_quorum_def)

interpretation certification_votes:
  committee_threshold certification_is_threshold certification_threshold_of
  by unfold_locales (simp add: certification_is_threshold_def certification_threshold_of_def)

text \<open>
  C22. Adding any sequence of votes of members of the committee, with repetitions and in any order,
  never panics and never overflows: the aggregator holds exactly the voters and their total stake,
  each counted once, and has reached the quorum exactly when the voters' stake has.
\<close>

theorem aggregator_counts_once:
  assumes "committee_wf c" "\<forall>v \<in> set vs. is_valid_index c v"
  shows "\<exists>agg. aggregator_add_all quorum_is_threshold vs c aggregator_new = Inr agg
    \<and> fset (votes agg) = set vs \<and> agg_stake agg = weight c (set vs)
    \<and> agg_stake agg \<le> total_stake c
    \<and> (aggregator_reached_threshold quorum_is_threshold c agg
        \<longleftrightarrow> quorum_threshold c \<le> weight c (set vs))"
  using quorum_votes.aggregator_votes_ok [OF committee_wf_base [OF assms(1)], of vs] assms(2)
  by (simp add: quorum_threshold_of_def)

theorem aggregator_counts_once_witness:
  "\<exists>agg. aggregator_add_all quorum_is_threshold [0, 2, 0, 3] demo_committee aggregator_new = Inr agg
    \<and> fset (votes agg) = {0, 2, 3} \<and> agg_stake agg = 3
    \<and> aggregator_reached_threshold quorum_is_threshold demo_committee agg"
  using aggregator_counts_once [OF demo_committee_wf, of "[0, 2, 0, 3]"]
  by (auto simp: demo_stk demo_thresholds insert_commute numeral_3_eq_3)

end
