(* ===== verification/Block_Ref.thy ===== *)
theory Block_Ref
  imports Committee
begin

section \<open>Rounds, digests and block references\<close>

text \<open>
  Models \<open>consensus/types/src/block.rs\<close>. A digest of 32 bytes is a \<open>256 word\<close>: the derived order
  of \<open>[u8; 32]\<close> is lexicographic, which is the unsigned order of the big-endian number. The derived
  order of \<open>BlockRef\<close> is lexicographic on (round, author, digest) and is instantiated here as the
  linear order of the type, so that ordered sets and maps of the library range over references.
\<close>

type_synonym round_number = nat
type_synonym block_timestamp_ms = nat
type_synonym transaction_index = nat
type_synonym block_digest = "256 word"

definition num_reserved_transaction_indices :: transaction_index where
  "num_reserved_transaction_indices = 8"

definition ping_transaction_index :: transaction_index where
  "ping_transaction_index = u16_max"

definition digest_min :: block_digest where "digest_min = 0"
definition digest_max :: block_digest where "digest_max = - 1"

datatype block_ref =
  BlockRef (br_round: round_number) (br_author: authority_index) (br_digest: block_digest)

definition block_ref_min :: block_ref where
  "block_ref_min = BlockRef 0 0 digest_min"

definition block_ref_max :: block_ref where
  "block_ref_max = BlockRef u32_max u32_max digest_max"

instantiation block_ref :: linorder
begin

definition less_eq_block_ref :: "block_ref \<Rightarrow> block_ref \<Rightarrow> bool" where
  "less_eq_block_ref a b \<longleftrightarrow>
     br_round a < br_round b
     \<or> br_round a = br_round b \<and> (br_author a < br_author b
         \<or> br_author a = br_author b \<and> br_digest a \<le> br_digest b)"

definition less_block_ref :: "block_ref \<Rightarrow> block_ref \<Rightarrow> bool" where
  "less_block_ref a b \<longleftrightarrow> a \<le> b \<and> \<not> b \<le> a"

instance
proof
  fix a b c :: block_ref
  show "(a < b) = (a \<le> b \<and> \<not> b \<le> a)" by (rule less_block_ref_def)
  show "a \<le> a" by (simp add: less_eq_block_ref_def)
  show "a \<le> b \<Longrightarrow> b \<le> c \<Longrightarrow> a \<le> c" by (auto simp: less_eq_block_ref_def)
  show "a \<le> b \<Longrightarrow> b \<le> a \<Longrightarrow> a = b" by (cases a; cases b) (auto simp: less_eq_block_ref_def)
  show "a \<le> b \<or> b \<le> a" by (auto simp: less_eq_block_ref_def)
qed

end

lemma less_block_ref_iff:
  "a < b \<longleftrightarrow>
     br_round a < br_round b
     \<or> br_round a = br_round b \<and> (br_author a < br_author b
         \<or> br_author a = br_author b \<and> br_digest a < br_digest b)"
  by (auto simp: less_block_ref_def less_eq_block_ref_def)

lemma block_ref_le_round: "a \<le> b \<Longrightarrow> br_round a \<le> br_round b" for a b :: block_ref
  by (auto simp: less_eq_block_ref_def)

lemma block_ref_round_less: "br_round a < br_round b \<Longrightarrow> a < b"
  by (simp add: less_block_ref_iff)

text \<open>
  \<open>BlockRef::MIN\<close> and \<open>BlockRef::MAX\<close> bound every reference whose fields fit their types, so that
  the range queries built from them are exhaustive.
\<close>

lemma block_ref_min_le: "block_ref_min \<le> r"
  by (auto simp: less_eq_block_ref_def block_ref_min_def digest_min_def)

lemma word_le_max: "(x :: 256 word) \<le> - 1"
  by (rule word_n1_ge)

lemma block_ref_max_ge: "br_round r \<le> u32_max \<Longrightarrow> br_author r \<le> u32_max \<Longrightarrow> r \<le> block_ref_max"
  by (auto simp: less_eq_block_ref_def block_ref_max_def digest_max_def word_le_max)

text \<open>The references of one slot: the bounds \<open>(round, author, MIN)\<close> to \<open>(round, author, MAX)\<close>.\<close>

lemma block_ref_slot_range:
  "BlockRef r a digest_min \<le> x \<and> x \<le> BlockRef r a digest_max \<longleftrightarrow> br_round x = r \<and> br_author x = a"
  by (auto simp: less_eq_block_ref_def digest_min_def digest_max_def word_le_max)

end
