(* ===== verification/Threshold_Clock.thy ===== *)
theory Threshold_Clock
  imports Block_Ref Stake_Aggregator
begin

section \<open>The threshold clock\<close>

text \<open>
  Models \<open>consensus/core/src/threshold_clock.rs\<close>. \<open>Instant::now()\<close> is the argument \<open>now\<close>; the
  metric that measures the delay since \<open>quorum_ts\<close> is not modelled, but the committee lookup it
  makes is, since an index out of range would panic there.
\<close>

record threshold_clock =
  tc_aggregator :: stake_aggregator
  tc_round :: round_number
  quorum_ts :: nat

definition threshold_clock_new :: "nat \<Rightarrow> round_number \<Rightarrow> threshold_clock" where
  "threshold_clock_new now r = \<lparr>tc_aggregator = aggregator_new, tc_round = r, quorum_ts = now\<rparr>"

definition tc_add_block ::
  "committee \<Rightarrow> nat \<Rightarrow> block_ref \<Rightarrow> threshold_clock \<Rightarrow> panic + bool \<times> threshold_clock" where
  "tc_add_block c now b tc =
    (if br_round b < tc_round tc then Inr (False, tc)
     else if br_round b = tc_round tc then
       rbind (aggregator_add quorum_is_threshold (br_author b) c (tc_aggregator tc))
         (\<lambda>(reached, agg).
           if reached
           then Inr (True, tc\<lparr>tc_aggregator := aggregator_clear agg,
                              tc_round := wrap32 (br_round b + 1), quorum_ts := now\<rparr>)
           else rbind (committee_authority c (br_author b))
                  (\<lambda>_. Inr (False, tc\<lparr>tc_aggregator := agg\<rparr>)))
     else
       rbind (aggregator_add quorum_is_threshold (br_author b) c
                (aggregator_clear (tc_aggregator tc)))
         (\<lambda>(reached, agg).
           Inr (True, tc\<lparr>tc_aggregator := agg,
                         tc_round := (if reached then wrap32 (br_round b + 1) else br_round b),
                         quorum_ts := now\<rparr>)))"

text \<open>The blocks accepted by the node, each with the time it is added.\<close>

definition tc_add_blocks ::
  "committee \<Rightarrow> (nat \<times> block_ref) list \<Rightarrow> threshold_clock \<Rightarrow> panic + threshold_clock" where
  "tc_add_blocks c =
     rfold (\<lambda>(now, b) tc. rbind (tc_add_block c now b tc) (\<lambda>(_, tc'). Inr tc'))"

subsection \<open>Specification\<close>

text \<open>
  The clock is a function of the set of blocks seen: with \<open>m\<close> the highest round among them and the
  initial round, the clock is past \<open>m\<close> if the authors of round \<open>m\<close> hold a quorum, and at \<open>m\<close>
  otherwise.
\<close>

definition top_round :: "round_number \<Rightarrow> block_ref set \<Rightarrow> round_number" where
  "top_round r0 B = Max (insert r0 (br_round ` B))"

definition round_authors :: "round_number \<Rightarrow> block_ref set \<Rightarrow> authority_index set" where
  "round_authors r B = br_author ` {b \<in> B. br_round b = r}"

definition clock_round :: "committee \<Rightarrow> round_number \<Rightarrow> block_ref set \<Rightarrow> round_number" where
  "clock_round c r0 B =
     (let m = top_round r0 B in
      if quorum_threshold c \<le> weight c (round_authors m B) then m + 1 else m)"

definition tc_inv ::
  "committee \<Rightarrow> round_number \<Rightarrow> block_ref set \<Rightarrow> threshold_clock \<Rightarrow> bool" where
  "tc_inv c r0 B tc \<longleftrightarrow> finite B \<and> aggregator_inv c (tc_aggregator tc)
     \<and> tc_round tc = clock_round c r0 B
     \<and> fset (votes (tc_aggregator tc)) = round_authors (tc_round tc) B"

lemma top_round_empty [simp]: "top_round r0 {} = r0"
  by (simp add: top_round_def)

lemma top_round_insert: "finite B \<Longrightarrow> top_round r0 (insert b B) = max (br_round b) (top_round r0 B)"
  by (simp add: top_round_def insert_commute [of r0])

lemma round_authors_insert:
  "round_authors r (insert b B) =
     (if br_round b = r then insert (br_author b) (round_authors r B) else round_authors r B)"
  by (auto simp: round_authors_def)

lemma round_authors_above: "finite B \<Longrightarrow> top_round r0 B < r \<Longrightarrow> round_authors r B = {}"
  by (auto simp: round_authors_def top_round_def)

lemma round_authors_empty [simp]: "round_authors r {} = {}"
  by (simp add: round_authors_def)

lemma finite_round_authors [simp]: "finite B \<Longrightarrow> finite (round_authors r B)"
  by (simp add: round_authors_def)

lemma clock_round_cases:
  obtains "clock_round c r0 B = top_round r0 B"
    "weight c (round_authors (top_round r0 B) B) < quorum_threshold c"
  | "clock_round c r0 B = top_round r0 B + 1"
    "quorum_threshold c \<le> weight c (round_authors (top_round r0 B) B)"
  by (cases "quorum_threshold c \<le> weight c (round_authors (top_round r0 B) B)")
    (simp_all add: clock_round_def)

lemma clock_round_top:
  "top_round r0 B = m \<Longrightarrow> clock_round c r0 B =
     (if quorum_threshold c \<le> weight c (round_authors m B) then m + 1 else m)"
  by (simp add: clock_round_def)

subsection \<open>One step of the clock\<close>

text \<open>
  A block below the clock changes nothing; a block at the clock is counted with the others of its
  round; a block above it starts a new count. The last case assumes that its author alone is not
  a quorum.
\<close>

lemma clock_round_below:
  assumes "finite B" "br_round b < clock_round c r0 B"
  shows "clock_round c r0 (insert b B) = clock_round c r0 B"
proof (cases rule: clock_round_cases [of c r0 B])
  case 1
  then have "br_round b < top_round r0 B" using assms by simp
  with 1 assms(1) show ?thesis
    by (simp add: clock_round_top [of r0 "insert b B" "top_round r0 B"] top_round_insert
      round_authors_insert)
next
  case 2
  then have "br_round b \<le> top_round r0 B" using assms by simp
  moreover have "weight c (round_authors (top_round r0 B) B)
      \<le> weight c (round_authors (top_round r0 B) (insert b B))"
    using assms(1) by (intro weight_mono) (auto simp: round_authors_insert)
  ultimately show ?thesis using 2 assms(1)
    by (simp add: clock_round_top [of r0 "insert b B" "top_round r0 B"] top_round_insert)
qed

lemma clock_round_at:
  assumes "finite B" "br_round b \<ge> clock_round c r0 B"
  shows "clock_round c r0 (insert b B) =
     (if quorum_threshold c \<le> weight c (insert (br_author b) (round_authors (br_round b) B))
      then br_round b + 1 else br_round b)"
proof -
  have "top_round r0 B \<le> br_round b"
    using assms(2) by (cases rule: clock_round_cases [of c r0 B]) auto
  with assms(1) show ?thesis
    by (simp add: clock_round_top [of r0 "insert b B" "br_round b"] top_round_insert
      round_authors_insert)
qed

lemma round_authors_above_clock:
  assumes "finite B" "clock_round c r0 B < r"
  shows "round_authors r B = {}"
  using assms
  by (cases rule: clock_round_cases [of c r0 B]) (simp_all add: round_authors_above [of B r0])

lemma round_authors_next:
  assumes "finite B" "clock_round c r0 B \<le> br_round b"
  shows "round_authors (br_round b + 1) (insert b B) = {}"
  using assms round_authors_above_clock [of B c r0 "br_round b + 1"]
  by (simp add: round_authors_insert)

lemma tc_add_block_ok:
  assumes "committee_wf c" "\<And>v. is_valid_index c v \<Longrightarrow> stk c v < quorum_threshold c"
    and "tc_inv c r0 B tc" "is_valid_index c (br_author b)" "br_round b < u32_max"
  shows "\<exists>tc'. tc_add_block c now b tc
      = Inr (clock_round c r0 B < clock_round c r0 (insert b B), tc')
    \<and> tc_inv c r0 (insert b B) tc'"
proof -
  have base: "committee_base c" using assms(1) by (rule committee_wf_base)
  have fin: "finite B" and rd: "tc_round tc = clock_round c r0 B"
    and vs: "fset (votes (tc_aggregator tc)) = round_authors (clock_round c r0 B) B"
    and ainv: "aggregator_inv c (tc_aggregator tc)"
    using assms(3) by (auto simp: tc_inv_def)
  have wr: "wrap32 (br_round b + 1) = br_round b + 1"
    using assms(5) by (intro wrap32_id) (simp add: u32_max_def)
  obtain a where a: "committee_authority c (br_author b) = Inr a"
    using committee_authority_valid [OF assms(4)] by auto
  consider "br_round b < clock_round c r0 B" | "br_round b = clock_round c r0 B"
    | "br_round b > clock_round c r0 B" by linarith
  then show ?thesis
  proof cases
    case 1
    then show ?thesis using assms(3) clock_round_below [OF fin 1]
      by (auto simp: tc_add_block_def rd tc_inv_def round_authors_insert)
  next
    case 2
    obtain agg where agg: "aggregator_add quorum_is_threshold (br_author b) c (tc_aggregator tc)
        = Inr (quorum_threshold c \<le> weight c (insert (br_author b) (round_authors (br_round b) B)), agg)"
      "aggregator_inv c agg" "votes agg = finsert (br_author b) (votes (tc_aggregator tc))"
      using quorum_votes.aggregator_add_ok [OF base ainv assms(4)] vs 2
      by (auto simp: quorum_threshold_of_def)
    then show ?thesis
      using 2 a fin vs wr round_authors_next [of B c r0 b] clock_round_at [OF fin, of c r0 b]
      by (auto simp: tc_add_block_def rd tc_inv_def round_authors_insert)
  next
    case 3
    have none: "round_authors (br_round b) B = {}"
      using round_authors_above_clock [OF fin 3] .
    obtain agg where agg: "aggregator_add quorum_is_threshold (br_author b) c aggregator_new
        = Inr (False, agg)"
      "aggregator_inv c agg" "votes agg = {|br_author b|}"
      using quorum_votes.aggregator_add_ok [OF base aggregator_new_inv assms(4)]
        assms(2) [OF assms(4)]
      by (auto simp: quorum_threshold_of_def)
    then show ?thesis
      using 3 fin none clock_round_at [OF fin, of c r0 b] assms(2) [OF assms(4)]
      by (auto simp: tc_add_block_def rd tc_inv_def round_authors_insert)
  qed
qed

lemma tc_new_inv:
  assumes "committee_wf c"
  shows "tc_inv c r0 {} (threshold_clock_new now r0)"
proof -
  have "0 < quorum_threshold c"
    using assms bft.quorum_bound [OF assms] committee_base_total [OF committee_wf_base [OF assms]]
    by (auto dest!: committee_wf_base simp: committee_base_def)
  then show ?thesis
    by (simp add: tc_inv_def threshold_clock_new_def clock_round_def round_authors_def Let_def
      aggregator_new_def aggregator_inv_def)
qed

lemma tc_add_blocks_ok:
  assumes "committee_wf c" "\<And>v. is_valid_index c v \<Longrightarrow> stk c v < quorum_threshold c"
    and "tc_inv c r0 B tc"
    and "\<forall>(_, b) \<in> set bs. is_valid_index c (br_author b) \<and> br_round b < u32_max"
  shows "\<exists>tc'. tc_add_blocks c bs tc = Inr tc' \<and> tc_inv c r0 (B \<union> snd ` set bs) tc'"
  using assms(3,4)
proof (induction bs arbitrary: B tc)
  case Nil
  then show ?case by (simp add: tc_add_blocks_def)
next
  case (Cons x bs)
  obtain now b where x: "x = (now, b)" by force
  obtain tc1 where 1: "tc_add_block c now b tc
      = Inr (clock_round c r0 B < clock_round c r0 (insert b B), tc1)" "tc_inv c r0 (insert b B) tc1"
    using tc_add_block_ok [OF assms(1,2) Cons.prems(1), of b now] Cons.prems(2) x by auto
  show ?case using Cons.IH [OF 1(2)] Cons.prems(2) 1(1)
    by (auto simp: tc_add_blocks_def x)
qed

text \<open>
  C19. When no authority holds a quorum alone, the clock is a function of the set of blocks it has
  seen, whatever the order and the repetitions: it is past the highest round seen exactly when the
  authors of that round hold a quorum. It never panics.
\<close>

theorem threshold_clock_exact:
  assumes "committee_wf c" "\<forall>v \<in> members c. stk c v < quorum_threshold c"
    and "\<forall>(_, b) \<in> set bs. is_valid_index c (br_author b) \<and> br_round b < u32_max"
  shows "\<exists>tc. tc_add_blocks c bs (threshold_clock_new now r0) = Inr tc
    \<and> tc_round tc = clock_round c r0 (snd ` set bs)"
  using tc_add_blocks_ok [OF assms(1) _ tc_new_inv [OF assms(1)] assms(3)] assms(2)
  by (fastforce simp: tc_inv_def)

text \<open>
  C23. A block above the clock whose author alone holds a quorum leaves its vote in the aggregator:
  the aggregator is not cleared on that path. The next block, of the next round and of any author,
  then completes a quorum that its round does not have, and the clock advances once more.
\<close>

theorem threshold_clock_stale_vote:
  assumes "committee_wf c" "is_valid_index c a" "quorum_threshold c \<le> stk c a"
    and "is_valid_index c v" "r0 < r" "r + 1 < u32_max"
  shows "\<exists>tc. tc_add_blocks c [(t1, BlockRef r a d1), (t2, BlockRef (r + 1) v d2)]
      (threshold_clock_new now r0) = Inr tc \<and> tc_round tc = r + 2
    \<and> clock_round c r0 {BlockRef r a d1, BlockRef (r + 1) v d2} =
        (if quorum_threshold c \<le> stk c v then r + 2 else r + 1)"
proof -
  note base = committee_wf_base [OF assms(1)]
  obtain agg where 1: "aggregator_add quorum_is_threshold a c aggregator_new = Inr (True, agg)"
    "aggregator_inv c agg" "votes agg = {|a|}"
    using quorum_votes.aggregator_add_ok [OF base aggregator_new_inv assms(2)] assms(3)
    by (auto simp: quorum_threshold_of_def)
  have "stk c a \<le> weight c {v, a}" by (cases "v = a") auto
  then have "quorum_threshold c \<le> weight c {v, a}" using assms(3) by linarith
  then obtain agg' where 2: "aggregator_add quorum_is_threshold v c agg = Inr (True, agg')"
    using quorum_votes.aggregator_add_ok [OF base 1(2) assms(4)] 1(3)
    by (auto simp: quorum_threshold_of_def)
  have top: "top_round r0 {BlockRef r a d1, BlockRef (r + 1) v d2} = r + 1"
    using assms(5) by (simp add: top_round_insert)
  show ?thesis using 1 2 assms(5,6) clock_round_top [OF top, of c]
    by (simp add: tc_add_blocks_def tc_add_block_def threshold_clock_new_def u32_max_def
      round_authors_insert)
qed

theorem threshold_clock_exact_witness:
  "\<exists>tc. tc_add_blocks demo_committee
      [(1, BlockRef 5 0 0), (2, BlockRef 5 1 0), (3, BlockRef 4 2 0), (4, BlockRef 5 3 0)]
      (threshold_clock_new 0 2) = Inr tc \<and> tc_round tc = 6"
  using threshold_clock_exact [OF demo_committee_wf, of
      "[(1, BlockRef 5 0 0), (2, BlockRef 5 1 0), (3, BlockRef 4 2 0), (4, BlockRef 5 3 0)]" 0 2]
  by (simp add: demo_stk demo_thresholds u32_max_def clock_round_def top_round_insert
    round_authors_insert Let_def)

text \<open>One authority of four holds a quorum: stakes 7, 1, 1 and 1 with quorum threshold 7.\<close>

definition skewed_committee :: committee where
  "skewed_committee = \<lparr>epoch = 0, authorities = map demo_authority [7, 1, 1, 1], total_stake = 10,
     quorum_threshold = 7, certification_threshold = 7, validity_threshold = 4\<rparr>"

lemma skewed_committee_new:
  "committee_new 0 (map demo_authority [7, 1, 1, 1]) = Inr skewed_committee"
  by (simp add: committee_new_def skewed_committee_def demo_authority_def wrap64_def wsub64_def
    u32_max_def Let_def)

theorem threshold_clock_stale_vote_witness:
  "committee_new 0 (map demo_authority [7, 1, 1, 1]) = Inr skewed_committee
   \<and> (\<exists>tc. tc_add_blocks skewed_committee [(1, BlockRef 5 0 0), (2, BlockRef 6 1 0)]
          (threshold_clock_new 0 3) = Inr tc \<and> tc_round tc = 7)
   \<and> clock_round skewed_committee 3 {BlockRef 5 0 0, BlockRef 6 1 0} = 6"
proof -
  have "committee_wf skewed_committee" "is_valid_index skewed_committee 0"
    "is_valid_index skewed_committee 1" "stk skewed_committee 0 = 7" "stk skewed_committee 1 = 1"
    "quorum_threshold skewed_committee = 7"
    by (simp_all add: committee_wf_def committee_v2_def committee_base_def skewed_committee_def
      demo_authority_def committee_size_def u32_max_def u64_max_def stk_def is_valid_index_def)
  then show ?thesis
    using threshold_clock_stale_vote [of skewed_committee 0 1 3 5 1 0 2 0 0] skewed_committee_new
    by (auto simp: u32_max_def)
qed

end
