(* ===== verification/Node_Context.thy ===== *)
theory Node_Context
  imports Block_Ref
begin

section \<open>Configuration and context of a node\<close>

text \<open>
  Models \<open>consensus/config/src/consensus_protocol_config.rs\<close>, \<open>consensus/core/src/context.rs\<close> and
  the two error channels of the code: \<open>ConsensusError\<close> (\<open>consensus/core/src/error.rs\<close>, the
  variants the modelled code raises, without their message strings) and panics. A function that
  may do both returns \<open>failure + 'a\<close>. Metrics and the clock are not modelled: code that reads
  the time takes it as an argument.
\<close>

subsection \<open>Protocol configuration\<close>

datatype chain_type = Unknown | Testnet | Mainnet

record protocol_config =
  protocol_version :: nat
  chain :: chain_type
  max_transaction_size_bytes :: nat
  max_transactions_in_block_bytes :: nat
  max_num_transactions_in_block :: nat
  gc_depth :: nat
  slim_block_propagation_enabled :: bool
  transaction_voting_enabled :: bool
  num_leaders_per_round :: "nat option"
  bad_nodes_stake_threshold :: nat
  enable_v3 :: bool
  window_size_field :: nat
  update_interval_field :: nat

text \<open>The two getters that do more than return their field.\<close>

definition leader_schedule_window_size :: "protocol_config \<Rightarrow> nat" where
  "leader_schedule_window_size cfg = max (window_size_field cfg) 1"

definition leader_schedule_update_interval :: "protocol_config \<Rightarrow> nat" where
  "leader_schedule_update_interval cfg = max (update_interval_field cfg) 1"

definition protocol_config_for_testing :: protocol_config where
  "protocol_config_for_testing = \<lparr>
     protocol_version = u64_max, chain = Unknown,
     max_transaction_size_bytes = 256 * 1024, max_transactions_in_block_bytes = 512 * 1024,
     max_num_transactions_in_block = 512, gc_depth = 60,
     slim_block_propagation_enabled = False, transaction_voting_enabled = True,
     num_leaders_per_round = Some 1, bad_nodes_stake_threshold = 30, enable_v3 = False,
     window_size_field = 600, update_interval_field = 60\<rparr>"

subsection \<open>Context\<close>

text \<open>The fields of \<open>Parameters\<close> that the modelled code reads.\<close>

record parameters =
  dag_state_cached_rounds :: nat
  skip_equivocation_validation :: bool

record node_context =
  epoch_start_timestamp_ms :: nat
  own_index :: authority_index
  ctx_committee :: committee
  ctx_parameters :: parameters
  ctx_protocol_config :: protocol_config

definition context_new ::
  "nat \<Rightarrow> authority_index option \<Rightarrow> committee \<Rightarrow> parameters \<Rightarrow> protocol_config \<Rightarrow> node_context" where
  "context_new start own c params cfg =
     \<lparr>epoch_start_timestamp_ms = start,
      own_index = (case own of Some i \<Rightarrow> i | None \<Rightarrow> u32_max),
      ctx_committee = c, ctx_parameters = params, ctx_protocol_config = cfg\<rparr>"

definition is_validator :: "node_context \<Rightarrow> bool" where
  "is_validator ctx = is_valid_index (ctx_committee ctx) (own_index ctx)"

definition is_observer :: "node_context \<Rightarrow> bool" where
  "is_observer ctx = (\<not> is_validator ctx)"

text \<open>The special index of an observer is never that of a member.\<close>

lemma context_new_observer:
  "committee_base c \<Longrightarrow> is_observer (context_new start None c params cfg)"
  by (simp add: is_observer_def is_validator_def context_new_def is_valid_index_def
    committee_base_def)

subsection \<open>Errors\<close>

text \<open>
  The reasons of \<open>InvalidTransactionVotes\<close>, one for each message that
  \<open>check_transaction_votes\<close> formats.
\<close>

datatype vote_error =
    TooManyVoteTargets nat nat
  | DuplicateVoteTarget block_ref
  | VoteTargetRoundTooHigh block_ref round_number
  | VoteTargetBelowCutoff block_ref round_number
  | NoRejectIndices block_ref
  | TooManyRejectIndices block_ref nat nat
  | RejectsNotIncreasing block_ref "transaction_index list"
  | RejectIndexTooHigh transaction_index block_ref nat

datatype consensus_error =
    SerializationFailure
  | TransactionTooLarge nat nat
  | TooManyTransactions nat nat
  | TooManyTransactionBytes nat nat
  | WrongEpoch nat nat
  | UnexpectedGenesisBlock
  | UnexpectedBlockVersion
  | InvalidTransactionVotesCutoff round_number round_number
  | InvalidTransactionVotes vote_error
  | InvalidAuthorityIndex authority_index nat
  | MalformedSignature
  | SignatureVerificationFailure
  | InvalidAncestorPosition authority_index authority_index nat
  | InvalidAncestorRound round_number round_number
  | InvalidGenesisAncestor block_ref
  | TooManyAncestors nat nat
  | DuplicatedAncestorsAuthority authority_index
  | InsufficientParentStakes stake stake
  | InvalidTransaction string
  | UnexpectedCertifiedCommitIndex nat nat

datatype failure = Panicked panic | Failed consensus_error

definition lift_panic :: "panic + 'a \<Rightarrow> failure + 'a" where
  "lift_panic x = (case x of Inl p \<Rightarrow> Inl (Panicked p) | Inr a \<Rightarrow> Inr a)"

definition ensure :: "bool \<Rightarrow> consensus_error \<Rightarrow> failure + unit" where
  "ensure b e = rassert b (Failed e)"

lemma lift_panic_simps [simp, res_simps]:
  "lift_panic (Inr a) = Inr a"
  "lift_panic (Inl p) = Inl (Panicked p)"
  by (simp_all add: lift_panic_def)

lemma lift_panic_eq [res_simps]: "lift_panic x = Inr a \<longleftrightarrow> x = Inr a"
  by (cases x) auto

lemma ensure_eq [res_simps]:
  "ensure b e = Inr u \<longleftrightarrow> b"
  "ensure b e = Inl f \<longleftrightarrow> \<not> b \<and> f = Failed e"
  by (auto simp: ensure_def rassert_eq)

lemma ensure_simps [simp]: "ensure True e = Inr ()" "ensure False e = Inl (Failed e)"
  by (simp_all add: ensure_def)

text \<open>A node of the example committee, the input of witnesses.\<close>

definition demo_context :: node_context where
  "demo_context = context_new 0 (Some 0) demo_committee \<lparr>dag_state_cached_rounds = 500, skip_equivocation_validation = False\<rparr>
     protocol_config_for_testing"

lemma demo_context_simps [simp]:
  "ctx_committee demo_context = demo_committee"
  "ctx_protocol_config demo_context = protocol_config_for_testing"
  "own_index demo_context = 0"
  "epoch_start_timestamp_ms demo_context = 0"
  by (simp_all add: demo_context_def context_new_def)

end
