(* ===== verification/Block.thy ===== *)
theory Block
  imports Node_Context
begin

section \<open>Blocks, signed and verified\<close>

text \<open>
  Models \<open>consensus/core/src/block.rs\<close>, and \<open>CommitRef\<close> of \<open>consensus/core/src/commit.rs\<close>, which
  blocks carry as commit votes.

  The hash function, the BCS encoder and the signature scheme are third-party crates
  (\<open>fastcrypto\<close>, \<open>bcs\<close>). They are the fields of the record \<open>crypto\<close>, an argument of the
  definitions that use them; what a theorem needs of them is a hypothesis of that theorem.
\<close>

subsection \<open>References to commits\<close>

type_synonym commit_index = nat
type_synonym commit_digest = "256 word"

record commit_ref =
  cr_index :: commit_index
  cr_digest :: commit_digest

type_synonym commit_vote = commit_ref

subsection \<open>Block contents\<close>

definition genesis_round :: round_number where
  "genesis_round = 0"

record transaction =
  tx_data :: bytes

record block_transaction_votes =
  vote_block_ref :: block_ref
  rejects :: "transaction_index list"

definition max_transaction_vote_targets :: "node_context \<Rightarrow> nat" where
  "max_transaction_vote_targets ctx =
     max (gc_depth (ctx_protocol_config ctx)) 1 * committee_size (ctx_committee ctx)"

datatype misbehavior_proof = InvalidBlock block_ref

record misbehavior_report =
  mr_target :: authority_index
  mr_proof :: misbehavior_proof

record block_v1 =
  v1_epoch :: nat
  v1_round :: round_number
  v1_author :: authority_index
  v1_timestamp_ms :: block_timestamp_ms
  v1_ancestors :: "block_ref list"
  v1_transactions :: "transaction list"
  v1_commit_votes :: "commit_vote list"
  v1_misbehavior_reports :: "misbehavior_report list"

record block_v2 =
  v2_epoch :: nat
  v2_round :: round_number
  v2_author :: authority_index
  v2_timestamp_ms :: block_timestamp_ms
  v2_ancestors :: "block_ref list"
  v2_transactions :: "transaction list"
  v2_transaction_votes :: "block_transaction_votes list"
  v2_commit_votes :: "commit_vote list"
  v2_misbehavior_reports :: "misbehavior_report list"

record block_v3 =
  v3_epoch :: nat
  v3_round :: round_number
  v3_author :: authority_index
  v3_timestamp_ms :: block_timestamp_ms
  v3_ancestors :: "block_ref list"
  v3_transactions :: "transaction list"
  v3_transaction_votes :: "block_transaction_votes list"
  v3_transaction_votes_cutoff_round :: round_number
  v3_commit_votes :: "commit_vote list"
  v3_misbehavior_reports :: "misbehavior_report list"

datatype block = V1 block_v1 | V2 block_v2 | V3 block_v3

datatype slot = Slot (slot_round: round_number) (slot_authority: authority_index)

definition slot_of_ref :: "block_ref \<Rightarrow> slot" where
  "slot_of_ref r = Slot (br_round r) (br_author r)"

text \<open>The derived order of \<open>Slot\<close>.\<close>

instantiation slot :: linorder
begin

definition less_eq_slot :: "slot \<Rightarrow> slot \<Rightarrow> bool" where
  "less_eq_slot a b \<longleftrightarrow> slot_round a < slot_round b
     \<or> slot_round a = slot_round b \<and> slot_authority a \<le> slot_authority b"

definition less_slot :: "slot \<Rightarrow> slot \<Rightarrow> bool" where
  "less_slot a b \<longleftrightarrow> a \<le> b \<and> \<not> b \<le> a"

instance
proof
  fix a b c :: slot
  show "(a < b) = (a \<le> b \<and> \<not> b \<le> a)" by (rule less_slot_def)
  show "a \<le> a" by (simp add: less_eq_slot_def)
  show "a \<le> b \<Longrightarrow> b \<le> c \<Longrightarrow> a \<le> c" by (auto simp: less_eq_slot_def)
  show "a \<le> b \<Longrightarrow> b \<le> a \<Longrightarrow> a = b" by (cases a; cases b) (auto simp: less_eq_slot_def)
  show "a \<le> b \<or> b \<le> a" by (auto simp: less_eq_slot_def)
qed

end

subsection \<open>The trait \<open>BlockAPI\<close>\<close>

fun block_epoch :: "block \<Rightarrow> nat" where
  "block_epoch (V1 b) = v1_epoch b"
| "block_epoch (V2 b) = v2_epoch b"
| "block_epoch (V3 b) = v3_epoch b"

fun block_round :: "block \<Rightarrow> round_number" where
  "block_round (V1 b) = v1_round b"
| "block_round (V2 b) = v2_round b"
| "block_round (V3 b) = v3_round b"

fun block_author :: "block \<Rightarrow> authority_index" where
  "block_author (V1 b) = v1_author b"
| "block_author (V2 b) = v2_author b"
| "block_author (V3 b) = v3_author b"

definition block_slot :: "block \<Rightarrow> slot" where
  "block_slot b = Slot (block_round b) (block_author b)"

fun block_timestamp :: "block \<Rightarrow> block_timestamp_ms" where
  "block_timestamp (V1 b) = v1_timestamp_ms b"
| "block_timestamp (V2 b) = v2_timestamp_ms b"
| "block_timestamp (V3 b) = v3_timestamp_ms b"

fun block_ancestors :: "block \<Rightarrow> block_ref list" where
  "block_ancestors (V1 b) = v1_ancestors b"
| "block_ancestors (V2 b) = v2_ancestors b"
| "block_ancestors (V3 b) = v3_ancestors b"

fun block_transactions :: "block \<Rightarrow> transaction list" where
  "block_transactions (V1 b) = v1_transactions b"
| "block_transactions (V2 b) = v2_transactions b"
| "block_transactions (V3 b) = v3_transactions b"

definition block_transactions_data :: "block \<Rightarrow> bytes list" where
  "block_transactions_data b = map tx_data (block_transactions b)"

fun block_votes :: "block \<Rightarrow> block_transaction_votes list" where
  "block_votes (V1 b) = []"
| "block_votes (V2 b) = v2_transaction_votes b"
| "block_votes (V3 b) = v3_transaction_votes b"

fun block_cutoff_round :: "block \<Rightarrow> round_number" where
  "block_cutoff_round (V1 b) = genesis_round"
| "block_cutoff_round (V2 b) = genesis_round"
| "block_cutoff_round (V3 b) = v3_transaction_votes_cutoff_round b"

fun block_commit_votes :: "block \<Rightarrow> commit_vote list" where
  "block_commit_votes (V1 b) = v1_commit_votes b"
| "block_commit_votes (V2 b) = v2_commit_votes b"
| "block_commit_votes (V3 b) = v3_commit_votes b"

fun block_misbehavior_reports :: "block \<Rightarrow> misbehavior_report list" where
  "block_misbehavior_reports (V1 b) = v1_misbehavior_reports b"
| "block_misbehavior_reports (V2 b) = v2_misbehavior_reports b"
| "block_misbehavior_reports (V3 b) = v3_misbehavior_reports b"

subsection \<open>Genesis\<close>

definition block_v1_genesis :: "node_context \<Rightarrow> authority_index \<Rightarrow> block_v1" where
  "block_v1_genesis ctx a =
     \<lparr>v1_epoch = epoch (ctx_committee ctx), v1_round = genesis_round, v1_author = a,
      v1_timestamp_ms = epoch_start_timestamp_ms ctx, v1_ancestors = [], v1_transactions = [],
      v1_commit_votes = [], v1_misbehavior_reports = []\<rparr>"

definition block_v2_genesis :: "node_context \<Rightarrow> authority_index \<Rightarrow> block_v2" where
  "block_v2_genesis ctx a =
     \<lparr>v2_epoch = epoch (ctx_committee ctx), v2_round = genesis_round, v2_author = a,
      v2_timestamp_ms = epoch_start_timestamp_ms ctx, v2_ancestors = [], v2_transactions = [],
      v2_transaction_votes = [], v2_commit_votes = [], v2_misbehavior_reports = []\<rparr>"

definition block_v3_genesis :: "node_context \<Rightarrow> authority_index \<Rightarrow> block_v3" where
  "block_v3_genesis ctx a =
     \<lparr>v3_epoch = epoch (ctx_committee ctx), v3_round = genesis_round, v3_author = a,
      v3_timestamp_ms = epoch_start_timestamp_ms ctx, v3_ancestors = [], v3_transactions = [],
      v3_transaction_votes = [], v3_transaction_votes_cutoff_round = genesis_round,
      v3_commit_votes = [], v3_misbehavior_reports = []\<rparr>"

subsection \<open>Signed blocks\<close>

record signed_block =
  inner :: block
  signature :: bytes

record crypto =
  hash_fn :: "bytes \<Rightarrow> 256 word"
  bcs_block :: "block \<Rightarrow> bytes option"
  bcs_signed_block :: "signed_block \<Rightarrow> bytes option"
  bcs_block_intent :: "256 word \<Rightarrow> bytes option"
  signature_from_bytes :: "bytes \<Rightarrow> bytes option"
  key_sign :: "bytes \<Rightarrow> bytes \<Rightarrow> bytes"
  key_verify :: "bytes \<Rightarrow> bytes \<Rightarrow> bytes \<Rightarrow> bool"

definition compute_inner_block_digest :: "crypto \<Rightarrow> block \<Rightarrow> failure + 256 word" where
  "compute_inner_block_digest cr b =
     rbind (rexpect (Failed SerializationFailure) (bcs_block cr b)) (\<lambda>bs. Inr (hash_fn cr bs))"

definition compute_block_signature :: "crypto \<Rightarrow> block \<Rightarrow> bytes \<Rightarrow> failure + bytes" where
  "compute_block_signature cr b keypair =
     rbind (compute_inner_block_digest cr b) (\<lambda>d.
     rbind (rexpect (Failed SerializationFailure) (bcs_block_intent cr d)) (\<lambda>message.
     Inr (key_sign cr keypair message)))"

definition verify_block_signature :: "crypto \<Rightarrow> block \<Rightarrow> bytes \<Rightarrow> bytes \<Rightarrow> failure + unit" where
  "verify_block_signature cr b sig_bytes pubkey =
     rbind (compute_inner_block_digest cr b) (\<lambda>d.
     rbind (rexpect (Failed SerializationFailure) (bcs_block_intent cr d)) (\<lambda>message.
     rbind (rexpect (Failed MalformedSignature) (signature_from_bytes cr sig_bytes)) (\<lambda>sig.
     ensure (key_verify cr pubkey message sig) SignatureVerificationFailure)))"

definition signed_block_new_genesis :: "block \<Rightarrow> signed_block" where
  "signed_block_new_genesis b = \<lparr>inner = b, signature = []\<rparr>"

definition signed_block_new :: "crypto \<Rightarrow> block \<Rightarrow> bytes \<Rightarrow> failure + signed_block" where
  "signed_block_new cr b keypair =
     rbind (compute_block_signature cr b keypair) (\<lambda>sig. Inr \<lparr>inner = b, signature = sig\<rparr>)"

definition verify_signature :: "crypto \<Rightarrow> node_context \<Rightarrow> signed_block \<Rightarrow> failure + unit" where
  "verify_signature cr ctx sb =
     (let b = inner sb; c = ctx_committee ctx in
      rbind (ensure (is_valid_index c (block_author b))
               (InvalidAuthorityIndex (block_author b) (committee_size c - 1))) (\<lambda>_.
      rbind (lift_panic (committee_authority c (block_author b))) (\<lambda>a.
      verify_block_signature cr b (signature sb) (protocol_key a))))"

definition signed_block_serialize :: "crypto \<Rightarrow> signed_block \<Rightarrow> bytes option" where
  "signed_block_serialize cr sb = bcs_signed_block cr sb"

subsection \<open>Verified blocks\<close>

record verified_block =
  vb_block :: signed_block
  vb_digest :: block_digest
  vb_serialized :: bytes

definition compute_digest :: "crypto \<Rightarrow> bytes \<Rightarrow> block_digest" where
  "compute_digest cr bs = hash_fn cr bs"

definition new_verified :: "crypto \<Rightarrow> signed_block \<Rightarrow> bytes \<Rightarrow> verified_block" where
  "new_verified cr sb serialized =
     \<lparr>vb_block = sb, vb_digest = compute_digest cr serialized, vb_serialized = serialized\<rparr>"

text \<open>\<open>VerifiedBlock\<close> dereferences to its \<open>Block\<close>.\<close>

abbreviation vb_inner :: "verified_block \<Rightarrow> block" where
  "vb_inner b \<equiv> inner (vb_block b)"

abbreviation vb_round :: "verified_block \<Rightarrow> round_number" where
  "vb_round b \<equiv> block_round (vb_inner b)"

abbreviation vb_author :: "verified_block \<Rightarrow> authority_index" where
  "vb_author b \<equiv> block_author (vb_inner b)"

abbreviation vb_timestamp :: "verified_block \<Rightarrow> block_timestamp_ms" where
  "vb_timestamp b \<equiv> block_timestamp (vb_inner b)"

abbreviation vb_ancestors :: "verified_block \<Rightarrow> block_ref list" where
  "vb_ancestors b \<equiv> block_ancestors (vb_inner b)"

definition reference :: "verified_block \<Rightarrow> block_ref" where
  "reference b = BlockRef (vb_round b) (vb_author b) (vb_digest b)"

text \<open>\<open>impl PartialEq for VerifiedBlock\<close> compares digests.\<close>

definition verified_block_eq :: "verified_block \<Rightarrow> verified_block \<Rightarrow> bool" where
  "verified_block_eq a b \<longleftrightarrow> vb_digest a = vb_digest b"

record extended_block =
  eb_block :: verified_block
  excluded_ancestors :: "block_ref list"

definition genesis_block :: "crypto \<Rightarrow> node_context \<Rightarrow> authority_index \<Rightarrow> panic + verified_block" where
  "genesis_block cr ctx a =
     (let cfg = ctx_protocol_config ctx;
          b = (if enable_v3 cfg then V3 (block_v3_genesis ctx a)
               else if transaction_voting_enabled cfg then V2 (block_v2_genesis ctx a)
               else V1 (block_v1_genesis ctx a));
          sb = signed_block_new_genesis b
      in rbind (rexpect GenesisSerialization (signed_block_serialize cr sb))
           (\<lambda>bs. Inr (new_verified cr sb bs)))"

definition genesis_blocks :: "crypto \<Rightarrow> node_context \<Rightarrow> panic + verified_block list" where
  "genesis_blocks cr ctx =
     rmap (\<lambda>(a, _). genesis_block cr ctx a) (indexed_authorities (ctx_committee ctx))"

subsection \<open>Properties\<close>

text \<open>
  What is asked of the signature scheme: a signature of the private key is accepted by the public
  key (the contract of \<open>ProtocolKeyPair\<close> of \<open>fastcrypto\<close>).
\<close>

definition signature_scheme :: "crypto \<Rightarrow> bytes \<Rightarrow> bytes \<Rightarrow> bool" where
  "signature_scheme cr keypair pubkey \<longleftrightarrow>
     (\<forall>m. \<exists>sig. signature_from_bytes cr (key_sign cr keypair m) = Some sig
        \<and> key_verify cr pubkey m sig)"

text \<open>
  A block signed by its author with \<open>SignedBlock::new\<close> passes \<open>SignedBlock::verify_signature\<close>.
\<close>

lemma signed_block_verifies:
  assumes "signed_block_new cr b keypair = Inr sb"
    and "committee_authority (ctx_committee ctx) (block_author b) = Inr a"
    and "signature_scheme cr keypair (protocol_key a)"
  shows "verify_signature cr ctx sb = Inr ()"
proof -
  from assms(1) obtain d m where sb: "sb = \<lparr>inner = b, signature = key_sign cr keypair m\<rparr>"
    "compute_inner_block_digest cr b = Inr d" "bcs_block_intent cr d = Some m"
    by (auto simp: signed_block_new_def compute_block_signature_def rbind_eq_Inr rexpect_eq)
  moreover have "is_valid_index (ctx_committee ctx) (block_author b)"
    using assms(2)
    by (auto simp: committee_authority_def is_valid_index_def committee_size_def split: if_splits)
  moreover obtain sig where "signature_from_bytes cr (key_sign cr keypair m) = Some sig"
    "key_verify cr (protocol_key a) m sig"
    using assms(3) unfolding signature_scheme_def by blast
  ultimately show ?thesis
    using assms(2) by (simp add: verify_signature_def verify_block_signature_def)
qed

lemma reference_simps [simp]:
  "br_round (reference b) = vb_round b"
  "br_author (reference b) = vb_author b"
  "br_digest (reference b) = vb_digest b"
  by (simp_all add: reference_def)

text \<open>The genesis blocks: one for each authority, in index order, at round 0.\<close>

lemma genesis_block_fields:
  assumes "genesis_block cr ctx a = Inr b"
  shows "vb_round b = 0 \<and> vb_author b = a \<and> vb_ancestors b = []
    \<and> block_epoch (vb_inner b) = epoch (ctx_committee ctx)"
  using assms
  by (auto simp: genesis_block_def Let_def rbind_eq_Inr rexpect_eq new_verified_def
    signed_block_new_genesis_def block_v1_genesis_def block_v2_genesis_def block_v3_genesis_def
    genesis_round_def split: if_splits)

lemma genesis_blocks_authors:
  assumes "genesis_blocks cr ctx = Inr bs"
  shows "map vb_author bs = [0..<committee_size (ctx_committee ctx)]
    \<and> (\<forall>b \<in> set bs. vb_round b = 0 \<and> vb_ancestors b = [])"
proof -
  let ?as = "indexed_authorities (ctx_committee ctx)"
  have all: "list_all2 (\<lambda>x b. genesis_block cr ctx (fst x) = Inr b) ?as bs"
    using assms by (simp add: genesis_blocks_def rmap_eq_Inr case_prod_beta)
  then have "list_all2 (\<lambda>x b. fst x = vb_author b) ?as bs"
    by (rule list_all2_mono) (simp add: genesis_block_fields)
  then have "map fst ?as = map vb_author bs"
    by (simp add: list_all2_conv_all_nth list_eq_iff_nth_eq)
  moreover have "map fst ?as = [0..<committee_size (ctx_committee ctx)]"
    by (simp add: indexed_authorities_def committee_size_def)
  moreover have "vb_round b = 0 \<and> vb_ancestors b = []" if "b \<in> set bs" for b
    using all that genesis_block_fields by (fastforce simp: list_all2_conv_all_nth in_set_conv_nth)
  ultimately show ?thesis by metis
qed

subsection \<open>Example instance of the cryptography\<close>

text \<open>
  A concrete instance of the parameters, for witnesses: encodings are short byte strings, the hash
  is the number the bytes denote, and a signature is the signed message after the key.
\<close>

definition demo_crypto :: crypto where
  "demo_crypto = \<lparr>
     hash_fn = (\<lambda>bs. of_nat (foldl (\<lambda>n w. 256 * n + unat w) 0 bs)),
     bcs_block = (\<lambda>b. Some [of_nat (block_round b), of_nat (block_author b)]),
     bcs_signed_block = (\<lambda>sb. Some (of_nat (block_round (inner sb)) #
        of_nat (block_author (inner sb)) # signature sb)),
     bcs_block_intent = (\<lambda>d. Some [0, ucast d]),
     signature_from_bytes = Some,
     key_sign = (\<lambda>k m. k @ m),
     key_verify = (\<lambda>k m s. s = k @ m)\<rparr>"

lemma demo_signature_scheme: "signature_scheme demo_crypto k k"
  by (simp add: signature_scheme_def demo_crypto_def)

text \<open>Blocks with given round, author, digest, timestamp and ancestors, for witnesses.\<close>

definition demo_vb ::
  "round_number \<Rightarrow> authority_index \<Rightarrow> block_digest \<Rightarrow> block_timestamp_ms \<Rightarrow> block_ref list
     \<Rightarrow> verified_block" where
  "demo_vb r a d ts ancs =
     \<lparr>vb_block = \<lparr>inner = V2 \<lparr>v2_epoch = 0, v2_round = r, v2_author = a, v2_timestamp_ms = ts,
        v2_ancestors = ancs, v2_transactions = [], v2_transaction_votes = [], v2_commit_votes = [],
        v2_misbehavior_reports = []\<rparr>, signature = []\<rparr>,
      vb_digest = d, vb_serialized = []\<rparr>"

lemma demo_vb_simps [simp]:
  "vb_round (demo_vb r a d ts ancs) = r"
  "vb_author (demo_vb r a d ts ancs) = a"
  "vb_ancestors (demo_vb r a d ts ancs) = ancs"
  "vb_timestamp (demo_vb r a d ts ancs) = ts"
  "vb_digest (demo_vb r a d ts ancs) = d"
  "reference (demo_vb r a d ts ancs) = BlockRef r a d"
  by (simp_all add: demo_vb_def reference_def)

end
