(* ===== verification/Block_Verifier.thy ===== *)
theory Block_Verifier
  imports Block Stake_Aggregator
begin

section \<open>Block verification\<close>

text \<open>
  Models \<open>consensus/core/src/block_verifier.rs\<close>. The trait object \<open>TransactionVerifier\<close> is
  implemented outside the consensus crate; it is the record \<open>transaction_verifier\<close>, a field of
  the verifier. The main result is that \<open>verify_block\<close>, a sequence of checks with early returns and
  a loop over the ancestors, accepts a block exactly when a declarative predicate holds of it, and
  that it never panics.
\<close>

record transaction_verifier =
  verify_batch :: "block_ref \<Rightarrow> bytes list \<Rightarrow> string + unit"
  verify_and_vote_batch :: "block_ref \<Rightarrow> bytes list \<Rightarrow> string + transaction_index list"

record signed_block_verifier =
  bv_context :: node_context
  bv_genesis :: "block_ref fset"
  bv_transaction_verifier :: transaction_verifier

definition signed_block_verifier_new ::
  "crypto \<Rightarrow> node_context \<Rightarrow> transaction_verifier \<Rightarrow> panic + signed_block_verifier" where
  "signed_block_verifier_new cr ctx tv =
     rbind (genesis_blocks cr ctx) (\<lambda>bs.
       Inr \<lparr>bv_context = ctx, bv_genesis = fset_of_list (map reference bs),
            bv_transaction_verifier = tv\<rparr>)"

abbreviation bv_committee :: "signed_block_verifier \<Rightarrow> committee" where
  "bv_committee v \<equiv> ctx_committee (bv_context v)"

abbreviation bv_config :: "signed_block_verifier \<Rightarrow> protocol_config" where
  "bv_config v \<equiv> ctx_protocol_config (bv_context v)"

subsection \<open>The ancestors\<close>

text \<open>One iteration of the loop over the ancestors, on \<open>seen_ancestors\<close> and \<open>parent_stakes\<close>.\<close>

definition check_ancestor ::
  "signed_block_verifier \<Rightarrow> block \<Rightarrow> nat \<times> block_ref \<Rightarrow> bool list \<times> stake
     \<Rightarrow> failure + bool list \<times> stake" where
  "check_ancestor v b = (\<lambda>(i, anc) (seen_ancestors, parent_stakes).
     let c = bv_committee v in
     rbind (ensure (is_valid_index c (br_author anc))
              (InvalidAuthorityIndex (br_author anc) (committee_size c - 1))) (\<lambda>_.
     rbind (ensure (\<not> (i = 0 \<and> br_author anc \<noteq> block_author b
                        \<or> i > 0 \<and> br_author anc = block_author b))
              (InvalidAncestorPosition (block_author b) (br_author anc) i)) (\<lambda>_.
     rbind (ensure (\<not> br_round anc \<ge> block_round b)
              (InvalidAncestorRound (br_round anc) (block_round b))) (\<lambda>_.
     rbind (ensure (\<not> (br_round anc = genesis_round \<and> anc |\<notin>| bv_genesis v))
              (InvalidGenesisAncestor anc)) (\<lambda>_.
     rbind (rassert (br_author anc < length seen_ancestors) (Panicked IndexOutOfBounds)) (\<lambda>_.
     rbind (ensure (\<not> seen_ancestors ! br_author anc)
              (DuplicatedAncestorsAuthority (br_author anc))) (\<lambda>_.
     rbind (rexpect (Panicked RoundUnderflow) (checked_sub64 (block_round b) 1)) (\<lambda>parent_round.
     rbind (if br_round anc = parent_round
            then rbind (lift_panic (committee_stake c (br_author anc)))
                   (\<lambda>s. Inr (wrap64 (parent_stakes + s)))
            else Inr parent_stakes) (\<lambda>parent_stakes'.
     Inr (seen_ancestors[br_author anc := True], parent_stakes'))))))))))"

subsection \<open>Transaction votes\<close>

text \<open>\<open>rejects.windows(2).any(|pair| pair[0] >= pair[1])\<close>\<close>

definition windows_not_increasing :: "nat list \<Rightarrow> bool" where
  "windows_not_increasing xs = list_ex (\<lambda>(a, b). a \<ge> b) (zip xs (tl xs))"

definition vote_transaction_limit :: "signed_block_verifier \<Rightarrow> nat" where
  "vote_transaction_limit v =
     min (max_num_transactions_in_block (bv_config v)) (u16_max - num_reserved_transaction_indices)
       mod 2 ^ 16"

definition check_vote_target ::
  "signed_block_verifier \<Rightarrow> block \<Rightarrow> block_transaction_votes \<Rightarrow> block_ref fset
     \<Rightarrow> failure + block_ref fset" where
  "check_vote_target v b vt vote_targets =
    (let c = bv_committee v; target = vote_block_ref vt; transaction_limit = vote_transaction_limit v
     in
     rbind (ensure (target |\<notin>| vote_targets)
              (InvalidTransactionVotes (DuplicateVoteTarget target))) (\<lambda>_.
     rbind (ensure (\<not> br_round target \<ge> block_round b)
              (InvalidTransactionVotes (VoteTargetRoundTooHigh target (block_round b)))) (\<lambda>_.
     rbind (ensure (\<not> br_round target \<le> block_cutoff_round b)
              (InvalidTransactionVotes (VoteTargetBelowCutoff target (block_cutoff_round b)))) (\<lambda>_.
     rbind (ensure (is_valid_index c (br_author target))
              (InvalidAuthorityIndex (br_author target) (committee_size c - 1))) (\<lambda>_.
     rbind (ensure (rejects vt \<noteq> [])
              (InvalidTransactionVotes (NoRejectIndices target))) (\<lambda>_.
     rbind (ensure (\<not> length (rejects vt) > transaction_limit)
              (InvalidTransactionVotes
                (TooManyRejectIndices target (length (rejects vt)) transaction_limit))) (\<lambda>_.
     rbind (ensure (\<not> windows_not_increasing (rejects vt))
              (InvalidTransactionVotes (RejectsNotIncreasing target (rejects vt)))) (\<lambda>_.
     rbind (ensure (\<not> (rejects vt \<noteq> [] \<and> last (rejects vt) \<ge> transaction_limit))
              (InvalidTransactionVotes
                (RejectIndexTooHigh (last (rejects vt)) target transaction_limit))) (\<lambda>_.
     Inr (finsert target vote_targets))))))))))"

definition check_transaction_votes ::
  "signed_block_verifier \<Rightarrow> block \<Rightarrow> failure + unit" where
  "check_transaction_votes v b =
    (let vs = block_votes b; vote_target_limit = max_transaction_vote_targets (bv_context v) in
     if vs = [] then Inr ()
     else rbind (ensure (\<not> length vs > vote_target_limit)
                   (InvalidTransactionVotes (TooManyVoteTargets (length vs) vote_target_limit))) (\<lambda>_.
          rbind (rfold (check_vote_target v b) vs {||}) (\<lambda>_. Inr ())))"

subsection \<open>Transactions\<close>

definition check_transactions :: "signed_block_verifier \<Rightarrow> bytes list \<Rightarrow> failure + unit" where
  "check_transactions v batch =
    (let size_limit = max_transaction_size_bytes (bv_config v);
         num_limit = max_num_transactions_in_block (bv_config v);
         bytes_limit = max_transactions_in_block_bytes (bv_config v)
     in
     rbind (rfold (\<lambda>t _. ensure (\<not> (length t > size_limit \<and> size_limit > 0))
                           (TransactionTooLarge (length t) size_limit)) batch ()) (\<lambda>_.
     rbind (ensure (\<not> (length batch > num_limit \<and> num_limit > 0))
              (TooManyTransactions (length batch) num_limit)) (\<lambda>_.
     ensure (\<not> ((\<Sum>t\<leftarrow>batch. length t) > bytes_limit \<and> bytes_limit > 0))
       (TooManyTransactionBytes (length batch) bytes_limit))))"

subsection \<open>Blocks\<close>

definition version_matches :: "bool \<Rightarrow> block \<Rightarrow> bool" where
  "version_matches v3 b = (case b of V1 _ \<Rightarrow> \<not> v3 | V2 _ \<Rightarrow> \<not> v3 | V3 _ \<Rightarrow> v3)"

definition verify_block ::
  "crypto \<Rightarrow> signed_block_verifier \<Rightarrow> signed_block \<Rightarrow> failure + unit" where
  "verify_block cr v sb =
    (let b = inner sb; c = bv_committee v; v3 = enable_v3 (bv_config v) in
     rbind (ensure (block_epoch b = epoch c) (WrongEpoch (epoch c) (block_epoch b))) (\<lambda>_.
     rbind (ensure (block_round b \<noteq> 0) UnexpectedGenesisBlock) (\<lambda>_.
     rbind (ensure (version_matches v3 b) UnexpectedBlockVersion) (\<lambda>_.
     rbind (ensure (is_valid_index c (block_author b))
              (InvalidAuthorityIndex (block_author b) (committee_size c - 1))) (\<lambda>_.
     rbind (verify_signature cr (bv_context v) sb) (\<lambda>_.
     rbind (ensure (\<not> length (block_ancestors b) > committee_size c)
              (TooManyAncestors (length (block_ancestors b)) (committee_size c))) (\<lambda>_.
     rbind (ensure (block_ancestors b \<noteq> [])
              (InsufficientParentStakes 0 (quorum_threshold c))) (\<lambda>_.
     rbind (rfold (check_ancestor v b) (enumerate 0 (block_ancestors b))
              (replicate (committee_size c) False, 0)) (\<lambda>(_, parent_stakes).
     rbind (ensure (reached_quorum c parent_stakes)
              (InsufficientParentStakes parent_stakes (quorum_threshold c))) (\<lambda>_.
     rbind (if v3
            then rbind (ensure (\<not> block_cutoff_round b \<ge> block_round b)
                          (InvalidTransactionVotesCutoff (block_cutoff_round b) (block_round b)))
                   (\<lambda>_. check_transaction_votes v b)
            else Inr ()) (\<lambda>_.
     check_transactions v (block_transactions_data b))))))))))))"

text \<open>The implementation of the trait \<open>BlockVerifier\<close>.\<close>

definition vote :: "signed_block_verifier \<Rightarrow> verified_block \<Rightarrow> failure + transaction_index list" where
  "vote v b =
     (case verify_and_vote_batch (bv_transaction_verifier v) (reference b)
             (block_transactions_data (vb_inner b)) of
        Inl e \<Rightarrow> Inl (Failed (InvalidTransaction e))
      | Inr rejected \<Rightarrow> Inr rejected)"

definition verify_and_vote ::
  "crypto \<Rightarrow> signed_block_verifier \<Rightarrow> signed_block \<Rightarrow> bytes
     \<Rightarrow> failure + verified_block \<times> transaction_index list" where
  "verify_and_vote cr v sb serialized =
     rbind (verify_block cr v sb) (\<lambda>_.
     let b = new_verified cr sb serialized in
     rbind (if transaction_voting_enabled (bv_config v) then vote v b
            else case verify_batch (bv_transaction_verifier v) (reference b)
                        (block_transactions_data (vb_inner b)) of
                   Inl e \<Rightarrow> Inl (Failed (InvalidTransaction e))
                 | Inr _ \<Rightarrow> Inr []) (\<lambda>rejected.
     Inr (b, rejected)))"

subsection \<open>Declarative validity\<close>

text \<open>
  What the rest of the protocol relies on: distinct authors, the author's own block first, rounds
  below the block's, known genesis blocks, and a quorum of parents in the previous round.
\<close>

definition parent_authors :: "round_number \<Rightarrow> block_ref list \<Rightarrow> authority_index set" where
  "parent_authors r ancs = br_author ` {a \<in> set ancs. br_round a + 1 = r}"

definition valid_ancestors :: "signed_block_verifier \<Rightarrow> block \<Rightarrow> bool" where
  "valid_ancestors v b \<longleftrightarrow>
     (let ancs = block_ancestors b; c = bv_committee v in
      ancs \<noteq> [] \<and> br_author (hd ancs) = block_author b \<and> distinct (map br_author ancs)
      \<and> (\<forall>a \<in> set ancs. is_valid_index c (br_author a) \<and> br_round a < block_round b
            \<and> (br_round a = genesis_round \<longrightarrow> a |\<in>| bv_genesis v))
      \<and> quorum_threshold c \<le> weight c (parent_authors (block_round b) ancs))"

definition valid_votes :: "signed_block_verifier \<Rightarrow> block \<Rightarrow> bool" where
  "valid_votes v b \<longleftrightarrow>
     block_cutoff_round b < block_round b
     \<and> length (block_votes b) \<le> max_transaction_vote_targets (bv_context v)
     \<and> distinct (map vote_block_ref (block_votes b))
     \<and> (\<forall>vt \<in> set (block_votes b).
          block_cutoff_round b < br_round (vote_block_ref vt)
          \<and> br_round (vote_block_ref vt) < block_round b
          \<and> is_valid_index (bv_committee v) (br_author (vote_block_ref vt))
          \<and> rejects vt \<noteq> [] \<and> sorted_wrt (<) (rejects vt)
          \<and> (\<forall>i \<in> set (rejects vt). i < vote_transaction_limit v))"

definition valid_transactions :: "signed_block_verifier \<Rightarrow> bytes list \<Rightarrow> bool" where
  "valid_transactions v batch \<longleftrightarrow>
     (let cfg = bv_config v in
      (max_transaction_size_bytes cfg > 0
         \<longrightarrow> (\<forall>t \<in> set batch. length t \<le> max_transaction_size_bytes cfg))
      \<and> (max_num_transactions_in_block cfg > 0
         \<longrightarrow> length batch \<le> max_num_transactions_in_block cfg)
      \<and> (max_transactions_in_block_bytes cfg > 0
         \<longrightarrow> (\<Sum>t\<leftarrow>batch. length t) \<le> max_transactions_in_block_bytes cfg))"

definition valid_signature :: "crypto \<Rightarrow> signed_block_verifier \<Rightarrow> signed_block \<Rightarrow> bool" where
  "valid_signature cr v sb \<longleftrightarrow>
     (\<exists>bs message sig. bcs_block cr (inner sb) = Some bs
        \<and> bcs_block_intent cr (hash_fn cr bs) = Some message
        \<and> signature_from_bytes cr (signature sb) = Some sig
        \<and> key_verify cr
            (protocol_key (authorities (bv_committee v) ! block_author (inner sb))) message sig)"

definition valid_block :: "crypto \<Rightarrow> signed_block_verifier \<Rightarrow> signed_block \<Rightarrow> bool" where
  "valid_block cr v sb \<longleftrightarrow>
     (let b = inner sb; c = bv_committee v in
      block_epoch b = epoch c \<and> 0 < block_round b
      \<and> version_matches (enable_v3 (bv_config v)) b \<and> is_valid_index c (block_author b)
      \<and> valid_signature cr v sb \<and> valid_ancestors v b
      \<and> (enable_v3 (bv_config v) \<longrightarrow> valid_votes v b)
      \<and> valid_transactions v (block_transactions_data b))"

subsection \<open>The loops compute the declarative conditions\<close>

text \<open>A check fails with an error of the code, never with a panic, unless its condition holds.\<close>

definition checks :: "bool \<Rightarrow> failure + 'a \<Rightarrow> bool" where
  "checks P x \<longleftrightarrow> (if P then is_ok x else \<exists>e. x = Inl (Failed e))"

lemma checks_ensure: "checks P (ensure P e)"
  by (auto simp: checks_def)

lemma checks_rbind:
  assumes "checks P x" "\<And>a. P \<Longrightarrow> x = Inr a \<Longrightarrow> checks Q (f a)"
  shows "checks (P \<and> Q) (rbind x f)"
  using assms by (cases x) (auto simp: checks_def split: if_splits)

lemma checks_ensure_bind: "(P \<Longrightarrow> checks Q (f ())) \<Longrightarrow> checks (P \<and> Q) (rbind (ensure P e) f)"
  by (rule checks_rbind [OF checks_ensure]) auto

lemma checks_cong: "checks P x \<Longrightarrow> P = Q \<Longrightarrow> checks Q x"
  by simp

lemma checks_map: "checks P x \<Longrightarrow> checks P (rbind x (\<lambda>a. Inr (f a)))"
  by (cases x) (auto simp: checks_def split: if_splits)

text \<open>The state of the loop over the ancestors: the authors seen and the stake of the parents.\<close>

definition seen_inv :: "committee \<Rightarrow> bool list \<Rightarrow> authority_index set \<Rightarrow> bool" where
  "seen_inv c seen S \<longleftrightarrow> length seen = committee_size c \<and> (\<forall>i < committee_size c. seen ! i \<longleftrightarrow> i \<in> S)"

definition ancestor_ok ::
  "signed_block_verifier \<Rightarrow> block \<Rightarrow> nat \<Rightarrow> authority_index set \<Rightarrow> block_ref \<Rightarrow> bool" where
  "ancestor_ok v b i S a \<longleftrightarrow>
     is_valid_index (bv_committee v) (br_author a)
     \<and> \<not> (i = 0 \<and> br_author a \<noteq> block_author b \<or> i > 0 \<and> br_author a = block_author b)
     \<and> br_round a < block_round b \<and> (br_round a = genesis_round \<longrightarrow> a |\<in>| bv_genesis v)
     \<and> br_author a \<notin> S"

lemma check_ancestor_ok:
  assumes "committee_base (bv_committee v)" "0 < block_round b"
    and "seen_inv (bv_committee v) seen S" "finite S" "P \<subseteq> S" "ancestor_ok v b i S a"
  shows "\<exists>seen'. check_ancestor v b (i, a) (seen, weight (bv_committee v) P)
      = Inr (seen', weight (bv_committee v) (P \<union> parent_authors (block_round b) [a]))
    \<and> seen_inv (bv_committee v) seen' (insert (br_author a) S)"
proof -
  let ?c = "bv_committee v"
  have "br_author a \<notin> P" "finite P" using assms by (auto simp: ancestor_ok_def finite_subset)
  then have "weight ?c P + stk ?c (br_author a) = weight ?c (insert (br_author a) P)" by simp
  moreover have "wrap64 (weight ?c (insert (br_author a) P)) = weight ?c (insert (br_author a) P)"
    using assms(1) \<open>finite P\<close> by (intro weight_no_wrap) auto
  ultimately have "wrap64 (weight ?c P + stk ?c (br_author a)) = weight ?c (insert (br_author a) P)"
    by simp
  moreover have "checked_sub64 (block_round b) 1 = Some (block_round b - 1)"
    using assms(2) by (simp add: checked_sub64_def)
  moreover have "parent_authors (block_round b) [a] =
      (if br_round a = block_round b - 1 then {br_author a} else {})"
    using assms(2) by (auto simp: parent_authors_def)
  ultimately show ?thesis
    using assms(3,6)
    by (auto simp: check_ancestor_def ancestor_ok_def seen_inv_def Let_def is_valid_index_def
      nth_list_update)
qed

lemma check_ancestor_fails:
  assumes "seen_inv (bv_committee v) seen S" "\<not> ancestor_ok v b i S a"
  shows "\<exists>e. check_ancestor v b (i, a) (seen, ps) = Inl (Failed e)"
  using assms
  by (auto simp: check_ancestor_def ancestor_ok_def seen_inv_def Let_def is_valid_index_def
    ensure_def rassert_def)

primrec ancestors_ok ::
  "signed_block_verifier \<Rightarrow> block \<Rightarrow> nat \<Rightarrow> authority_index set \<Rightarrow> block_ref list \<Rightarrow> bool" where
  "ancestors_ok v b i S [] = True"
| "ancestors_ok v b i S (a # ancs) =
     (ancestor_ok v b i S a \<and> ancestors_ok v b (Suc i) (insert (br_author a) S) ancs)"

lemma parent_authors_Cons:
  "parent_authors r (a # ancs) = parent_authors r [a] \<union> parent_authors r ancs"
  by (auto simp: parent_authors_def)

lemma parent_authors_code:
  "parent_authors r [] = {}"
  "parent_authors r (a # ancs) =
     (if br_round a + 1 = r then insert (br_author a) (parent_authors r ancs)
      else parent_authors r ancs)"
  by (auto simp: parent_authors_def)

lemma ancestor_loop:
  assumes "committee_base (bv_committee v)" "0 < block_round b"
    and "seen_inv (bv_committee v) seen S" "finite S" "P \<subseteq> S"
  shows "if ancestors_ok v b i S ancs
    then \<exists>seen'. rfold (check_ancestor v b) (enumerate i ancs) (seen, weight (bv_committee v) P)
      = Inr (seen', weight (bv_committee v) (P \<union> parent_authors (block_round b) ancs))
    else \<exists>e. rfold (check_ancestor v b) (enumerate i ancs) (seen, weight (bv_committee v) P)
      = Inl (Failed e)"
  using assms(3-5)
proof (induction ancs arbitrary: i seen S P)
  case Nil
  then show ?case by (simp add: parent_authors_def)
next
  case (Cons a ancs)
  show ?case
  proof (cases "ancestor_ok v b i S a")
    case False
    then obtain e where "check_ancestor v b (i, a) (seen, weight (bv_committee v) P) = Inl (Failed e)"
      using check_ancestor_fails [OF Cons.prems(1) False] by blast
    with False show ?thesis by simp
  next
    case True
    let ?P = "P \<union> parent_authors (block_round b) [a]" and ?S = "insert (br_author a) S"
    obtain seen' where s: "check_ancestor v b (i, a) (seen, weight (bv_committee v) P)
        = Inr (seen', weight (bv_committee v) ?P)" "seen_inv (bv_committee v) seen' ?S"
      using check_ancestor_ok [OF assms(1,2) Cons.prems True] by auto
    have "?P \<subseteq> ?S" using Cons.prems(3) by (auto simp: parent_authors_def)
    from Cons.IH [OF s(2) _ this, of "Suc i"] Cons.prems(2) s(1) True show ?thesis
      by (simp add: parent_authors_Cons [of _ a ancs] Un_assoc split: if_splits)
  qed
qed

lemma ancestors_ok_later:
  "0 < i \<Longrightarrow> block_author b \<in> S \<Longrightarrow> ancestors_ok v b i S ancs \<longleftrightarrow>
     distinct (map br_author ancs) \<and> br_author ` set ancs \<inter> S = {}
     \<and> (\<forall>a \<in> set ancs. is_valid_index (bv_committee v) (br_author a)
          \<and> br_round a < block_round b
          \<and> (br_round a = genesis_round \<longrightarrow> a |\<in>| bv_genesis v))"
  by (induction ancs arbitrary: i S) (auto simp: ancestor_ok_def)

lemma ancestors_ok_iff:
  "ancs \<noteq> [] \<Longrightarrow> ancestors_ok v b 0 {} ancs \<longleftrightarrow>
     br_author (hd ancs) = block_author b \<and> distinct (map br_author ancs)
     \<and> (\<forall>a \<in> set ancs. is_valid_index (bv_committee v) (br_author a)
          \<and> br_round a < block_round b
          \<and> (br_round a = genesis_round \<longrightarrow> a |\<in>| bv_genesis v))"
  by (cases ancs)
    (auto simp: ancestor_ok_def ancestors_ok_later image_iff eq_commute [of "block_author b"])

lemma distinct_authors_bound:
  assumes "distinct (map br_author ancs)" "\<forall>a \<in> set ancs. is_valid_index c (br_author a)"
  shows "length ancs \<le> committee_size c"
proof -
  have "length ancs = card (set (map br_author ancs))"
    using assms(1) by (metis distinct_card length_map)
  also have "\<dots> \<le> card {..<committee_size c}"
    using assms(2) by (intro card_mono) (auto simp: is_valid_index_def)
  finally show ?thesis by simp
qed

text \<open>The part of \<open>verify_block\<close> on ancestors.\<close>

lemma ancestors_part:
  assumes "committee_wf (bv_committee v)" "0 < block_round b"
    and rest: "\<And>u. checks Q (f u)"
  defines "c \<equiv> bv_committee v" and "ancs \<equiv> block_ancestors b"
  shows "checks (valid_ancestors v b \<and> Q)
    (rbind (ensure (\<not> length ancs > committee_size c) e1) (\<lambda>_.
     rbind (ensure (ancs \<noteq> []) e2) (\<lambda>_.
     rbind (rfold (check_ancestor v b) (enumerate 0 ancs)
              (replicate (committee_size c) False, 0)) (\<lambda>(_, parent_stakes).
     rbind (ensure (reached_quorum c parent_stakes) (e3 parent_stakes)) f))))"
proof -
  let ?loop = "rfold (check_ancestor v b) (enumerate 0 ancs) (replicate (committee_size c) False, 0)"
  let ?q = "quorum_threshold c \<le> weight c (parent_authors (block_round b) ancs)"
  have "if ancestors_ok v b 0 {} ancs
    then \<exists>seen'. ?loop = Inr (seen', weight c (parent_authors (block_round b) ancs))
    else \<exists>e. ?loop = Inl (Failed e)"
    using ancestor_loop [OF committee_wf_base [OF assms(1)] assms(2),
        of "replicate (committee_size c) False" "{}" "{}" 0 ancs, folded c_def]
    by (simp add: seen_inv_def split: if_splits)
  then have "checks (ancestors_ok v b 0 {} ancs \<and> ?q \<and> Q)
    (rbind ?loop (\<lambda>(_, parent_stakes).
       rbind (ensure (reached_quorum c parent_stakes) (e3 parent_stakes)) f))"
    using rest by (cases "ancestors_ok v b 0 {} ancs")
      (force simp: checks_def reached_quorum_def ensure_def rassert_def split: if_splits)+
  then have "checks (length ancs \<le> committee_size c \<and> ancs \<noteq> [] \<and> ancestors_ok v b 0 {} ancs
      \<and> ?q \<and> Q)
    (rbind (ensure (\<not> length ancs > committee_size c) e1) (\<lambda>_.
     rbind (ensure (ancs \<noteq> []) e2) (\<lambda>_.
     rbind ?loop (\<lambda>(_, parent_stakes).
       rbind (ensure (reached_quorum c parent_stakes) (e3 parent_stakes)) f))))"
    unfolding not_less [symmetric] by (intro checks_ensure_bind)
  then show ?thesis
    by (rule checks_cong)
      (use distinct_authors_bound [of ancs c] ancestors_ok_iff [of ancs v b] in
        \<open>auto simp: valid_ancestors_def Let_def c_def ancs_def\<close>)
qed

text \<open>Transaction votes.\<close>

lemma windows_increasing_iff: "\<not> windows_not_increasing xs \<longleftrightarrow> sorted_wrt (<) xs"
proof (induction xs rule: induct_list012)
  case (3 x y zs)
  then show ?case by (auto simp: windows_not_increasing_def not_le) (meson less_trans)
qed (auto simp: windows_not_increasing_def)

lemma increasing_last_bound:
  fixes xs :: "nat list"
  assumes "sorted_wrt (<) xs" "xs \<noteq> []"
  shows "(\<forall>i \<in> set xs. i < n) \<longleftrightarrow> last xs < n"
proof
  show "\<forall>i \<in> set xs. i < n \<Longrightarrow> last xs < n" using assms(2) by simp
  assume "last xs < n"
  moreover have "i \<le> last xs" if "i \<in> set xs" for i
    using assms that by (induction xs) (auto simp: less_imp_le split: if_splits)
  ultimately show "\<forall>i \<in> set xs. i < n" by (meson le_less_trans)
qed

lemma increasing_length_bound:
  fixes xs :: "nat list"
  assumes "sorted_wrt (<) xs" "\<forall>i \<in> set xs. i < n"
  shows "length xs \<le> n"
proof -
  have "length xs = card (set xs)" using assms(1) by (simp add: distinct_card strict_sorted_iff)
  also have "\<dots> \<le> card {..<n}" using assms(2) by (intro card_mono) auto
  finally show ?thesis by simp
qed

definition vote_target_ok :: "signed_block_verifier \<Rightarrow> block \<Rightarrow> block_transaction_votes \<Rightarrow> bool" where
  "vote_target_ok v b vt \<longleftrightarrow>
     block_cutoff_round b < br_round (vote_block_ref vt)
     \<and> br_round (vote_block_ref vt) < block_round b
     \<and> is_valid_index (bv_committee v) (br_author (vote_block_ref vt))
     \<and> rejects vt \<noteq> [] \<and> sorted_wrt (<) (rejects vt)
     \<and> (\<forall>i \<in> set (rejects vt). i < vote_transaction_limit v)"

lemma check_vote_target_eq:
  "(vote_target_ok v b vt \<and> vote_block_ref vt |\<notin>| T \<longrightarrow>
      check_vote_target v b vt T = Inr (finsert (vote_block_ref vt) T))
   \<and> (\<not> (vote_target_ok v b vt \<and> vote_block_ref vt |\<notin>| T) \<longrightarrow>
      (\<exists>e. check_vote_target v b vt T = Inl (Failed e)))"
  using increasing_last_bound [of "rejects vt" "vote_transaction_limit v"]
    increasing_length_bound [of "rejects vt" "vote_transaction_limit v"]
  by (auto simp: check_vote_target_def vote_target_ok_def windows_increasing_iff Let_def
    ensure_def rassert_def)

lemma check_vote_targets:
  "checks ((\<forall>vt \<in> set vs. vote_target_ok v b vt) \<and> distinct (map vote_block_ref vs)
      \<and> vote_block_ref ` set vs \<inter> fset T = {})
    (rfold (check_vote_target v b) vs T)"
proof (induction vs arbitrary: T)
  case Nil
  then show ?case by (simp add: checks_def)
next
  case (Cons vt vs)
  show ?case
  proof (cases "vote_target_ok v b vt \<and> vote_block_ref vt |\<notin>| T")
    case True
    then have "check_vote_target v b vt T = Inr (finsert (vote_block_ref vt) T)"
      using check_vote_target_eq [of v b vt T] by blast
    then have "rfold (check_vote_target v b) (vt # vs) T =
        rfold (check_vote_target v b) vs (finsert (vote_block_ref vt) T)" by simp
    then show ?thesis using True by (simp only:) (rule checks_cong [OF Cons.IH], auto)
  next
    case False
    then obtain e where "check_vote_target v b vt T = Inl (Failed e)"
      using check_vote_target_eq [of v b vt T] by blast
    with False show ?thesis by (auto simp: checks_def)
  qed
qed

lemma votes_part:
  "checks (valid_votes v b)
    (rbind (ensure (\<not> block_cutoff_round b \<ge> block_round b) e) (\<lambda>_. check_transaction_votes v b))"
proof -
  have "checks (length (block_votes b) \<le> max_transaction_vote_targets (bv_context v)
      \<and> (\<forall>vt \<in> set (block_votes b). vote_target_ok v b vt)
      \<and> distinct (map vote_block_ref (block_votes b))) (check_transaction_votes v b)"
  proof (cases "block_votes b = []")
    case False
    then show ?thesis
      using checks_map [OF check_vote_targets [of "block_votes b" v b "{||}"], of "\<lambda>_. ()"]
      unfolding check_transaction_votes_def Let_def not_less [symmetric]
      by (auto intro: checks_ensure_bind)
  qed (simp add: check_transaction_votes_def checks_def)
  then have "checks (\<not> block_cutoff_round b \<ge> block_round b
      \<and> length (block_votes b) \<le> max_transaction_vote_targets (bv_context v)
      \<and> (\<forall>vt \<in> set (block_votes b). vote_target_ok v b vt)
      \<and> distinct (map vote_block_ref (block_votes b)))
    (rbind (ensure (\<not> block_cutoff_round b \<ge> block_round b) e) (\<lambda>_. check_transaction_votes v b))"
    by (rule checks_ensure_bind)
  then show ?thesis
    by (rule checks_cong) (auto simp: valid_votes_def vote_target_ok_def)
qed

text \<open>Transactions and signature.\<close>

lemma rfold_ensure:
  "rfold (\<lambda>t _. ensure (P t) (e t)) xs () =
     (case find (\<lambda>t. \<not> P t) xs of None \<Rightarrow> Inr () | Some t \<Rightarrow> Inl (Failed (e t)))"
  by (induction xs) (auto simp: ensure_def rassert_def)

lemma find_not_None: "find (\<lambda>t. \<not> P t) xs = None \<longleftrightarrow> (\<forall>t \<in> set xs. P t)"
  by (induction xs) auto

lemma transactions_part: "checks (valid_transactions v batch) (check_transactions v batch)"
proof -
  let ?cfg = "bv_config v"
  have "checks (\<forall>t \<in> set batch. \<not> (length t > max_transaction_size_bytes ?cfg
      \<and> max_transaction_size_bytes ?cfg > 0))
    (rfold (\<lambda>t _. ensure (\<not> (length t > max_transaction_size_bytes ?cfg
        \<and> max_transaction_size_bytes ?cfg > 0))
        (TransactionTooLarge (length t) (max_transaction_size_bytes ?cfg))) batch ())"
    unfolding rfold_ensure find_not_None [symmetric] checks_def by (auto split: option.splits)
  then have "checks ((\<forall>t \<in> set batch. \<not> (length t > max_transaction_size_bytes ?cfg
      \<and> max_transaction_size_bytes ?cfg > 0))
      \<and> \<not> (length batch > max_num_transactions_in_block ?cfg
           \<and> max_num_transactions_in_block ?cfg > 0)
      \<and> \<not> ((\<Sum>t\<leftarrow>batch. length t) > max_transactions_in_block_bytes ?cfg
           \<and> max_transactions_in_block_bytes ?cfg > 0)) (check_transactions v batch)"
    unfolding check_transactions_def Let_def
    by (intro checks_rbind checks_ensure_bind checks_ensure)
  then show ?thesis
    by (rule checks_cong) (auto simp: valid_transactions_def Let_def not_less)
qed

lemma signature_part:
  assumes "is_valid_index (bv_committee v) (block_author (inner sb))"
  shows "checks (valid_signature cr v sb) (verify_signature cr (bv_context v) sb)"
  using assms
  by (auto simp: checks_def verify_signature_def valid_signature_def verify_block_signature_def
    compute_inner_block_digest_def committee_authority_def is_valid_index_def committee_size_def
    Let_def ensure_def rassert_def rexpect_def is_ok_iff rbind_eq_Inr rbind_eq_Inl
    split: option.splits)

lemma verify_block_checks:
  assumes "committee_wf (bv_committee v)"
  shows "checks (valid_block cr v sb) (verify_block cr v sb)"
proof -
  let ?b = "inner sb" and ?c = "bv_committee v" and ?v3 = "enable_v3 (bv_config v)"
  have v3: "checks ((?v3 \<longrightarrow> valid_votes v ?b) \<and> valid_transactions v (block_transactions_data ?b))
    (rbind (if ?v3
            then rbind (ensure (\<not> block_cutoff_round ?b \<ge> block_round ?b) e)
                   (\<lambda>_. check_transaction_votes v ?b)
            else Inr ()) (\<lambda>_. check_transactions v (block_transactions_data ?b)))" for e
    using votes_part [of v ?b e]
    by (intro checks_rbind transactions_part) (auto simp: checks_def)
  have "checks (block_epoch ?b = epoch ?c \<and> block_round ?b \<noteq> 0 \<and> version_matches ?v3 ?b
      \<and> is_valid_index ?c (block_author ?b) \<and> valid_signature cr v sb
      \<and> valid_ancestors v ?b \<and> (?v3 \<longrightarrow> valid_votes v ?b)
      \<and> valid_transactions v (block_transactions_data ?b)) (verify_block cr v sb)"
    unfolding verify_block_def Let_def
    by (intro checks_ensure_bind checks_rbind [OF signature_part] ancestors_part [OF assms] v3) auto
  then show ?thesis by (rule checks_cong) (auto simp: valid_block_def Let_def)
qed

text \<open>
  C8. Block verification accepts a block exactly when it is valid: of the epoch and of the version
  of the protocol, after genesis, signed by its author, with ancestors of distinct authors below
  its round, its own first, reaching a quorum of parents in the previous round, and with votes and
  transactions within the limits. Whatever the block, it returns and does not panic.
\<close>

theorem verify_block_correct:
  assumes "committee_wf (bv_committee v)"
  shows "(verify_block cr v sb = Inr () \<longleftrightarrow> valid_block cr v sb)
    \<and> (\<forall>p. verify_block cr v sb \<noteq> Inl (Panicked p))"
  using verify_block_checks [OF assms, of cr sb] by (auto simp: checks_def is_ok_iff split: if_splits)

text \<open>
  C24. \<open>verify_and_vote\<close> returns a block only if it is valid, unchanged, under the digest of the
  bytes it came with, and only if the transaction verifier accepts its transactions; the rejected
  indices are those of the transaction verifier, and none when voting is off.
\<close>

theorem verify_and_vote_correct:
  assumes "committee_wf (bv_committee v)"
  shows "verify_and_vote cr v sb serialized = Inr (b, rejected) \<longleftrightarrow>
    valid_block cr v sb \<and> b = new_verified cr sb serialized
    \<and> (let batch = block_transactions_data (inner sb); tv = bv_transaction_verifier v in
       if transaction_voting_enabled (bv_config v)
       then verify_and_vote_batch tv (reference b) batch = Inr rejected
       else verify_batch tv (reference b) batch = Inr () \<and> rejected = [])"
proof -
  have ok: "is_ok (verify_block cr v sb) \<longleftrightarrow> valid_block cr v sb"
    using verify_block_checks [OF assms, of cr sb] by (auto simp: checks_def split: if_splits)
  show ?thesis
  proof (cases "valid_block cr v sb")
    case True
    then show ?thesis using ok
      by (auto simp: verify_and_vote_def is_ok_iff Let_def vote_def new_verified_def rbind_eq_Inr
        split: sum.splits if_splits)
  next
    case False
    then show ?thesis using ok by (auto simp: verify_and_vote_def is_ok_iff rbind_eq_Inr)
  qed
qed

text \<open>
  C25. When the total size of the transactions is over the limit, the error carries the number of
  transactions in its field \<open>size\<close>, not the number of bytes that is compared with \<open>limit\<close>.
\<close>

theorem too_many_bytes_reports_count:
  assumes "check_transactions v batch = Inl (Failed (TooManyTransactionBytes reported limit))"
  shows "reported = length batch \<and> limit = max_transactions_in_block_bytes (bv_config v)
    \<and> limit < (\<Sum>t\<leftarrow>batch. length t)"
  using assms
  by (auto simp: check_transactions_def Let_def rfold_ensure ensure_eq rbind_eq_Inl
    split: option.splits)

subsection \<open>Witnesses\<close>

definition demo_genesis_ref :: "authority_index \<Rightarrow> block_ref" where
  "demo_genesis_ref a = BlockRef 0 a (of_nat a)"

definition demo_transaction_verifier :: transaction_verifier where
  "demo_transaction_verifier = \<lparr>verify_batch = (\<lambda>_ _. Inr ()),
     verify_and_vote_batch = (\<lambda>_ batch. Inr (filter (\<lambda>i. batch ! i = []) [0..<length batch]))\<rparr>"

definition demo_verifier :: signed_block_verifier where
  "demo_verifier = \<lparr>bv_context = demo_context,
     bv_genesis = fset_of_list (map demo_genesis_ref [0, 1, 2, 3]),
     bv_transaction_verifier = demo_transaction_verifier\<rparr>"

lemma demo_indexed:
  "indexed_authorities demo_committee =
     [(0, demo_authority 1), (1, demo_authority 1), (2, demo_authority 1), (3, demo_authority 1)]"
  by (simp add: indexed_authorities_def demo_committee_def numeral_2_eq_2 numeral_3_eq_3)

text \<open>The verifier that \<open>SignedBlockVerifier::new\<close> builds, with its genesis references.\<close>

lemma demo_verifier_new:
  "signed_block_verifier_new demo_crypto demo_context demo_transaction_verifier = Inr demo_verifier"
  by (simp add: signed_block_verifier_new_def genesis_blocks_def demo_indexed genesis_block_def protocol_config_for_testing_def Let_def
    signed_block_serialize_def demo_crypto_def demo_verifier_def demo_genesis_ref_def
    signed_block_new_genesis_def block_v2_genesis_def genesis_round_def new_verified_def
    compute_digest_def reference_def)

definition demo_signed_block :: signed_block where
  "demo_signed_block = \<lparr>inner = V2 \<lparr>v2_epoch = 0, v2_round = 1, v2_author = 1, v2_timestamp_ms = 5,
     v2_ancestors = map demo_genesis_ref [1, 0, 3],
     v2_transactions = [\<lparr>tx_data = [7, 7]\<rparr>, \<lparr>tx_data = []\<rparr>], v2_transaction_votes = [],
     v2_commit_votes = [], v2_misbehavior_reports = []\<rparr>, signature = [0, 1]\<rparr>"

lemma demo_signed_block_valid: "valid_block demo_crypto demo_verifier demo_signed_block"
proof -
  have "valid_signature demo_crypto demo_verifier demo_signed_block"
    by (simp add: valid_signature_def demo_crypto_def demo_verifier_def demo_signed_block_def
      demo_committee_def demo_authority_def)
  moreover have "parent_authors 1 (map demo_genesis_ref [1, 0, 3]) = {1, 0, 3}"
    by (simp add: parent_authors_code demo_genesis_ref_def)
  then have "valid_ancestors demo_verifier (inner demo_signed_block)"
    by (simp add: valid_ancestors_def demo_verifier_def demo_signed_block_def demo_genesis_ref_def
      demo_thresholds demo_stk Let_def)
  ultimately show ?thesis
    by (simp add: valid_block_def Let_def demo_signed_block_def demo_verifier_def
      demo_committee_def protocol_config_for_testing_def version_matches_def
      valid_transactions_def block_transactions_data_def is_valid_index_def committee_size_def)
qed

theorem verify_block_correct_witness:
  "committee_wf (bv_committee demo_verifier)
   \<and> verify_block demo_crypto demo_verifier demo_signed_block = Inr ()
   \<and> verify_block demo_crypto demo_verifier (demo_signed_block\<lparr>signature := []\<rparr>) \<noteq> Inr ()"
proof -
  have wf: "committee_wf (bv_committee demo_verifier)"
    by (simp add: demo_verifier_def demo_committee_wf)
  have "\<not> valid_block demo_crypto demo_verifier (demo_signed_block\<lparr>signature := []\<rparr>)"
    by (simp add: valid_block_def valid_signature_def demo_crypto_def)
  then show ?thesis
    using verify_block_correct [OF wf, of demo_crypto] demo_signed_block_valid wf by blast
qed

theorem verify_and_vote_correct_witness:
  "verify_and_vote demo_crypto demo_verifier demo_signed_block [1, 1, 0, 1]
   = Inr (new_verified demo_crypto demo_signed_block [1, 1, 0, 1], [1])"
proof -
  have wf: "committee_wf (bv_committee demo_verifier)"
    by (simp add: demo_verifier_def demo_committee_wf)
  show ?thesis
    unfolding verify_and_vote_correct [OF wf]
    by (simp add: demo_signed_block_valid)
      (simp add: demo_verifier_def demo_transaction_verifier_def protocol_config_for_testing_def
        demo_signed_block_def block_transactions_data_def)
qed

text \<open>One transaction of 20 bytes with a limit of 10 bytes per block: the error reports 1 byte.\<close>

theorem too_many_bytes_reports_count_witness:
  "\<exists>v reported limit. check_transactions v [replicate 20 0]
     = Inl (Failed (TooManyTransactionBytes reported limit))
   \<and> limit < 20 \<and> reported < limit"
proof -
  let ?v = "demo_verifier\<lparr>bv_context := demo_context\<lparr>ctx_protocol_config :=
     protocol_config_for_testing\<lparr>max_transactions_in_block_bytes := 10\<rparr>\<rparr>\<rparr>"
  have *: "check_transactions ?v [replicate 20 0] = Inl (Failed (TooManyTransactionBytes 1 10))"
    by (simp add: check_transactions_def protocol_config_for_testing_def)
  from too_many_bytes_reports_count [OF *] * show ?thesis
    by (intro exI [of _ ?v] exI [of _ 1] exI [of _ 10]) simp
qed

end
