(* ===== verification/Commit.thy ===== *)
theory Commit
  imports Block
begin

section \<open>Commits, sub-dags and leader decisions\<close>

text \<open>
  Models \<open>consensus/core/src/commit.rs\<close>. The BCS encoding of commits is a parameter,
  \<open>bcs_commit\<close>. \<open>CommitRange\<close> keeps the half-open representation of the code; its lemmas relate
  it to the inclusive range it stands for, with the saturation at \<open>u32::MAX\<close>.
\<close>

definition genesis_commit_index :: commit_index where "genesis_commit_index = 0"
definition minimum_wave_length :: round_number where "minimum_wave_length = 3"
definition default_wave_length :: round_number where "default_wave_length = minimum_wave_length"

type_synonym wavenumber = nat

subsection \<open>Commits\<close>

record commit_v1 =
  cv1_index :: commit_index
  cv1_previous_digest :: commit_digest
  cv1_timestamp_ms :: block_timestamp_ms
  cv1_leader :: block_ref
  cv1_blocks :: "block_ref list"

datatype commit = CommitV1 commit_v1

definition commit_new ::
  "commit_index \<Rightarrow> commit_digest \<Rightarrow> block_timestamp_ms \<Rightarrow> block_ref \<Rightarrow> block_ref list \<Rightarrow> commit" where
  "commit_new i prev ts leader bs =
     CommitV1 \<lparr>cv1_index = i, cv1_previous_digest = prev, cv1_timestamp_ms = ts,
               cv1_leader = leader, cv1_blocks = bs\<rparr>"

fun commit_leader :: "commit \<Rightarrow> block_ref" where "commit_leader (CommitV1 c) = cv1_leader c"
fun commit_round :: "commit \<Rightarrow> round_number" where "commit_round (CommitV1 c) = br_round (cv1_leader c)"
fun commit_idx :: "commit \<Rightarrow> commit_index" where "commit_idx (CommitV1 c) = cv1_index c"
fun commit_previous_digest :: "commit \<Rightarrow> commit_digest" where
  "commit_previous_digest (CommitV1 c) = cv1_previous_digest c"
fun commit_timestamp :: "commit \<Rightarrow> block_timestamp_ms" where
  "commit_timestamp (CommitV1 c) = cv1_timestamp_ms c"
fun commit_blocks :: "commit \<Rightarrow> block_ref list" where "commit_blocks (CommitV1 c) = cv1_blocks c"

lemma commit_new_simps [simp]:
  "commit_idx (commit_new i p t l bs) = i"
  "commit_previous_digest (commit_new i p t l bs) = p"
  "commit_timestamp (commit_new i p t l bs) = t"
  "commit_leader (commit_new i p t l bs) = l"
  "commit_round (commit_new i p t l bs) = br_round l"
  "commit_blocks (commit_new i p t l bs) = bs"
  by (simp_all add: commit_new_def)

record trusted_commit =
  trusted_inner :: commit
  trusted_digest :: commit_digest
  trusted_serialized :: bytes

definition new_trusted :: "crypto \<Rightarrow> commit \<Rightarrow> bytes \<Rightarrow> trusted_commit" where
  "new_trusted cr c serialized =
     \<lparr>trusted_inner = c, trusted_digest = hash_fn cr serialized, trusted_serialized = serialized\<rparr>"

definition commit_reference :: "trusted_commit \<Rightarrow> commit_ref" where
  "commit_reference c = \<lparr>cr_index = commit_idx (trusted_inner c), cr_digest = trusted_digest c\<rparr>"

record certified_commit =
  certified_inner :: trusted_commit
  certified_blocks :: "verified_block list"

definition new_certified :: "trusted_commit \<Rightarrow> verified_block list \<Rightarrow> certified_commit" where
  "new_certified c bs = \<lparr>certified_inner = c, certified_blocks = bs\<rparr>"

record certified_commits =
  cc_commits :: "certified_commit list"
  cc_votes :: "verified_block list"

subsection \<open>Committed sub-dags\<close>

record committed_sub_dag =
  csd_leader :: block_ref
  csd_blocks :: "verified_block list"
  csd_timestamp_ms :: block_timestamp_ms
  csd_commit_ref :: commit_ref
  decided_with_local_blocks :: bool
  recovered_rejected_transactions :: bool
  rejected_transactions_by_block :: "(block_ref, transaction_index list) fmap"

definition committed_sub_dag_new ::
  "block_ref \<Rightarrow> verified_block list \<Rightarrow> block_timestamp_ms \<Rightarrow> commit_ref \<Rightarrow> committed_sub_dag" where
  "committed_sub_dag_new leader bs ts r =
     \<lparr>csd_leader = leader, csd_blocks = bs, csd_timestamp_ms = ts, csd_commit_ref = r,
      decided_with_local_blocks = True, recovered_rejected_transactions = False,
      rejected_transactions_by_block = fmempty\<rparr>"

text \<open>\<open>sort_by\<close> is stable; the order of the key, round then author, is that of \<open>Slot\<close>.\<close>

definition sort_sub_dag_blocks :: "verified_block list \<Rightarrow> verified_block list" where
  "sort_sub_dag_blocks bs = sort_key (\<lambda>b. Slot (vb_round b) (vb_author b)) bs"

lemma sort_sub_dag_mset [simp]: "mset (sort_sub_dag_blocks bs) = mset bs"
  by (simp add: sort_sub_dag_blocks_def)

lemma sort_sub_dag_set [simp]: "set (sort_sub_dag_blocks bs) = set bs"
  by (simp add: sort_sub_dag_blocks_def)

lemma sort_sub_dag_length [simp]: "length (sort_sub_dag_blocks bs) = length bs"
  by (simp add: sort_sub_dag_blocks_def)

lemma sort_sub_dag_sorted:
  "sorted (map (\<lambda>b. Slot (vb_round b) (vb_author b)) (sort_sub_dag_blocks bs))"
  by (simp add: sort_sub_dag_blocks_def)

lemma sort_sub_dag_rounds: "sorted (map vb_round (sort_sub_dag_blocks bs))"
proof -
  have "sorted_wrt (\<lambda>x y. vb_round x \<le> vb_round y) (sort_sub_dag_blocks bs)"
    using sort_sub_dag_sorted [of bs] unfolding sorted_map
    by (rule sorted_wrt_mono_rel [rotated]) (auto simp: less_eq_slot_def)
  then show ?thesis by (simp add: sorted_map)
qed

subsection \<open>Decisions on leaders\<close>

datatype decision = Direct | Indirect | Certified

datatype leader_status = Commit verified_block | Skip slot | Undecided slot

fun leader_status_round :: "leader_status \<Rightarrow> round_number" where
  "leader_status_round (Commit b) = vb_round b"
| "leader_status_round (Skip s) = slot_round s"
| "leader_status_round (Undecided s) = slot_round s"

fun is_decided :: "leader_status \<Rightarrow> bool" where
  "is_decided (Commit b) = True"
| "is_decided (Skip s) = True"
| "is_decided (Undecided s) = False"

datatype decided_leader = DecidedCommit verified_block bool | DecidedSkip slot

fun into_decided_leader :: "leader_status \<Rightarrow> bool \<Rightarrow> decided_leader option" where
  "into_decided_leader (Commit b) direct = Some (DecidedCommit b direct)"
| "into_decided_leader (Skip s) direct = Some (DecidedSkip s)"
| "into_decided_leader (Undecided s) direct = None"

fun decided_leader_slot :: "decided_leader \<Rightarrow> slot" where
  "decided_leader_slot (DecidedCommit b direct) = slot_of_ref (reference b)"
| "decided_leader_slot (DecidedSkip s) = s"

fun into_committed_block :: "decided_leader \<Rightarrow> verified_block option" where
  "into_committed_block (DecidedCommit b direct) = Some b"
| "into_committed_block (DecidedSkip s) = None"

lemma into_decided_leader_iff:
  "(\<exists>d. into_decided_leader s direct = Some d) \<longleftrightarrow> is_decided s"
  by (cases s) auto

subsection \<open>Ranges of commits\<close>

datatype commit_range = CommitRange (range_lo: commit_index) (range_hi: commit_index)

definition commit_range_new :: "commit_index \<Rightarrow> commit_index \<Rightarrow> commit_range" where
  "commit_range_new lo hi = CommitRange lo (saturating_add32 hi 1)"

definition range_start :: "commit_range \<Rightarrow> commit_index" where
  "range_start r = range_lo r"

definition range_end :: "commit_range \<Rightarrow> commit_index" where
  "range_end r = range_hi r - 1"

definition range_extend_to :: "commit_range \<Rightarrow> commit_index \<Rightarrow> panic + commit_range" where
  "range_extend_to r other =
     (let new_end = saturating_add32 other 1 in
      if \<not> range_hi r \<le> new_end then Inl RangeShrinks else Inr (CommitRange (range_lo r) new_end))"

definition range_size :: "commit_range \<Rightarrow> panic + nat" where
  "range_size r = rexpect RangeEndBeforeStart (checked_sub64 (range_hi r) (range_lo r))"

definition is_equal_size :: "commit_range \<Rightarrow> commit_range \<Rightarrow> panic + bool" where
  "is_equal_size r other =
     rbind (range_size r) (\<lambda>a. rbind (range_size other) (\<lambda>b. Inr (a = b)))"

definition is_next_range :: "commit_range \<Rightarrow> commit_range \<Rightarrow> bool" where
  "is_next_range r other \<longleftrightarrow> range_hi r = range_lo other"

text \<open>\<open>impl Ord for CommitRange\<close>: by start, then by end, both inclusive.\<close>

definition range_less_eq :: "commit_range \<Rightarrow> commit_range \<Rightarrow> bool" where
  "range_less_eq a b \<longleftrightarrow> range_start a < range_start b
     \<or> range_start a = range_start b \<and> range_end a \<le> range_end b"

text \<open>The commits that a range stands for.\<close>

definition range_set :: "commit_range \<Rightarrow> commit_index set" where
  "range_set r = {range_lo r..<range_hi r}"

lemma commit_range_new_set:
  "hi < u32_max \<Longrightarrow> range_set (commit_range_new lo hi) = {lo..hi}"
  by (auto simp: range_set_def commit_range_new_def saturating_add32_def)

lemma range_size_card: "range_lo r \<le> range_hi r \<Longrightarrow> range_size r = Inr (card (range_set r))"
  by (simp add: range_size_def checked_sub64_def range_set_def)

text \<open>
  Below \<open>u32::MAX\<close> a \<open>CommitRange\<close> behaves as the inclusive range it was built from: its
  bounds and size are those of the range, it extends to any later end, consecutive ranges are
  recognised and their commits are disjoint and add up.
\<close>

theorem commit_range_correct:
  assumes "lo \<le> hi" "hi \<le> hi'" "hi' < u32_max"
  shows "range_start (commit_range_new lo hi) = lo \<and> range_end (commit_range_new lo hi) = hi
    \<and> range_size (commit_range_new lo hi) = Inr (hi - lo + 1)
    \<and> range_extend_to (commit_range_new lo hi) hi' = Inr (commit_range_new lo hi')
    \<and> (is_next_range (commit_range_new lo hi) (commit_range_new lo' hi') \<longleftrightarrow> lo' = hi + 1)
    \<and> range_set (commit_range_new lo hi') =
        range_set (commit_range_new lo hi) \<union> range_set (commit_range_new (hi + 1) hi')"
  using assms
  by (auto simp: commit_range_new_def range_start_def range_end_def range_size_def
    range_extend_to_def checked_sub64_def is_next_range_def range_set_def saturating_add32_def Let_def)

theorem commit_range_correct_witness:
  "range_size (commit_range_new 3 5) = Inr 3
   \<and> range_extend_to (commit_range_new 3 5) 9 = Inr (commit_range_new 3 9)
   \<and> is_next_range (commit_range_new 3 5) (commit_range_new 6 9)"
  using commit_range_correct [of 3 5 9 6] by (simp add: u32_max_def)

end
