(* ===== verification/Leader_Scoring.thy ===== *)
theory Leader_Scoring
  imports Commit Stake_Aggregator
begin

section \<open>Reputation scores\<close>

text \<open>
  Models \<open>consensus/core/src/leader_scoring.rs\<close>, and \<open>CommitInfo\<close> of \<open>commit.rs\<close>, which carries
  the scores. A vote is a block that links to a committed leader of the previous round; its score
  is the stake of the authors of the blocks of the next round that link to the vote.
\<close>

record reputation_scores =
  scores_per_authority :: "nat list"
  scores_commit_range :: commit_range

definition reputation_scores_new :: "commit_range \<Rightarrow> nat list \<Rightarrow> reputation_scores" where
  "reputation_scores_new r scores = \<lparr>scores_per_authority = scores, scores_commit_range = r\<rparr>"

definition highest_score :: "reputation_scores \<Rightarrow> nat" where
  "highest_score rs = (if scores_per_authority rs = [] then 0 else Max (set (scores_per_authority rs)))"

definition authorities_by_score ::
  "committee \<Rightarrow> reputation_scores \<Rightarrow> panic + (authority_index \<times> nat) list" where
  "authorities_by_score c rs =
     rmap (\<lambda>(i, score). rbind (rexpect InvalidScoreIndex (to_authority_index c i)) (\<lambda>a. Inr (a, score)))
       (enumerate 0 (scores_per_authority rs))"

record commit_info =
  committed_rounds :: "round_number list"
  info_scores :: reputation_scores

subsection \<open>The scoring sub-dag\<close>

record scoring_subdag =
  sd_commit_range :: "commit_range option"
  sd_leaders :: "block_ref fset"
  sd_votes :: "(block_ref, stake_aggregator) fmap"

definition scoring_subdag_new :: scoring_subdag where
  "scoring_subdag_new = \<lparr>sd_commit_range = None, sd_leaders = {||}, sd_votes = fmempty\<rparr>"

text \<open>The body of the loop over the ancestors of a block.\<close>

definition score_ancestor ::
  "committee \<Rightarrow> verified_block \<Rightarrow> block_ref \<Rightarrow> scoring_subdag \<Rightarrow> panic + scoring_subdag" where
  "score_ancestor c b anc sd =
    (if br_round anc \<noteq> vb_round b - 1 then Inr sd
     else
       rbind (if anc |\<in>| sd_leaders sd
              then (if fmlookup (sd_votes sd) (reference b) \<noteq> None then Inl DuplicateVote
                    else Inr (sd\<lparr>sd_votes := fmupd (reference b) aggregator_new (sd_votes sd)\<rparr>))
              else Inr sd) (\<lambda>sd.
       case fmlookup (sd_votes sd) anc of
         None \<Rightarrow> Inr sd
       | Some agg \<Rightarrow>
           rbind (aggregator_add quorum_is_threshold (vb_author b) c agg) (\<lambda>(_, agg').
             Inr (sd\<lparr>sd_votes := fmupd anc agg' (sd_votes sd)\<rparr>))))"

definition score_block ::
  "committee \<Rightarrow> verified_block \<Rightarrow> scoring_subdag \<Rightarrow> panic + scoring_subdag" where
  "score_block c b = rfold (score_ancestor c b) (vb_ancestors b)"

definition add_subdag ::
  "committee \<Rightarrow> committed_sub_dag \<Rightarrow> scoring_subdag \<Rightarrow> panic + scoring_subdag" where
  "add_subdag c sub sd =
    (let i = cr_index (csd_commit_ref sub) in
     rbind (case sd_commit_range sd of
              Some r \<Rightarrow> range_extend_to r i
            | None \<Rightarrow> Inr (commit_range_new i i)) (\<lambda>r.
     rfold (score_block c) (csd_blocks sub)
       (sd\<lparr>sd_commit_range := Some r, sd_leaders := finsert (csd_leader sub) (sd_leaders sd)\<rparr>)))"

definition add_subdags ::
  "committee \<Rightarrow> committed_sub_dag list \<Rightarrow> scoring_subdag \<Rightarrow> panic + scoring_subdag" where
  "add_subdags c = rfold (add_subdag c)"

definition add_score :: "block_ref \<times> stake_aggregator \<Rightarrow> nat list \<Rightarrow> panic + nat list" where
  "add_score = (\<lambda>(v, agg) scores.
     if br_author v < length scores
     then Inr (scores[br_author v := wrap64 (scores ! br_author v + agg_stake agg)])
     else Inl IndexOutOfBounds)"

definition distributed_votes_scores :: "committee \<Rightarrow> scoring_subdag \<Rightarrow> panic + nat list" where
  "distributed_votes_scores c sd =
     rfold add_score (sorted_list_of_fmap (sd_votes sd)) (replicate (committee_size c) 0)"

definition calculate_distributed_vote_scores ::
  "committee \<Rightarrow> scoring_subdag \<Rightarrow> panic + reputation_scores" where
  "calculate_distributed_vote_scores c sd =
     rbind (distributed_votes_scores c sd) (\<lambda>scores.
     rbind (rexpect CommitRangeUnset (sd_commit_range sd)) (\<lambda>r.
     Inr (reputation_scores_new r scores)))"

definition scored_subdags_count :: "scoring_subdag \<Rightarrow> panic + nat" where
  "scored_subdags_count sd = (case sd_commit_range sd of Some r \<Rightarrow> range_size r | None \<Rightarrow> Inr 0)"

definition scoring_is_empty :: "scoring_subdag \<Rightarrow> bool" where
  "scoring_is_empty sd \<longleftrightarrow>
     sd_leaders sd = {||} \<and> sd_votes sd = fmempty \<and> sd_commit_range sd = None"

definition scoring_clear :: "scoring_subdag \<Rightarrow> scoring_subdag" where
  "scoring_clear sd = sd\<lparr>sd_leaders := {||}, sd_votes := fmempty, sd_commit_range := None\<rparr>"

subsection \<open>Invariant\<close>

definition scoring_inv :: "committee \<Rightarrow> scoring_subdag \<Rightarrow> bool" where
  "scoring_inv c sd \<longleftrightarrow>
     (\<forall>v agg. fmlookup (sd_votes sd) v = Some agg \<longrightarrow>
        is_valid_index c (br_author v) \<and> aggregator_inv c agg)"

lemma scoring_new_inv [simp]: "scoring_inv c scoring_subdag_new"
  by (simp add: scoring_inv_def scoring_subdag_new_def)

lemma scoring_clear_empty: "scoring_is_empty (scoring_clear sd)"
  by (simp add: scoring_is_empty_def scoring_clear_def)

subsection \<open>What a block adds to the votes\<close>

text \<open>
  The abstract state is the map from votes to the authors that link to them. A block becomes a vote
  without links if it links to a leader of the previous round, and its author is added to every
  vote of the previous round it links to.
\<close>

definition voters :: "scoring_subdag \<Rightarrow> block_ref \<Rightarrow> authority_index set option" where
  "voters sd v = map_option (\<lambda>agg. fset (votes agg)) (fmlookup (sd_votes sd) v)"

definition strong_links :: "verified_block \<Rightarrow> block_ref set" where
  "strong_links b = {a \<in> set (vb_ancestors b). br_round a = vb_round b - 1}"

definition count_block ::
  "block_ref set \<Rightarrow> verified_block \<Rightarrow> (block_ref \<Rightarrow> authority_index set option)
     \<Rightarrow> block_ref \<Rightarrow> authority_index set option" where
  "count_block L b m v =
    (if v = reference b \<and> strong_links b \<inter> L \<noteq> {} then Some {}
     else if v \<in> strong_links b then map_option (insert (vb_author b)) (m v)
     else m v)"

lemma voters_None: "voters sd v = None \<longleftrightarrow> fmlookup (sd_votes sd) v = None"
  by (simp add: voters_def)

lemma add_voter:
  assumes "committee_base c" "scoring_inv c sd" "is_valid_index c a"
  shows "\<exists>sd'. (case fmlookup (sd_votes sd) anc of None \<Rightarrow> Inr sd
       | Some agg \<Rightarrow> rbind (aggregator_add quorum_is_threshold a c agg) (\<lambda>(_, agg').
             Inr (sd\<lparr>sd_votes := fmupd anc agg' (sd_votes sd)\<rparr>))) = Inr sd'
    \<and> scoring_inv c sd' \<and> sd_leaders sd' = sd_leaders sd \<and> sd_commit_range sd' = sd_commit_range sd
    \<and> voters sd' = (\<lambda>v. if v = anc then map_option (insert a) (voters sd v) else voters sd v)"
proof (cases "fmlookup (sd_votes sd) anc")
  case None
  then show ?thesis using assms(2) by (auto simp: voters_def)
next
  case (Some agg)
  then have "aggregator_inv c agg" using assms(2) by (auto simp: scoring_inv_def)
  from quorum_votes.aggregator_add_ok [OF assms(1) this assms(3)] Some show ?thesis
    using assms(2) by (fastforce simp: scoring_inv_def voters_def)
qed

lemma score_ancestor_ok:
  assumes "committee_base c" "scoring_inv c sd" "is_valid_index c (vb_author b)"
    and "anc \<noteq> reference b"
    and "anc \<in> fset (sd_leaders sd) \<Longrightarrow> br_round anc = vb_round b - 1 \<Longrightarrow> voters sd (reference b) = None"
  defines "strong \<equiv> br_round anc = vb_round b - 1"
  shows "\<exists>sd'. score_ancestor c b anc sd = Inr sd' \<and> scoring_inv c sd'
    \<and> sd_leaders sd' = sd_leaders sd \<and> sd_commit_range sd' = sd_commit_range sd
    \<and> voters sd' = (\<lambda>v. if strong \<and> v = reference b \<and> anc |\<in>| sd_leaders sd then Some {}
        else if strong \<and> v = anc then map_option (insert (vb_author b)) (voters sd v)
        else voters sd v)"
proof (cases strong)
  case False
  then show ?thesis using assms by (auto simp: score_ancestor_def)
next
  case True
  define sd1 where "sd1 = (if anc |\<in>| sd_leaders sd
     then sd\<lparr>sd_votes := fmupd (reference b) aggregator_new (sd_votes sd)\<rparr> else sd)"
  have pre: "(if anc |\<in>| sd_leaders sd
     then (if fmlookup (sd_votes sd) (reference b) \<noteq> None then Inl DuplicateVote
           else Inr (sd\<lparr>sd_votes := fmupd (reference b) aggregator_new (sd_votes sd)\<rparr>))
     else Inr sd) = Inr sd1"
    using True assms(5) by (auto simp: sd1_def strong_def voters_None)
  have 1: "score_ancestor c b anc sd = (case fmlookup (sd_votes sd1) anc of None \<Rightarrow> Inr sd1
       | Some agg \<Rightarrow> rbind (aggregator_add quorum_is_threshold (vb_author b) c agg) (\<lambda>(_, agg').
             Inr (sd1\<lparr>sd_votes := fmupd anc agg' (sd_votes sd1)\<rparr>)))"
    unfolding score_ancestor_def pre rbind_simps using True by (simp add: strong_def)
  have inv1: "scoring_inv c sd1"
    using assms(2,3) by (auto simp: sd1_def scoring_inv_def)
  have v1: "voters sd1 = (\<lambda>v. if v = reference b \<and> anc |\<in>| sd_leaders sd then Some {} else voters sd v)"
    by (auto simp: sd1_def voters_def)
  have "sd_leaders sd1 = sd_leaders sd" "sd_commit_range sd1 = sd_commit_range sd"
    by (auto simp: sd1_def)
  with add_voter [OF assms(1) inv1 assms(3), of anc] True show ?thesis
    unfolding 1 v1 using assms(4) by (auto simp: fun_eq_iff)
qed

lemma score_ancestors_ok:
  assumes "committee_base c" "scoring_inv c sd" "is_valid_index c (vb_author b)"
    and "distinct as" "reference b \<notin> set as"
    and "\<And>a. a \<in> set as \<Longrightarrow> a |\<in>| sd_leaders sd \<Longrightarrow> br_round a = vb_round b - 1
      \<Longrightarrow> voters sd (reference b) = None"
    and "\<And>a a'. a \<in> set as \<Longrightarrow> a' \<in> set as \<Longrightarrow> a |\<in>| sd_leaders sd \<Longrightarrow> a' |\<in>| sd_leaders sd
      \<Longrightarrow> br_round a = vb_round b - 1 \<Longrightarrow> br_round a' = vb_round b - 1 \<Longrightarrow> a = a'"
  defines "S \<equiv> {a \<in> set as. br_round a = vb_round b - 1}"
  shows "\<exists>sd'. rfold (score_ancestor c b) as sd = Inr sd' \<and> scoring_inv c sd'
    \<and> sd_leaders sd' = sd_leaders sd \<and> sd_commit_range sd' = sd_commit_range sd
    \<and> voters sd' = (\<lambda>v. if v = reference b \<and> S \<inter> fset (sd_leaders sd) \<noteq> {} then Some {}
        else if v \<in> S then map_option (insert (vb_author b)) (voters sd v) else voters sd v)"
  using assms(2,4-7) unfolding S_def
proof (induction as arbitrary: sd)
  case Nil
  then show ?case by simp
next
  case (Cons a as)
  obtain sd1 where 1: "score_ancestor c b a sd = Inr sd1" "scoring_inv c sd1"
    "sd_leaders sd1 = sd_leaders sd" "sd_commit_range sd1 = sd_commit_range sd"
    "voters sd1 = (\<lambda>v. if br_round a = vb_round b - 1 \<and> v = reference b \<and> a |\<in>| sd_leaders sd
        then Some {}
        else if br_round a = vb_round b - 1 \<and> v = a
        then map_option (insert (vb_author b)) (voters sd v) else voters sd v)"
    using score_ancestor_ok [OF assms(1) Cons.prems(1) assms(3), of a] Cons.prems(3,4) by auto
  have "voters sd1 (reference b) = None"
    if "x \<in> set as" "x |\<in>| sd_leaders sd" "br_round x = vb_round b - 1" for x
    using that Cons.prems(2,3) Cons.prems(4) [of x] Cons.prems(5) [of a x] unfolding 1(5) by auto
  then obtain sd2 where 2: "rfold (score_ancestor c b) as sd1 = Inr sd2" "scoring_inv c sd2"
    "sd_leaders sd2 = sd_leaders sd" "sd_commit_range sd2 = sd_commit_range sd"
    "voters sd2 = (\<lambda>v. if v = reference b
        \<and> {a \<in> set as. br_round a = vb_round b - 1} \<inter> fset (sd_leaders sd) \<noteq> {} then Some {}
        else if v \<in> {a \<in> set as. br_round a = vb_round b - 1}
        then map_option (insert (vb_author b)) (voters sd1 v) else voters sd1 v)"
    using Cons.IH [OF 1(2)] Cons.prems(2,3,5) unfolding 1(3,4) by auto
  have "voters sd2 = (\<lambda>v. if v = reference b
        \<and> {x \<in> set (a # as). br_round x = vb_round b - 1} \<inter> fset (sd_leaders sd) \<noteq> {} then Some {}
        else if v \<in> {x \<in> set (a # as). br_round x = vb_round b - 1}
        then map_option (insert (vb_author b)) (voters sd v) else voters sd v)"
    unfolding 2(5) 1(5) using Cons.prems(2,3) by (auto simp: fun_eq_iff)
  then show ?case using 1(1) 2(1-4) by auto
qed

lemma score_block_ok:
  assumes "committee_base c" "scoring_inv c sd" "is_valid_index c (vb_author b)"
    and "distinct (vb_ancestors b)" "\<forall>a \<in> set (vb_ancestors b). br_round a < vb_round b"
    and "voters sd (reference b) = None"
    and "\<forall>a \<in> strong_links b \<inter> fset (sd_leaders sd).
           \<forall>a' \<in> strong_links b \<inter> fset (sd_leaders sd). a = a'"
  shows "\<exists>sd'. score_block c b sd = Inr sd' \<and> scoring_inv c sd'
    \<and> sd_leaders sd' = sd_leaders sd \<and> sd_commit_range sd' = sd_commit_range sd
    \<and> voters sd' = count_block (fset (sd_leaders sd)) b (voters sd)"
proof -
  have "reference b \<notin> set (vb_ancestors b)" using assms(5) by fastforce
  from score_ancestors_ok [OF assms(1-4) this] assms(6,7) show ?thesis
    by (fastforce simp: score_block_def count_block_def strong_links_def fun_eq_iff)
qed

subsection \<open>The scores\<close>

lemma wrap64_add_left [simp]: "wrap64 (wrap64 a + b) = wrap64 (a + b)"
  by (simp add: wrap64_def mod_add_left_eq)

lemma add_scores:
  assumes "\<forall>(v, agg) \<in> set xs. br_author v < length scores"
  shows "\<exists>scores'. rfold add_score xs scores = Inr scores' \<and> length scores' = length scores
    \<and> (\<forall>a < length scores. wrap64 (scores' ! a) = wrap64 (scores ! a +
         (\<Sum>(v, agg) \<leftarrow> xs. if br_author v = a then agg_stake agg else 0)))
    \<and> ((\<forall>a < length scores. scores ! a < 2 ^ 64) \<longrightarrow> (\<forall>a < length scores. scores' ! a < 2 ^ 64))"
  using assms
proof (induction xs arbitrary: scores)
  case Nil
  then show ?case by simp
next
  case (Cons x xs)
  obtain v agg where x: "x = (v, agg)" by force
  let ?s1 = "scores[br_author v := wrap64 (scores ! br_author v + agg_stake agg)]"
  have step: "add_score x scores = Inr ?s1" using Cons.prems x by (simp add: add_score_def)
  obtain s2 where s2: "rfold add_score xs ?s1 = Inr s2" "length s2 = length scores"
    "\<forall>a < length scores. wrap64 (s2 ! a) = wrap64 (?s1 ! a +
         (\<Sum>(v, agg) \<leftarrow> xs. if br_author v = a then agg_stake agg else 0))"
    "(\<forall>a < length scores. ?s1 ! a < 2 ^ 64) \<longrightarrow> (\<forall>a < length scores. s2 ! a < 2 ^ 64)"
    using Cons.IH [of ?s1] Cons.prems by auto
  have "(\<forall>a < length scores. scores ! a < 2 ^ 64) \<longrightarrow> (\<forall>a < length scores. ?s1 ! a < 2 ^ 64)"
    by (cases "br_author v < length scores") (auto simp: nth_list_update wrap64_def)
  then show ?case using step s2 x by (auto simp: nth_list_update add.assoc)
qed

lemma sorted_fmap_sum:
  fixes f :: "'a :: linorder \<Rightarrow> 'b \<Rightarrow> nat"
  shows "(\<Sum>(k, v) \<leftarrow> sorted_list_of_fmap m. f k v) = (\<Sum>k \<in> fset (fmdom m). f k (the (fmlookup m k)))"
  by (simp add: sorted_list_of_fmap_def comp_def sorted_list_of_fset.rep_eq
    sum_list_distinct_conv_sum_set)

lemma distributed_scores:
  assumes "committee_wf c" "scoring_inv c sd"
  shows "\<exists>scores. distributed_votes_scores c sd = Inr scores \<and> length scores = committee_size c
    \<and> (\<forall>a < committee_size c. scores ! a =
         wrap64 (\<Sum>v \<in> {v \<in> fset (fmdom (sd_votes sd)). br_author v = a}. weight c (the (voters sd v))))"
proof -
  let ?xs = "sorted_list_of_fmap (sd_votes sd)"
  have mem: "fmlookup (sd_votes sd) v = Some agg" if "(v, agg) \<in> set ?xs" for v agg
    using that by (auto simp: sorted_list_of_fmap_def fmlookup_dom_iff)
  then have "\<forall>(v, agg) \<in> set ?xs. br_author v < length (replicate (committee_size c) 0 :: nat list)"
    using assms(2) by (fastforce simp: scoring_inv_def is_valid_index_def)
  from add_scores [OF this] obtain scores where s: "rfold add_score ?xs (replicate (committee_size c) 0) = Inr scores"
    "length scores = committee_size c"
    "\<forall>a < committee_size c. wrap64 (scores ! a) = wrap64
         (\<Sum>(v, agg) \<leftarrow> ?xs. if br_author v = a then agg_stake agg else 0)"
    "\<forall>a < committee_size c. scores ! a < 2 ^ 64"
    by auto
  have "(\<Sum>(v, agg) \<leftarrow> ?xs. if br_author v = a then agg_stake agg else 0) =
      (\<Sum>v \<in> {v \<in> fset (fmdom (sd_votes sd)). br_author v = a}. weight c (the (voters sd v)))" for a
  proof -
    have "(\<Sum>(v, agg) \<leftarrow> ?xs. if br_author v = a then agg_stake agg else 0) =
        (\<Sum>v \<in> fset (fmdom (sd_votes sd)). if br_author v = a
           then agg_stake (the (fmlookup (sd_votes sd) v)) else 0)"
      by (rule sorted_fmap_sum)
    also have "\<dots> = (\<Sum>v \<in> fset (fmdom (sd_votes sd)). if br_author v = a
           then weight c (the (voters sd v)) else 0)"
      using assms(2)
      by (intro sum.cong) (auto simp: scoring_inv_def voters_def aggregator_inv_def fmlookup_dom_iff)
    finally show ?thesis by (simp add: sum.inter_filter)
  qed
  then show ?thesis using s unfolding distributed_votes_scores_def by fastforce
qed

text \<open>
  C26. The score of an authority is the total stake, over its votes, of the distinct authors that
  link to the vote (modulo the width of \<open>u64\<close>); computing it never panics.
\<close>

theorem scores_are_vote_stakes:
  assumes "committee_wf c" "scoring_inv c sd"
  shows "\<exists>scores. distributed_votes_scores c sd = Inr scores \<and> length scores = committee_size c
    \<and> (\<forall>a < committee_size c. scores ! a =
         wrap64 (\<Sum>v \<in> {v \<in> fset (fmdom (sd_votes sd)). br_author v = a}. weight c (the (voters sd v))))"
  by (rule distributed_scores [OF assms])

text \<open>
  C27. Scoring a block of a valid author with distinct ancestors of lower rounds, that is not a vote
  yet and links to at most one leader of the previous round, never panics and has exactly the
  described effect on the votes.
\<close>

theorem score_block_counts:
  assumes "committee_wf c" "scoring_inv c sd" "is_valid_index c (vb_author b)"
    and "distinct (vb_ancestors b)" "\<forall>a \<in> set (vb_ancestors b). br_round a < vb_round b"
    and "voters sd (reference b) = None"
    and "\<forall>a \<in> strong_links b \<inter> fset (sd_leaders sd).
           \<forall>a' \<in> strong_links b \<inter> fset (sd_leaders sd). a = a'"
  shows "\<exists>sd'. score_block c b sd = Inr sd' \<and> scoring_inv c sd'
    \<and> voters sd' = count_block (fset (sd_leaders sd)) b (voters sd)"
  using score_block_ok [OF committee_wf_base [OF assms(1)] assms(2-7)] by blast

text \<open>
  C28. A block that links to two committed leaders of the previous round panics: the assertion on
  duplicate votes holds only with one leader per round.
\<close>

theorem score_block_two_leaders_panics:
  assumes "committee_wf c" "scoring_inv c sd" "is_valid_index c (vb_author b)"
    and "vb_ancestors b = xs @ a' # ys" "distinct (xs @ [a'])"
    and "\<forall>x \<in> set xs. br_round x < vb_round b" "br_round a' + 1 = vb_round b"
    and "voters sd (reference b) = None" "a' |\<in>| sd_leaders sd"
    and "{x \<in> set xs. br_round x + 1 = vb_round b \<and> x |\<in>| sd_leaders sd} = {a}"
  shows "score_block c b sd = Inl DuplicateVote"
proof -
  have pos: "0 < vb_round b" using assms(7) by simp
  have strong: "br_round x = vb_round b - 1 \<longleftrightarrow> br_round x + 1 = vb_round b" for x
    using pos by auto
  have only: "x \<in> set xs \<and> br_round x + 1 = vb_round b \<and> x |\<in>| sd_leaders sd \<longleftrightarrow> x = a" for x
    using assms(10) by auto
  have "reference b \<notin> set xs" using assms(6) by fastforce
  moreover have "x = x'" if "x \<in> set xs" "x' \<in> set xs" "x |\<in>| sd_leaders sd" "x' |\<in>| sd_leaders sd"
    "br_round x = vb_round b - 1" "br_round x' = vb_round b - 1" for x x'
    using that only unfolding strong by metis
  ultimately obtain sd1 where 1: "rfold (score_ancestor c b) xs sd = Inr sd1"
    "sd_leaders sd1 = sd_leaders sd"
    "voters sd1 = (\<lambda>v. if v = reference b \<and> {a \<in> set xs. br_round a = vb_round b - 1}
          \<inter> fset (sd_leaders sd) \<noteq> {} then Some {}
        else if v \<in> {a \<in> set xs. br_round a = vb_round b - 1}
        then map_option (insert (vb_author b)) (voters sd v) else voters sd v)"
    using score_ancestors_ok [OF committee_wf_base [OF assms(1)] assms(2,3), of xs] assms(5,8) by auto
  have "voters sd1 (reference b) = Some {}"
    unfolding 1(3) strong using assms(10) by auto
  then have "fmlookup (sd_votes sd1) (reference b) \<noteq> None"
    using voters_None [of sd1 "reference b"] by simp
  then have "score_ancestor c b a' sd1 = Inl DuplicateVote"
    using assms(7,9) 1(2) pos by (auto simp: score_ancestor_def)
  then show ?thesis using 1(1) by (simp add: score_block_def assms(4) rfold_append)
qed

subsection \<open>Witnesses\<close>

definition demo_scoring :: scoring_subdag where
  "demo_scoring = \<lparr>sd_commit_range = Some (commit_range_new 1 1),
     sd_leaders = {|BlockRef 1 0 0, BlockRef 1 2 0|},
     sd_votes = fmupd (BlockRef 1 3 0) aggregator_new fmempty\<rparr>"

lemma demo_scoring_inv: "scoring_inv demo_committee demo_scoring"
  by (auto simp: scoring_inv_def demo_scoring_def)

lemma demo_voters: "voters demo_scoring v = (if v = BlockRef 1 3 0 then Some {} else None)"
  by (simp add: voters_def demo_scoring_def)

theorem score_block_counts_witness:
  "\<exists>sd'. score_block demo_committee (demo_vb 2 1 5 9 [BlockRef 1 1 0, BlockRef 1 0 0, BlockRef 1 3 0])
       demo_scoring = Inr sd'
    \<and> voters sd' (BlockRef 2 1 5) = Some {} \<and> voters sd' (BlockRef 1 3 0) = Some {1}"
proof -
  let ?b = "demo_vb 2 1 5 9 [BlockRef 1 1 0, BlockRef 1 0 0, BlockRef 1 3 0]"
  have "strong_links ?b = {BlockRef 1 1 0, BlockRef 1 0 0, BlockRef 1 3 0}"
    by (auto simp: strong_links_def)
  moreover have "fset (sd_leaders demo_scoring) = {BlockRef 1 0 0, BlockRef 1 2 0}"
    by (simp add: demo_scoring_def)
  ultimately show ?thesis
    using score_block_counts [OF demo_committee_wf demo_scoring_inv, of ?b]
    by (auto simp: demo_voters count_block_def)
qed

theorem score_block_two_leaders_panics_witness:
  "score_block demo_committee (demo_vb 2 1 5 9 [BlockRef 1 1 0, BlockRef 1 0 0, BlockRef 1 2 0])
     demo_scoring = Inl DuplicateVote"
  by (rule score_block_two_leaders_panics [OF demo_committee_wf demo_scoring_inv,
        of _ "[BlockRef 1 1 0, BlockRef 1 0 0]" "BlockRef 1 2 0" "[]" "BlockRef 1 0 0"])
    (auto simp: voters_def demo_scoring_def)

theorem scores_are_vote_stakes_witness:
  "\<exists>scores. distributed_votes_scores demo_committee
     (demo_scoring\<lparr>sd_votes := fmupd (BlockRef 1 3 0) \<lparr>votes = {|0, 1|}, agg_stake = 2\<rparr> fmempty\<rparr>)
     = Inr scores \<and> scores ! 3 = 2"
proof -
  let ?sd = "demo_scoring\<lparr>sd_votes := fmupd (BlockRef 1 3 0) \<lparr>votes = {|0, 1|}, agg_stake = 2\<rparr> fmempty\<rparr>"
  have inv: "scoring_inv demo_committee ?sd"
    by (auto simp: scoring_inv_def aggregator_inv_def demo_stk)
  have "{v. v = BlockRef 1 3 0 \<and> br_author v = 3} = {BlockRef 1 3 0}" by auto
  then show ?thesis
    using scores_are_vote_stakes [OF demo_committee_wf inv]
    by (auto simp: demo_size voters_def demo_stk wrap64_def)
qed

end
