(* ===== verification/Mem_Store.thy ===== *)
theory Mem_Store
  imports Leader_Scoring "HOL-Library.Product_Lexorder"
begin

section \<open>Storage of blocks and commits\<close>

text \<open>
  Models \<open>consensus/core/src/storage/mod.rs\<close> (the trait \<open>Store\<close> and \<open>WriteBatch\<close>),
  \<open>consensus/core/src/storage/mem_store.rs\<close> and \<open>load_committed_subdag_from_store\<close> of
  \<open>consensus/core/src/commit.rs\<close>. The in-memory store keeps the same tables as the persistent one;
  the operations of the trait return \<open>ConsensusResult\<close>, which is always \<open>Ok\<close> here, so they are
  modelled without it. The locale \<open>block_table\<close> states what its clients rely on, the lookup of a
  block after a write, and is interpreted on the operations of the store.
\<close>

record write_batch =
  wb_blocks :: "verified_block list"
  wb_commits :: "trusted_commit list"
  wb_commit_info :: "(commit_ref \<times> commit_info) list"
  wb_finalized_commits :: "(commit_ref \<times> (block_ref, transaction_index list) fmap) list"

record mem_store =
  ms_blocks :: "(round_number \<times> authority_index \<times> block_digest, verified_block) fmap"
  digests_by_authorities :: "(authority_index \<times> round_number \<times> block_digest) fset"
  ms_commits :: "(commit_index \<times> commit_digest, trusted_commit) fmap"
  ms_commit_votes :: "(commit_index \<times> commit_digest \<times> block_ref) fset"
  ms_commit_info :: "(commit_index \<times> commit_digest, commit_info) fmap"
  ms_finalized_commits ::
    "(commit_index \<times> commit_digest, (block_ref, transaction_index list) fmap) fmap"

definition mem_store_new :: mem_store where
  "mem_store_new = \<lparr>ms_blocks = fmempty, digests_by_authorities = {||}, ms_commits = fmempty,
     ms_commit_votes = {||}, ms_commit_info = fmempty, ms_finalized_commits = fmempty\<rparr>"

subsection \<open>Writing\<close>

definition block_key :: "block_ref \<Rightarrow> round_number \<times> authority_index \<times> block_digest" where
  "block_key r = (br_round r, br_author r, br_digest r)"

definition write_block :: "verified_block \<Rightarrow> mem_store \<Rightarrow> mem_store" where
  "write_block b ms =
    (let r = reference b in
     ms\<lparr>ms_blocks := fmupd (block_key r) b (ms_blocks ms),
        digests_by_authorities :=
          finsert (br_author r, br_round r, br_digest r) (digests_by_authorities ms),
        ms_commit_votes := fold (\<lambda>v. finsert (cr_index v, cr_digest v, r))
          (block_commit_votes (vb_inner b)) (ms_commit_votes ms)\<rparr>)"

definition write_commit :: "trusted_commit \<Rightarrow> mem_store \<Rightarrow> mem_store" where
  "write_commit c ms =
     ms\<lparr>ms_commits := fmupd (commit_idx (trusted_inner c), trusted_digest c) c (ms_commits ms)\<rparr>"

definition write_commit_info :: "commit_ref \<times> commit_info \<Rightarrow> mem_store \<Rightarrow> mem_store" where
  "write_commit_info = (\<lambda>(r, info) ms.
     ms\<lparr>ms_commit_info := fmupd (cr_index r, cr_digest r) info (ms_commit_info ms)\<rparr>)"

definition write_finalized ::
  "commit_ref \<times> (block_ref, transaction_index list) fmap \<Rightarrow> mem_store \<Rightarrow> mem_store" where
  "write_finalized = (\<lambda>(r, rejected) ms.
     ms\<lparr>ms_finalized_commits := fmupd (cr_index r, cr_digest r) rejected (ms_finalized_commits ms)\<rparr>)"

definition store_write :: "write_batch \<Rightarrow> mem_store \<Rightarrow> mem_store" where
  "store_write wb ms =
     fold write_finalized (wb_finalized_commits wb)
       (fold write_commit_info (wb_commit_info wb)
         (fold write_commit (wb_commits wb)
           (fold write_block (wb_blocks wb) ms)))"

subsection \<open>Reading\<close>

definition read_block :: "mem_store \<Rightarrow> block_ref \<Rightarrow> verified_block option" where
  "read_block ms r = fmlookup (ms_blocks ms) (block_key r)"

definition read_blocks :: "mem_store \<Rightarrow> block_ref list \<Rightarrow> verified_block option list" where
  "read_blocks ms rs = map (read_block ms) rs"

definition store_contains_blocks :: "mem_store \<Rightarrow> block_ref list \<Rightarrow> bool list" where
  "store_contains_blocks ms rs = map (\<lambda>r. block_key r |\<in>| fmdom (ms_blocks ms)) rs"

text \<open>A loop that pushes an element and stops once \<open>limit\<close> of them are there.\<close>

fun push_until :: "nat \<Rightarrow> 'a list \<Rightarrow> 'a list \<Rightarrow> 'a list" where
  "push_until limit acc [] = acc"
| "push_until limit acc (x # xs) =
     (let acc' = acc @ [x] in if length acc' \<ge> limit then acc' else push_until limit acc' xs)"

definition ref_of_digest_key :: "authority_index \<times> round_number \<times> block_digest \<Rightarrow> block_ref" where
  "ref_of_digest_key = (\<lambda>(a, r, d). BlockRef r a d)"

definition scan_blocks_by_author_in_range ::
  "mem_store \<Rightarrow> authority_index \<Rightarrow> round_number \<Rightarrow> round_number \<Rightarrow> nat \<Rightarrow> panic + verified_block list" where
  "scan_blocks_by_author_in_range ms a start_round end_round limit =
    (let ks = filter (\<lambda>k. (a, start_round, digest_min) \<le> k \<and> k < (a, end_round, digest_min))
                (sorted_list_of_fset (digests_by_authorities ms));
         rs = push_until limit [] (map ref_of_digest_key ks)
     in rmap (rexpect BlockNotInStore) (read_blocks ms rs))"

definition scan_blocks_by_author ::
  "mem_store \<Rightarrow> authority_index \<Rightarrow> round_number \<Rightarrow> panic + verified_block list" where
  "scan_blocks_by_author ms a start_round =
     scan_blocks_by_author_in_range ms a start_round u32_max u64_max"

definition scan_last_blocks_by_author ::
  "mem_store \<Rightarrow> authority_index \<Rightarrow> nat \<Rightarrow> round_number option \<Rightarrow> panic + verified_block list" where
  "scan_last_blocks_by_author ms a num_of_rounds before_round_opt =
    (let before_round = (case before_round_opt of Some r \<Rightarrow> r | None \<Rightarrow> u32_max);
         ks = filter (\<lambda>k. (a, 0, digest_min) \<le> k \<and> k \<le> (a, before_round, digest_max))
                (sorted_list_of_fset (digests_by_authorities ms));
         rs = rev (take num_of_rounds (rev (map ref_of_digest_key ks)))
     in rmap (rexpect BlockNotInStore) (read_blocks ms rs))"

definition last_key_value :: "('k :: linorder, 'v) fmap \<Rightarrow> ('k \<times> 'v) option" where
  "last_key_value m =
     (case rev (sorted_list_of_fmap m) of [] \<Rightarrow> None | kv # _ \<Rightarrow> Some kv)"

definition read_last_commit :: "mem_store \<Rightarrow> trusted_commit option" where
  "read_last_commit ms = map_option snd (last_key_value (ms_commits ms))"

definition scan_commits :: "mem_store \<Rightarrow> commit_range \<Rightarrow> trusted_commit list" where
  "scan_commits ms rng =
     map snd (filter (\<lambda>(k, _). (range_start rng, 0) \<le> k \<and> k \<le> (range_end rng, - 1))
       (sorted_list_of_fmap (ms_commits ms)))"

definition read_commit_votes :: "mem_store \<Rightarrow> commit_index \<Rightarrow> block_ref list" where
  "read_commit_votes ms i =
     map (\<lambda>(_, _, r). r)
       (filter (\<lambda>k. (i, 0, block_ref_min) \<le> k \<and> k \<le> (i, - 1, block_ref_max))
         (sorted_list_of_fset (ms_commit_votes ms)))"

definition read_last_commit_info :: "mem_store \<Rightarrow> (commit_ref \<times> commit_info) option" where
  "read_last_commit_info ms =
     map_option (\<lambda>((i, d), info). (\<lparr>cr_index = i, cr_digest = d\<rparr>, info))
       (last_key_value (ms_commit_info ms))"

definition read_last_finalized_commit :: "mem_store \<Rightarrow> commit_ref option" where
  "read_last_finalized_commit ms =
     map_option (\<lambda>((i, d), _). \<lparr>cr_index = i, cr_digest = d\<rparr>)
       (last_key_value (ms_finalized_commits ms))"

definition read_rejected_transactions ::
  "mem_store \<Rightarrow> commit_ref \<Rightarrow> (block_ref, transaction_index list) fmap option" where
  "read_rejected_transactions ms r = fmlookup (ms_finalized_commits ms) (cr_index r, cr_digest r)"

text \<open>\<open>load_committed_subdag_from_store\<close>; the loop remembers the last index of the leader.\<close>

definition load_committed_subdag_from_store ::
  "mem_store \<Rightarrow> trusted_commit \<Rightarrow> panic + committed_sub_dag" where
  "load_committed_subdag_from_store ms c =
     rbind (rmap (rexpect BlockNotInStore) (read_blocks ms (commit_blocks (trusted_inner c)))) (\<lambda>bs.
     rbind (rexpect LeaderNotInSubDag
              (find (\<lambda>b. reference b = commit_leader (trusted_inner c)) (rev bs))) (\<lambda>leader.
     let subdag = committed_sub_dag_new (reference leader) bs
           (commit_timestamp (trusted_inner c)) (commit_reference c)
     in Inr (case read_rejected_transactions ms (commit_reference c) of
          Some rejected \<Rightarrow> subdag\<lparr>decided_with_local_blocks := True,
            recovered_rejected_transactions := True, rejected_transactions_by_block := rejected\<rparr>
        | None \<Rightarrow> subdag\<lparr>decided_with_local_blocks := False,
            recovered_rejected_transactions := False\<rparr>)))"

subsection \<open>The table of blocks\<close>

text \<open>
  The interface: a table of blocks under their references, with lookup after insertion. A batch of
  blocks is written by inserting one after the other.
\<close>

lemma find_SomeD: "find P xs = Some x \<Longrightarrow> x \<in> set xs \<and> P x"
  by (induction xs) (auto split: if_splits)

lemma find_exists: "x \<in> set xs \<Longrightarrow> P x \<Longrightarrow> \<exists>y. find P xs = Some y"
  by (induction xs) auto

locale block_table =
  fixes inv :: "'s \<Rightarrow> bool"
    and lookup :: "'s \<Rightarrow> block_ref \<Rightarrow> verified_block option"
    and insert_block :: "verified_block \<Rightarrow> 's \<Rightarrow> 's"
  assumes inv_insert: "inv s \<Longrightarrow> inv (insert_block b s)"
    and lookup_insert: "inv s \<Longrightarrow> lookup (insert_block b s) r = (if r = reference b then Some b else lookup s r)"
    and lookup_reference: "inv s \<Longrightarrow> lookup s r = Some b \<Longrightarrow> reference b = r"
begin

lemma inv_fold: "inv s \<Longrightarrow> inv (fold insert_block bs s)"
  by (induction bs arbitrary: s) (auto intro: inv_insert)

lemma lookup_fold:
  "inv s \<Longrightarrow> lookup (fold insert_block bs s) r =
     (case find (\<lambda>b. reference b = r) (rev bs) of Some b \<Rightarrow> Some b | None \<Rightarrow> lookup s r)"
proof (induction bs rule: rev_induct)
  case Nil
  then show ?case by simp
next
  case (snoc b bs)
  then show ?case by (simp add: lookup_insert inv_fold)
qed

lemma lookup_fold_keeps:
  assumes "inv s" "lookup s r = Some b"
  shows "\<exists>b'. lookup (fold insert_block bs s) r = Some b'"
  using assms by (simp add: lookup_fold split: option.splits)

lemma lookup_fold_distinct:
  assumes "inv s" "distinct (map reference bs)" "b \<in> set bs"
  shows "lookup (fold insert_block bs s) (reference b) = Some b"
proof -
  have "find (\<lambda>x. reference x = reference b) (rev bs) = Some b"
  proof -
    obtain x where x: "find (\<lambda>x. reference x = reference b) (rev bs) = Some x"
      using find_exists [of b "rev bs" "\<lambda>x. reference x = reference b"] assms(3) by auto
    then have "x \<in> set bs" "reference x = reference b" by (auto dest: find_SomeD)
    with assms(2,3) have "x = b" by (auto simp: distinct_map inj_on_def)
    with x show ?thesis by simp
  qed
  then show ?thesis by (simp add: lookup_fold [OF assms(1)])
qed

end

definition mem_store_inv :: "mem_store \<Rightarrow> bool" where
  "mem_store_inv ms \<longleftrightarrow>
     (\<forall>k b. fmlookup (ms_blocks ms) k = Some b \<longrightarrow> k = block_key (reference b))
     \<and> (\<forall>a r d. (a, r, d) |\<in>| digests_by_authorities ms \<longleftrightarrow> (r, a, d) |\<in>| fmdom (ms_blocks ms))"

lemma block_key_eq [simp]: "block_key r = block_key r' \<longleftrightarrow> r = r'"
  by (cases r; cases r') (simp add: block_key_def)

lemma mem_store_new_inv: "mem_store_inv mem_store_new"
  by (simp add: mem_store_inv_def mem_store_new_def)

interpretation ms_table: block_table mem_store_inv read_block write_block
proof
  fix ms b r b'
  assume inv: "mem_store_inv ms"
  show "mem_store_inv (write_block b ms)"
    using inv by (auto simp: mem_store_inv_def write_block_def Let_def block_key_def)
  show "read_block (write_block b ms) r = (if r = reference b then Some b else read_block ms r)"
    by (auto simp: read_block_def write_block_def Let_def)
  show "reference b' = r" if "read_block ms r = Some b'"
  proof -
    have "block_key r = block_key (reference b')"
      using inv that unfolding mem_store_inv_def read_block_def by blast
    then show ?thesis by simp
  qed
qed

text \<open>The other tables of a batch do not touch the blocks.\<close>

lemma write_commits_blocks [simp]:
  "ms_blocks (fold write_commit cs ms) = ms_blocks ms
   \<and> digests_by_authorities (fold write_commit cs ms) = digests_by_authorities ms"
  by (induction cs arbitrary: ms) (simp_all add: write_commit_def)

lemma write_infos_blocks [simp]:
  "ms_blocks (fold write_commit_info is ms) = ms_blocks ms
   \<and> digests_by_authorities (fold write_commit_info is ms) = digests_by_authorities ms"
  by (induction "is" arbitrary: ms) (simp_all add: write_commit_info_def case_prod_beta)

lemma write_finalizeds_blocks [simp]:
  "ms_blocks (fold write_finalized fs ms) = ms_blocks ms
   \<and> digests_by_authorities (fold write_finalized fs ms) = digests_by_authorities ms"
  by (induction fs arbitrary: ms) (simp_all add: write_finalized_def case_prod_beta)

lemma store_write_read:
  "read_block (store_write wb ms) r = read_block (fold write_block (wb_blocks wb) ms) r"
  by (simp add: store_write_def read_block_def)

lemma store_write_inv: "mem_store_inv ms \<Longrightarrow> mem_store_inv (store_write wb ms)"
  using ms_table.inv_fold [of ms "wb_blocks wb"] by (simp add: store_write_def mem_store_inv_def)

subsection \<open>Scans\<close>

lemma push_until_take:
  "length acc < limit \<or> acc = [] \<Longrightarrow> push_until limit acc xs = acc @ take (max 1 (limit - length acc)) xs"
proof (induction xs arbitrary: acc)
  case Nil
  then show ?case by simp
next
  case (Cons x xs)
  show ?case
  proof (cases "limit \<le> length acc + 1")
    case True
    then have "max 1 (limit - length acc) = 1" by simp
    with True show ?thesis by (simp add: Let_def)
  next
    case False
    then have ih: "push_until limit (acc @ [x]) xs = (acc @ [x]) @ take (max 1 (limit - length (acc @ [x]))) xs"
      by (intro Cons.IH) auto
    have m: "max 1 (limit - length acc) = Suc (max 1 (limit - length (acc @ [x])))"
      using False by simp
    have "push_until limit acc (x # xs) = push_until limit (acc @ [x]) xs"
      using False by (simp add: Let_def)
    then show ?thesis unfolding ih m by simp
  qed
qed

text \<open>The references of an author in a range of rounds, in order.\<close>

lemma author_keys:
  fixes S :: "(authority_index \<times> round_number \<times> block_digest) fset"
  assumes "\<And>k. k |\<in>| S \<Longrightarrow> P k \<Longrightarrow> fst k = a"
  defines "rs \<equiv> map ref_of_digest_key (filter P (sorted_list_of_fset S))"
  shows "sorted_wrt (<) rs"
    and "r \<in> set rs \<longleftrightarrow> (br_author r, br_round r, br_digest r) |\<in>| S
      \<and> P (br_author r, br_round r, br_digest r)"
proof -
  have "sorted_wrt (<) (filter P (sorted_list_of_fset S))"
    by (intro sorted_wrt_filter sorted_list_of_fset_strict)
  then have "sorted_wrt (\<lambda>x y. ref_of_digest_key x < ref_of_digest_key y)
      (filter P (sorted_list_of_fset S))"
  proof (rule sorted_wrt_mono_rel [rotated])
    fix x y
    assume "x \<in> set (filter P (sorted_list_of_fset S))" "y \<in> set (filter P (sorted_list_of_fset S))"
      and less: "x < y"
    then have "fst x = a" "fst y = a" using assms(1) by auto
    with less show "ref_of_digest_key x < ref_of_digest_key y"
      by (cases x; cases y) (auto simp: ref_of_digest_key_def less_block_ref_iff)
  qed
  then show "sorted_wrt (<) rs" by (simp add: rs_def sorted_wrt_map)
  show "r \<in> set rs \<longleftrightarrow> (br_author r, br_round r, br_digest r) |\<in>| S
      \<and> P (br_author r, br_round r, br_digest r)"
    by (cases r) (force simp: rs_def ref_of_digest_key_def)
qed

lemma range_key_iff:
  fixes a a' s e r :: nat
  shows "(a, s, digest_min) \<le> (a', r, d) \<and> (a', r, d) < (a, e, digest_min) \<longleftrightarrow> a' = a \<and> s \<le> r \<and> r < e"
  by (auto simp: less_eq_prod_simp less_prod_simp digest_min_def)

lemma before_key_iff:
  fixes a a' e r :: nat
  shows "(a, 0, digest_min) \<le> (a', r, d) \<and> (a', r, d) \<le> (a, e, digest_max) \<longleftrightarrow> a' = a \<and> r \<le> e"
  by (auto simp: less_eq_prod_simp digest_min_def digest_max_def word_le_max)

lemma read_stored:
  "\<forall>b \<in> set bs. read_block ms (reference b) = Some b \<Longrightarrow>
     rmap (rexpect BlockNotInStore) (read_blocks ms (map reference bs)) = Inr bs"
  by (induction bs) (auto simp: read_blocks_def)

text \<open>The blocks whose keys satisfy a condition on one author, in the order of their references.\<close>

lemma author_blocks:
  assumes "mem_store_inv ms" "\<forall>k. P k \<longrightarrow> fst k = a"
  defines "rs \<equiv> map ref_of_digest_key (filter P (sorted_list_of_fset (digests_by_authorities ms)))"
  shows "\<exists>all. map reference all = rs \<and> sorted_wrt (<) (map reference all)
    \<and> (\<forall>b \<in> set all. read_block ms (reference b) = Some b)
    \<and> set all = {b. read_block ms (reference b) = Some b \<and> P (vb_author b, vb_round b, vb_digest b)}"
proof -
  note keys = author_keys [of "digests_by_authorities ms" P a, folded rs_def, OF assms(2) [rule_format]]
  have dom: "(br_author r, br_round r, br_digest r) |\<in>| digests_by_authorities ms
      \<longleftrightarrow> (\<exists>b. read_block ms r = Some b)" for r
    using assms(1) by (auto simp: mem_store_inv_def read_block_def block_key_def fmlookup_dom_iff)
  define all where "all = map (\<lambda>r. the (read_block ms r)) rs"
  have at: "read_block ms r = Some (the (read_block ms r)) \<and> reference (the (read_block ms r)) = r"
    if "r \<in> set rs" for r
    using that keys(2) dom ms_table.lookup_reference [OF assms(1)] by (metis option.sel)
  have refs: "map reference all = rs"
    using at by (auto simp: all_def intro: map_idI)
  have mem: "b \<in> set all \<longleftrightarrow> read_block ms (reference b) = Some b \<and> reference b \<in> set rs" for b
  proof
    assume "b \<in> set all"
    then obtain r where "r \<in> set rs" "b = the (read_block ms r)" by (auto simp: all_def)
    with at [of r] show "read_block ms (reference b) = Some b \<and> reference b \<in> set rs" by simp
  next
    assume "read_block ms (reference b) = Some b \<and> reference b \<in> set rs"
    then show "b \<in> set all" unfolding all_def set_map by (intro image_eqI [of _ _ "reference b"]) auto
  qed
  have "reference b \<in> set rs \<longleftrightarrow>
      (\<exists>b'. read_block ms (reference b) = Some b') \<and> P (vb_author b, vb_round b, vb_digest b)" for b
    using keys(2) [of "reference b"] dom [of "reference b"] by simp
  with mem have "set all = {b. read_block ms (reference b) = Some b \<and> P (vb_author b, vb_round b, vb_digest b)}"
    by auto
  then show ?thesis using refs keys(1) mem by (intro exI [of _ all] conjI ballI) simp_all
qed


text \<open>
  C30. \<open>scan_last_blocks_by_author\<close> returns the last \<open>num_of_rounds\<close> blocks of the author up to a
  round, in order: it counts blocks, so an author that equivocates gives fewer rounds than asked.
\<close>

theorem scan_last_blocks_correct:
  assumes "mem_store_inv ms"
  shows "\<exists>all. set all = {b. read_block ms (reference b) = Some b \<and> vb_author b = a
        \<and> vb_round b \<le> before_round}
    \<and> sorted_wrt (<) (map reference all)
    \<and> scan_last_blocks_by_author ms a n (Some before_round) = Inr (drop (length all - n) all)"
proof -
  let ?P = "\<lambda>k. (a, 0, digest_min) \<le> k \<and> k \<le> (a, before_round, digest_max)"
  have "\<forall>k. ?P k \<longrightarrow> fst k = a" using before_key_iff [of a] by auto
  note blocks = author_blocks [of ms ?P a, OF assms this]
  obtain all where all: "map reference all =
      map ref_of_digest_key (filter ?P (sorted_list_of_fset (digests_by_authorities ms)))"
    "sorted_wrt (<) (map reference all)" "\<forall>b \<in> set all. read_block ms (reference b) = Some b"
    "set all = {b. read_block ms (reference b) = Some b \<and> ?P (vb_author b, vb_round b, vb_digest b)}"
    using blocks by (elim exE conjE) (rule that)
  have "scan_last_blocks_by_author ms a n (Some before_round) = Inr (drop (length all - n) all)"
    using all(3) unfolding scan_last_blocks_by_author_def Let_def option.case all(1) [symmetric]
    by (auto simp: take_rev rev_map [symmetric] drop_map dest: in_set_dropD intro!: read_stored)
  then show ?thesis using all(2,4) unfolding before_key_iff by blast
qed

subsection \<open>Recovery of committed sub-dags\<close>

text \<open>
  C31. A commit whose blocks are stored, its leader among them, is recovered from storage as the
  sub-dag with exactly these blocks in the order of the commit, the commit's timestamp and
  reference, and with the stored rejected transactions if the commit was finalized.
\<close>

theorem load_committed_subdag_correct:
  assumes "\<forall>b \<in> set bs. read_block ms (reference b) = Some b"
    and "commit_blocks (trusted_inner c) = map reference bs"
    and "commit_leader (trusted_inner c) \<in> set (commit_blocks (trusted_inner c))"
  shows "\<exists>sub. load_committed_subdag_from_store ms c = Inr sub
    \<and> csd_leader sub = commit_leader (trusted_inner c) \<and> csd_blocks sub = bs
    \<and> csd_timestamp_ms sub = commit_timestamp (trusted_inner c)
    \<and> csd_commit_ref sub = commit_reference c
    \<and> (decided_with_local_blocks sub \<longleftrightarrow> read_rejected_transactions ms (commit_reference c) \<noteq> None)
    \<and> rejected_transactions_by_block sub =
        (case read_rejected_transactions ms (commit_reference c) of Some r \<Rightarrow> r | None \<Rightarrow> fmempty)"
proof -
  obtain b where "b \<in> set bs" "reference b = commit_leader (trusted_inner c)"
    using assms(2,3) by auto
  then obtain leader where leader: "find (\<lambda>b. reference b = commit_leader (trusted_inner c)) (rev bs) = Some leader"
    using find_exists [of b "rev bs" "\<lambda>b. reference b = commit_leader (trusted_inner c)"] by auto
  then have "reference leader = commit_leader (trusted_inner c)" by (auto dest: find_SomeD)
  then show ?thesis
    using leader read_stored [OF assms(1)]
    by (auto simp: load_committed_subdag_from_store_def assms(2) committed_sub_dag_new_def Let_def
      split: option.splits)
qed

subsection \<open>Witnesses\<close>

definition demo_store :: mem_store where
  "demo_store = fold write_block
     [demo_vb 2 0 7 20 [], demo_vb 3 0 8 30 [], demo_vb 3 0 9 31 [], demo_vb 3 1 4 30 []] mem_store_new"

lemma demo_store_inv: "mem_store_inv demo_store"
  unfolding demo_store_def by (rule ms_table.inv_fold [OF mem_store_new_inv])

lemma demo_store_read:
  "read_block demo_store (BlockRef 2 0 7) = Some (demo_vb 2 0 7 20 [])"
  "read_block demo_store (BlockRef 3 0 9) = Some (demo_vb 3 0 9 31 [])"
  by (simp_all add: demo_store_def read_block_def write_block_def Let_def block_key_def)


theorem scan_last_blocks_correct_witness:
  "\<exists>all. demo_vb 2 0 7 20 [] \<in> set all
    \<and> scan_last_blocks_by_author demo_store 0 2 (Some 3) = Inr (drop (length all - 2) all)"
proof -
  have "demo_vb 2 0 7 20 [] \<in> {b. read_block demo_store (reference b) = Some b \<and> vb_author b = 0
      \<and> vb_round b \<le> 3}"
    using demo_store_read(1) by simp
  then show ?thesis
    using scan_last_blocks_correct [OF demo_store_inv, of 0 3 2] by metis
qed

theorem load_committed_subdag_correct_witness:
  "\<exists>sub. load_committed_subdag_from_store demo_store
      \<lparr>trusted_inner = commit_new 1 0 30 (BlockRef 3 0 9) [BlockRef 2 0 7, BlockRef 3 0 9],
       trusted_digest = 5, trusted_serialized = []\<rparr> = Inr sub
    \<and> csd_blocks sub = [demo_vb 2 0 7 20 [], demo_vb 3 0 9 31 []] \<and> csd_leader sub = BlockRef 3 0 9"
  using load_committed_subdag_correct [of "[demo_vb 2 0 7 20 [], demo_vb 3 0 9 31 []]" demo_store
      "\<lparr>trusted_inner = commit_new 1 0 30 (BlockRef 3 0 9) [BlockRef 2 0 7, BlockRef 3 0 9],
        trusted_digest = 5, trusted_serialized = []\<rparr>"] demo_store_read
  by auto

end
