(* ===== verification/Dag_State.thy ===== *)
theory Dag_State
  imports Mem_Store Threshold_Clock
begin

section \<open>The state of the DAG\<close>

text \<open>
  Models \<open>consensus/core/src/dag_state.rs\<close>: the cache of recent blocks over the store, the commits
  and votes pending to be written or proposed, garbage collection and eviction, and recovery from
  storage. Time is an argument of the operations that read it; metrics are left out, but the
  committee lookups and queries made for them are kept, because they may panic.
\<close>

subsection \<open>State\<close>

record block_info =
  bi_block :: verified_block
  children :: "block_ref fset"
  children_stake :: stake_aggregator
  committed :: bool
  included :: bool

definition block_info_new :: "verified_block \<Rightarrow> block_info" where
  "block_info_new b = \<lparr>bi_block = b, children = {||}, children_stake = aggregator_new,
     committed = False, included = False\<rparr>"

record round_info =
  ri_round :: round_number
  ri_blocks :: "block_ref fset"
  ri_total_stake :: stake_aggregator

definition round_info_new :: "round_number \<Rightarrow> round_info" where
  "round_info_new r = \<lparr>ri_round = r, ri_blocks = {||}, ri_total_stake = aggregator_new\<rparr>"

record dag_state =
  ds_context :: node_context
  genesis :: "(block_ref, verified_block) fmap"
  recent_blocks :: "(block_ref, block_info) fmap"
  recent_refs_by_authority :: "block_ref fset list"
  round_infos :: "round_info list"
  ds_threshold_clock :: threshold_clock
  evicted_rounds :: "round_number list"
  highest_accepted_round :: round_number
  last_commit :: "trusted_commit option"
  last_committed_rounds :: "round_number list"
  ds_scoring_subdag :: scoring_subdag
  pending_commit_votes :: "commit_vote list"
  blocks_to_write :: "verified_block list"
  commits_to_write :: "trusted_commit list"
  commit_info_to_write :: "(commit_ref \<times> commit_info) list"
  finalized_commits_to_write :: "(commit_ref \<times> (block_ref, transaction_index list) fmap) list"
  ds_store :: mem_store
  cached_rounds :: round_number

abbreviation ds_committee :: "dag_state \<Rightarrow> committee" where
  "ds_committee ds \<equiv> ctx_committee (ds_context ds)"

abbreviation ds_config :: "dag_state \<Rightarrow> protocol_config" where
  "ds_config ds \<equiv> ctx_protocol_config (ds_context ds)"

subsection \<open>The last commit and the garbage collection round\<close>

definition last_commit_index :: "dag_state \<Rightarrow> commit_index" where
  "last_commit_index ds = (case last_commit ds of Some c \<Rightarrow> commit_idx (trusted_inner c) | None \<Rightarrow> 0)"

definition last_commit_digest :: "dag_state \<Rightarrow> commit_digest" where
  "last_commit_digest ds = (case last_commit ds of Some c \<Rightarrow> trusted_digest c | None \<Rightarrow> 0)"

definition last_commit_timestamp_ms :: "dag_state \<Rightarrow> block_timestamp_ms" where
  "last_commit_timestamp_ms ds =
     (case last_commit ds of Some c \<Rightarrow> commit_timestamp (trusted_inner c) | None \<Rightarrow> 0)"

definition last_commit_round :: "dag_state \<Rightarrow> round_number" where
  "last_commit_round ds =
     (case last_commit ds of Some c \<Rightarrow> br_round (commit_leader (trusted_inner c)) | None \<Rightarrow> 0)"

definition last_commit_leader :: "dag_state \<Rightarrow> panic + slot" where
  "last_commit_leader ds =
    (case last_commit ds of
       Some c \<Rightarrow> Inr (slot_of_ref (commit_leader (trusted_inner c)))
     | None \<Rightarrow> (case sorted_list_of_fmap (genesis ds) of
                 (r, _) # _ \<Rightarrow> Inr (slot_of_ref r)
               | [] \<Rightarrow> Inl UnexpectedState))"

definition calculate_gc_round :: "dag_state \<Rightarrow> round_number \<Rightarrow> round_number" where
  "calculate_gc_round ds r = r - gc_depth (ds_config ds)"

definition gc_round :: "dag_state \<Rightarrow> round_number" where
  "gc_round ds = calculate_gc_round ds (last_commit_round ds)"

definition eviction_round :: "round_number \<Rightarrow> round_number \<Rightarrow> nat \<Rightarrow> round_number" where
  "eviction_round last_round gc cached = min gc (last_round - cached)"

definition calculate_authority_eviction_round :: "dag_state \<Rightarrow> authority_index \<Rightarrow> panic + round_number" where
  "calculate_authority_eviction_round ds a =
     rbind (vec_get (recent_refs_by_authority ds) a) (\<lambda>refs.
       let last_round = (case fset_last refs of Some r \<Rightarrow> br_round r | None \<Rightarrow> genesis_round)
       in Inr (eviction_round last_round (gc_round ds) (cached_rounds ds)))"

subsection \<open>Reading blocks\<close>

text \<open>Genesis blocks and cached blocks are answered locally, the rest by one read of the store.\<close>

definition get_blocks :: "dag_state \<Rightarrow> block_ref list \<Rightarrow> verified_block option list" where
  "get_blocks ds refs =
    (if refs = [] then []
     else batched_lookup
       (\<lambda>r. if br_round r = genesis_round then Some (fmlookup (genesis ds) r)
            else map_option (\<lambda>bi. Some (bi_block bi)) (fmlookup (recent_blocks ds) r))
       (read_blocks (ds_store ds)) None refs)"

definition get_block :: "dag_state \<Rightarrow> block_ref \<Rightarrow> verified_block option" where
  "get_block ds r = last (get_blocks ds [r])"

definition slot_refs :: "slot \<Rightarrow> block_ref \<Rightarrow> bool" where
  "slot_refs s r \<longleftrightarrow> BlockRef (slot_round s) (slot_authority s) digest_min \<le> r
     \<and> r \<le> BlockRef (slot_round s) (slot_authority s) digest_max"

definition get_block_info_at_slot :: "dag_state \<Rightarrow> slot \<Rightarrow> panic + block_info list" where
  "get_block_info_at_slot ds s =
     rbind (rassert (slot_round s > gc_round ds) SlotBelowGcRound) (\<lambda>_.
       Inr (map snd (fmap_range (slot_refs s) (recent_blocks ds))))"

definition get_uncommitted_blocks_at_slot :: "dag_state \<Rightarrow> slot \<Rightarrow> verified_block list" where
  "get_uncommitted_blocks_at_slot ds s =
     map (\<lambda>(_, bi). bi_block bi) (fmap_range (slot_refs s) (recent_blocks ds))"

definition get_uncommitted_blocks_at_round :: "dag_state \<Rightarrow> round_number \<Rightarrow> panic + verified_block list" where
  "get_uncommitted_blocks_at_round ds r =
    (if r \<le> last_commit_round ds then Inl RoundHasCommittedBlocks
     else Inr (map (\<lambda>(_, bi). bi_block bi)
       (fmap_range (\<lambda>k. BlockRef r 0 digest_min \<le> k \<and> k < BlockRef (r + 1) 0 digest_min)
         (recent_blocks ds))))"

text \<open>
  The traversal of \<open>ancestors_at_round\<close>: the last reference is popped and replaced by the ancestors
  of its block while its round is above \<open>earlier_round\<close>. It may not end on a malformed DAG.
\<close>

partial_function (option) ancestors_walk ::
  "dag_state \<Rightarrow> round_number \<Rightarrow> block_ref fset \<Rightarrow> (panic + block_ref fset) option" where
  "ancestors_walk ds earlier_round linked =
    (case fset_last linked of
       None \<Rightarrow> Some (Inr linked)
     | Some r \<Rightarrow>
         if br_round r \<le> earlier_round then Some (Inr linked)
         else case get_block ds r of
                None \<Rightarrow> Some (Inl BlockMissingInDag)
              | Some b \<Rightarrow> ancestors_walk ds earlier_round
                            (fset_of_list (vb_ancestors b) |\<union>| (linked |-| {|r|})))"

definition ancestors_at_round ::
  "dag_state \<Rightarrow> verified_block \<Rightarrow> round_number \<Rightarrow> (panic + verified_block list) option" where
  "ancestors_at_round ds later_block earlier_round =
    (case ancestors_walk ds earlier_round (fset_of_list (vb_ancestors later_block)) of
       None \<Rightarrow> None
     | Some w \<Rightarrow> Some (rbind w (\<lambda>linked.
         rmap (\<lambda>r. rexpect BlockMissingInDag (get_block ds r))
           (fset_range (\<lambda>r. BlockRef earlier_round 0 digest_min \<le> r) linked))))"

definition get_last_block_for_authority :: "dag_state \<Rightarrow> authority_index \<Rightarrow> panic + verified_block" where
  "get_last_block_for_authority ds a =
     rbind (vec_get (recent_refs_by_authority ds) a) (\<lambda>refs.
       case fset_last refs of
         Some r \<Rightarrow> rbind (rexpect BlockMissingInDag (fmlookup (recent_blocks ds) r))
                     (\<lambda>bi. Inr (bi_block bi))
       | None \<Rightarrow> rbind (rexpect UnexpectedState
                     (find (\<lambda>(r, _). br_author r = a) (sorted_list_of_fmap (genesis ds))))
                     (\<lambda>(_, b). Inr b))"

definition get_last_proposed_block :: "dag_state \<Rightarrow> panic + verified_block option" where
  "get_last_proposed_block ds =
    (if is_validator (ds_context ds)
     then rbind (get_last_block_for_authority ds (own_index (ds_context ds))) (\<lambda>b. Inr (Some b))
     else Inr None)"

definition cached_range :: "authority_index \<Rightarrow> round_number \<Rightarrow> round_number \<Rightarrow> block_ref \<Rightarrow> bool" where
  "cached_range a start_round end_round r \<longleftrightarrow>
     BlockRef start_round a digest_min \<le> r \<and> r < BlockRef end_round 0 digest_min"

definition get_cached_blocks_in_range ::
  "dag_state \<Rightarrow> authority_index \<Rightarrow> round_number \<Rightarrow> round_number \<Rightarrow> nat \<Rightarrow> panic + verified_block list" where
  "get_cached_blocks_in_range ds a start_round end_round limit =
    (if start_round \<ge> end_round \<or> limit = 0 then Inr []
     else rbind (vec_get (recent_refs_by_authority ds) a) (\<lambda>refs.
       rmap (\<lambda>r. rbind (rexpect BlockMissingInDag (fmlookup (recent_blocks ds) r))
                   (\<lambda>bi. Inr (bi_block bi)))
         (push_until limit [] (fset_range (cached_range a start_round end_round) refs))))"

definition get_cached_blocks ::
  "dag_state \<Rightarrow> authority_index \<Rightarrow> round_number \<Rightarrow> panic + verified_block list" where
  "get_cached_blocks ds a start = get_cached_blocks_in_range ds a start u32_max u64_max"

definition get_last_cached_block_in_range ::
  "dag_state \<Rightarrow> authority_index \<Rightarrow> round_number \<Rightarrow> round_number \<Rightarrow> panic + verified_block option" where
  "get_last_cached_block_in_range ds a start_round end_round =
    (if start_round \<ge> end_round then Inr None
     else rbind (vec_get (recent_refs_by_authority ds) a) (\<lambda>refs.
       case rev (fset_range (cached_range a start_round end_round) refs) of
         [] \<Rightarrow> Inr None
       | r # _ \<Rightarrow> Inr (map_option bi_block (fmlookup (recent_blocks ds) r))))"

text \<open>
  For each authority the last cached block below \<open>end_round\<close> and the other blocks of its slot.
\<close>

definition last_cached_for ::
  "dag_state \<Rightarrow> round_number \<Rightarrow> nat \<times> block_ref fset
     \<Rightarrow> verified_block list \<times> block_ref list list \<Rightarrow> panic + verified_block list \<times> block_ref list list" where
  "last_cached_for ds end_round = (\<lambda>(i, refs) (blocks, equivocating).
     rbind (rexpect UnexpectedState (to_authority_index (ds_committee ds) i)) (\<lambda>a.
     rbind (vec_get (evicted_rounds ds) a) (\<lambda>last_evicted.
     rbind (rassert (\<not> end_round - 1 \<le> last_evicted) RoundEvicted) (\<lambda>_.
     case rev (fset_range (\<lambda>r. BlockRef (last_evicted + 1) a digest_min \<le> r
                             \<and> r < BlockRef end_round a digest_min) refs) of
       [] \<Rightarrow> Inr (blocks, equivocating)
     | r # rs \<Rightarrow>
         rbind (rexpect BlockMissingInDag (fmlookup (recent_blocks ds) r)) (\<lambda>bi.
         rbind (rassert (a < length blocks \<and> a < length equivocating) IndexOutOfBounds) (\<lambda>_.
         Inr (blocks[a := bi_block bi],
              equivocating[a := equivocating ! a
                @ takeWhile (\<lambda>r'. \<not> br_round r' < br_round r) rs])))))))"

definition get_last_cached_block_per_authority ::
  "dag_state \<Rightarrow> round_number \<Rightarrow> panic + (verified_block \<times> block_ref list) list" where
  "get_last_cached_block_per_authority ds end_round =
    (let blocks = map snd (sorted_list_of_fmap (genesis ds));
         equivocating = replicate (committee_size (ds_committee ds)) []
     in if end_round = genesis_round then Inl GenesisRoundRequested
        else if end_round = genesis_round + 1 then Inr (map (\<lambda>b. (b, [])) blocks)
        else rbind (rfold (last_cached_for ds end_round)
                      (enumerate 0 (recent_refs_by_authority ds)) (blocks, equivocating))
               (\<lambda>(blocks, equivocating). Inr (zip blocks equivocating)))"

definition contains_cached_block_at_slot :: "dag_state \<Rightarrow> slot \<Rightarrow> panic + bool" where
  "contains_cached_block_at_slot ds s =
    (if slot_round s = genesis_round then Inr True
     else rbind (vec_get (evicted_rounds ds) (slot_authority s)) (\<lambda>ev.
          rbind (rassert (\<not> slot_round s \<le> ev) RoundEvicted) (\<lambda>_.
          rbind (vec_get (recent_refs_by_authority ds) (slot_authority s)) (\<lambda>refs.
          Inr (fset_range (slot_refs s) refs \<noteq> [])))))"

definition contains_blocks :: "dag_state \<Rightarrow> block_ref list \<Rightarrow> panic + bool list" where
  "contains_blocks ds refs =
     rbind (rmap (\<lambda>r. vec_get (recent_refs_by_authority ds) (br_author r)) refs) (\<lambda>_.
     Inr (batched_lookup
       (\<lambda>r. let recent_refs = recent_refs_by_authority ds ! br_author r in
            if r |\<in>| recent_refs \<or> r |\<in>| fmdom (genesis ds) then Some True
            else if (case fset_last recent_refs of None \<Rightarrow> True | Some l \<Rightarrow> br_round l < br_round r)
            then Some False
            else None)
       (store_contains_blocks (ds_store ds)) False refs))"

definition contains_block :: "dag_state \<Rightarrow> block_ref \<Rightarrow> panic + bool" where
  "contains_block ds r = rbind (contains_blocks ds [r]) (\<lambda>bs. Inr (hd bs))"

subsection \<open>Commit and inclusion status\<close>

definition set_committed :: "dag_state \<Rightarrow> block_ref \<Rightarrow> panic + bool \<times> dag_state" where
  "set_committed ds r =
    (case fmlookup (recent_blocks ds) r of
       None \<Rightarrow> Inl BlockMissingInDag
     | Some bi \<Rightarrow>
         if \<not> committed bi
         then Inr (True, ds\<lparr>recent_blocks := fmupd r (bi\<lparr>committed := True\<rparr>) (recent_blocks ds)\<rparr>)
         else Inr (False, ds))"

definition is_committed :: "dag_state \<Rightarrow> block_ref \<Rightarrow> panic + bool" where
  "is_committed ds r =
     rbind (rexpect BlockMissingInDag (fmlookup (recent_blocks ds) r)) (\<lambda>bi. Inr (committed bi))"

definition has_been_included :: "dag_state \<Rightarrow> block_ref \<Rightarrow> panic + bool" where
  "has_been_included ds r =
     rbind (rexpect BlockMissingInDag (fmlookup (recent_blocks ds) r)) (\<lambda>bi. Inr (included bi))"

text \<open>
  The loop of \<open>link_causal_history\<close>: a queue of targets, over the map of recent blocks. It ends
  because every block it expands is marked as included.
\<close>

definition unmarked :: "(block_ref, block_info) fmap \<Rightarrow> block_ref set" where
  "unmarked m = {r. \<exists>bi. fmlookup m r = Some bi \<and> \<not> included bi}"

lemma finite_unmarked [simp]: "finite (unmarked m)"
  by (rule finite_subset [of _ "fset (fmdom m)"]) (auto simp: unmarked_def fmdomI)

lemma unmarked_mark:
  "fmlookup m r = Some bi \<Longrightarrow> \<not> included bi \<Longrightarrow>
     unmarked (fmupd r (bi\<lparr>included := True\<rparr>) m) = unmarked m - {r} \<and> r \<in> unmarked m"
  by (auto simp: unmarked_def split: if_splits)

function link_loop ::
  "round_number \<Rightarrow> block_ref list \<Rightarrow> block_ref list \<Rightarrow> (block_ref, block_info) fmap
     \<Rightarrow> panic + block_ref list \<times> (block_ref, block_info) fmap" where
  "link_loop gc [] linked m = Inr (linked, m)"
| "link_loop gc (r # targets) linked m =
    (if br_round r \<le> gc then link_loop gc targets linked m
     else case fmlookup m r of
            None \<Rightarrow> Inl BlockMissingInDag
          | Some bi \<Rightarrow>
              if included bi then link_loop gc targets linked m
              else link_loop gc (targets @ vb_ancestors (bi_block bi)) (linked @ [r])
                     (fmupd r (bi\<lparr>included := True\<rparr>) m))"
  by pat_completeness auto

termination
proof (relation "measures [\<lambda>(gc, targets, linked, m). card (unmarked m),
                           \<lambda>(gc, targets, linked, m). length targets]", goal_cases)
  case (4 gc r targets linked m bi)
  then show ?case
    using unmarked_mark [of m r bi] card_Diff1_less [of "unmarked m" r] by simp
qed auto

definition link_causal_history :: "dag_state \<Rightarrow> block_ref \<Rightarrow> panic + block_ref list \<times> dag_state" where
  "link_causal_history ds root_block =
     rbind (link_loop (gc_round ds) [root_block] [] (recent_blocks ds)) (\<lambda>(linked, m).
       Inr (linked, ds\<lparr>recent_blocks := m\<rparr>))"

subsection \<open>Rounds\<close>

definition get_round_info :: "dag_state \<Rightarrow> round_number \<Rightarrow> panic + round_info option" where
  "get_round_info ds r =
    (case round_infos ds of
       [] \<Rightarrow> Inr None
     | front # _ \<Rightarrow>
         if r < ri_round front \<or> r \<le> gc_round ds then Inr None
         else let i = r - ri_round front in
              if i < length (round_infos ds)
              then rbind (rassert (ri_round (round_infos ds ! i) = r) RoundInfoGap)
                     (\<lambda>_. Inr (Some (round_infos ds ! i)))
              else Inr None)"

definition update_round_info :: "dag_state \<Rightarrow> verified_block \<Rightarrow> panic + dag_state" where
  "update_round_info ds b =
    (let gc = gc_round ds in
     if vb_round b \<le> gc then Inr ds
     else
       let next_round = (case rev (round_infos ds) of
                           info # _ \<Rightarrow> wrap32 (ri_round info + 1) | [] \<Rightarrow> wrap32 (gc + 1))
       in
       rbind (rassert (vb_round b \<le> next_round) RoundInfoGap) (\<lambda>_.
       let infos = (if vb_round b = next_round
                    then round_infos ds @ [round_info_new (vb_round b)] else round_infos ds)
       in case infos of
            [] \<Rightarrow> Inl UnexpectedState
          | front # _ \<Rightarrow>
              rbind (rassert (ri_round front \<le> vb_round b) IndexOutOfBounds) (\<lambda>_.
              let i = vb_round b - ri_round front in
              rbind (vec_get infos i) (\<lambda>info.
              rbind (aggregator_add_unique (vb_author b) (ds_committee ds) (ri_total_stake info))
                (\<lambda>(_, agg).
              Inr (ds\<lparr>round_infos := infos[i := info\<lparr>ri_blocks := finsert (reference b) (ri_blocks info),
                     ri_total_stake := agg\<rparr>]\<rparr>))))))"

subsection \<open>Accepting blocks\<close>

text \<open>The children of a block, maintained for v3 when a child is accepted.\<close>

definition add_child :: "dag_state \<Rightarrow> verified_block \<Rightarrow> block_ref \<Rightarrow> panic + dag_state" where
  "add_child ds b anc =
    (if wrap32 (br_round anc + 1) \<noteq> vb_round b \<or> br_round anc \<le> gc_round ds then Inr ds
     else rbind (rexpect ParentBlockMissing (fmlookup (recent_blocks ds) anc)) (\<lambda>bi.
          rbind (aggregator_add_unique (vb_author b) (ds_committee ds) (children_stake bi)) (\<lambda>(_, agg).
          Inr (ds\<lparr>recent_blocks := fmupd anc
                (bi\<lparr>children := finsert (reference b) (children bi), children_stake := agg\<rparr>)
                (recent_blocks ds)\<rparr>))))"

definition update_block_metadata :: "nat \<Rightarrow> verified_block \<Rightarrow> dag_state \<Rightarrow> panic + dag_state" where
  "update_block_metadata now b ds =
    (let r = reference b; a = vb_author b;
         ds = ds\<lparr>recent_blocks := fmupd r (block_info_new b) (recent_blocks ds)\<rparr>
     in
     rbind (vec_get (recent_refs_by_authority ds) a) (\<lambda>refs.
     let ds = ds\<lparr>recent_refs_by_authority := (recent_refs_by_authority ds)[a := finsert r refs]\<rparr> in
     rbind (if enable_v3 (ds_config ds)
            then rbind (rfold (\<lambda>anc ds. add_child ds b anc) (vb_ancestors b) ds)
                   (\<lambda>ds. update_round_info ds b)
            else Inr ds) (\<lambda>ds.
     rbind (tc_add_block (ds_committee ds) now r (ds_threshold_clock ds)) (\<lambda>(advanced, tc).
     let ds = ds\<lparr>ds_threshold_clock := tc\<rparr> in
     rbind (if advanced then get_last_proposed_block ds else Inr None) (\<lambda>_.
     let ds = ds\<lparr>highest_accepted_round := max (highest_accepted_round ds) (vb_round b)\<rparr> in
     rbind (committee_authority (ds_committee ds) a) (\<lambda>_.
     Inr ds))))))"

definition accept_block :: "nat \<Rightarrow> verified_block \<Rightarrow> dag_state \<Rightarrow> panic + dag_state" where
  "accept_block now b ds =
     rbind (rassert (vb_round b \<noteq> 0) GenesisBlockAccepted) (\<lambda>_.
     rbind (contains_block ds (reference b)) (\<lambda>known.
     if known then Inr ds
     else
       rbind (committee_authority (ds_committee ds) (vb_author b)) (\<lambda>_.
       rbind (rassert (\<not> (vb_author b = own_index (ds_context ds)
                          \<and> \<not> skip_equivocation_validation (ctx_parameters (ds_context ds))
                          \<and> get_uncommitted_blocks_at_slot ds (slot_of_ref (reference b)) \<noteq> []))
                OwnSlotEquivocation) (\<lambda>_.
       rbind (update_block_metadata now b ds) (\<lambda>ds.
       Inr (ds\<lparr>blocks_to_write := blocks_to_write ds @ [b]\<rparr>))))))"

definition accept_blocks :: "nat \<Rightarrow> verified_block list \<Rightarrow> dag_state \<Rightarrow> panic + dag_state" where
  "accept_blocks now = rfold (accept_block now)"

subsection \<open>Commits\<close>

definition raise_committed_round :: "block_ref \<Rightarrow> round_number list \<Rightarrow> panic + round_number list" where
  "raise_committed_round r rounds =
     rbind (vec_get rounds (br_author r)) (\<lambda>old. Inr (rounds[br_author r := max old (br_round r)]))"

definition record_commit :: "trusted_commit \<Rightarrow> dag_state \<Rightarrow> panic + dag_state" where
  "record_commit c ds =
     rbind (rfold raise_committed_round (commit_blocks (trusted_inner c)) (last_committed_rounds ds)) (\<lambda>rounds.
     rbind (rmap (\<lambda>i. rexpect UnexpectedState (to_authority_index (ds_committee ds) i)) [0..<length rounds]) (\<lambda>_.
     Inr (ds\<lparr>last_commit := Some c, last_committed_rounds := rounds,
             pending_commit_votes := pending_commit_votes ds @ [commit_reference c],
             commits_to_write := commits_to_write ds @ [c]\<rparr>)))"

definition add_commit :: "trusted_commit \<Rightarrow> dag_state \<Rightarrow> panic + dag_state" where
  "add_commit c ds =
    (let i = commit_idx (trusted_inner c) in
     case last_commit ds of
       Some prev \<Rightarrow>
         if i \<le> commit_idx (trusted_inner prev) then Inr ds
         else
           rbind (rassert (i = wrap32 (commit_idx (trusted_inner prev) + 1)) CommitIndexGap) (\<lambda>_.
           rbind (rassert (\<not> commit_timestamp (trusted_inner c) < commit_timestamp (trusted_inner prev))
                    CommitTimestampDecreases) (\<lambda>_.
           record_commit c ds))
     | None \<Rightarrow> rbind (rassert (i = 1) CommitIndexGap) (\<lambda>_. record_commit c ds))"

definition recover_commits_to_write :: "trusted_commit list \<Rightarrow> dag_state \<Rightarrow> dag_state" where
  "recover_commits_to_write cs ds = ds\<lparr>commits_to_write := commits_to_write ds @ cs\<rparr>"

definition ensure_commits_to_write_is_empty :: "dag_state \<Rightarrow> panic + unit" where
  "ensure_commits_to_write_is_empty ds = rassert (commits_to_write ds = []) CommitsToWriteNotEmpty"

definition add_commit_info :: "reputation_scores \<Rightarrow> dag_state \<Rightarrow> panic + dag_state" where
  "add_commit_info scores ds =
     rbind (rassert (scoring_is_empty (ds_scoring_subdag ds)) ScoringSubdagNotEmpty) (\<lambda>_.
     rbind (rexpect LastCommitUnset (last_commit ds)) (\<lambda>c.
     Inr (ds\<lparr>commit_info_to_write := commit_info_to_write ds @
            [(commit_reference c,
              \<lparr>committed_rounds = last_committed_rounds ds, info_scores = scores\<rparr>)]\<rparr>)))"

definition add_finalized_commit ::
  "commit_ref \<Rightarrow> (block_ref, transaction_index list) fmap \<Rightarrow> dag_state \<Rightarrow> dag_state" where
  "add_finalized_commit r rejected ds =
     ds\<lparr>finalized_commits_to_write := finalized_commits_to_write ds @ [(r, rejected)]\<rparr>"

fun take_votes :: "nat \<Rightarrow> commit_vote list \<Rightarrow> commit_vote list \<Rightarrow> commit_vote list \<times> commit_vote list" where
  "take_votes limit taken [] = (taken, [])"
| "take_votes limit taken (v # pending) =
     (if length taken < limit then take_votes limit (taken @ [v]) pending else (taken, v # pending))"

definition take_commit_votes :: "nat \<Rightarrow> dag_state \<Rightarrow> commit_vote list \<times> dag_state" where
  "take_commit_votes limit ds =
    (let (taken, pending) = take_votes limit [] (pending_commit_votes ds)
     in (taken, ds\<lparr>pending_commit_votes := pending\<rparr>))"

subsection \<open>Flushing to storage and eviction\<close>

definition evict_authority :: "authority_index \<Rightarrow> dag_state \<Rightarrow> panic + dag_state" where
  "evict_authority a ds =
     rbind (calculate_authority_eviction_round ds a) (\<lambda>ev.
     rbind (vec_get (recent_refs_by_authority ds) a) (\<lambda>refs.
     let evicted = fset_of_list (takeWhile (\<lambda>r. br_round r \<le> ev) (sorted_list_of_fset refs)) in
     rbind (rassert (a < length (evicted_rounds ds)) IndexOutOfBounds) (\<lambda>_.
     Inr (ds\<lparr>recent_blocks := fmdrop_fset evicted (recent_blocks ds),
             recent_refs_by_authority := (recent_refs_by_authority ds)[a := refs |-| evicted],
             evicted_rounds := (evicted_rounds ds)[a := ev]\<rparr>))))"

definition flush :: "dag_state \<Rightarrow> panic + dag_state" where
  "flush ds =
    (if blocks_to_write ds = [] \<and> commits_to_write ds = [] \<and> commit_info_to_write ds = []
        \<and> finalized_commits_to_write ds = []
     then Inr ds
     else
       let batch = \<lparr>wb_blocks = blocks_to_write ds, wb_commits = commits_to_write ds,
                    wb_commit_info = commit_info_to_write ds,
                    wb_finalized_commits = finalized_commits_to_write ds\<rparr>;
           ds = ds\<lparr>blocks_to_write := [], commits_to_write := [], commit_info_to_write := [],
                   finalized_commits_to_write := [], ds_store := store_write batch (ds_store ds)\<rparr>
       in
       rbind (rfold (\<lambda>(a, _). evict_authority a) (indexed_authorities (ds_committee ds)) ds) (\<lambda>ds.
       Inr (ds\<lparr>round_infos := dropWhile (\<lambda>info. ri_round info \<le> gc_round ds) (round_infos ds)\<rparr>)))"

subsection \<open>Scores\<close>

definition add_scoring_subdags :: "committed_sub_dag list \<Rightarrow> dag_state \<Rightarrow> panic + dag_state" where
  "add_scoring_subdags subs ds =
     rbind (add_subdags (ds_committee ds) subs (ds_scoring_subdag ds)) (\<lambda>sd.
     Inr (ds\<lparr>ds_scoring_subdag := sd\<rparr>))"

definition clear_scoring_subdag :: "dag_state \<Rightarrow> dag_state" where
  "clear_scoring_subdag ds = ds\<lparr>ds_scoring_subdag := scoring_clear (ds_scoring_subdag ds)\<rparr>"

definition scoring_subdags_count :: "dag_state \<Rightarrow> panic + nat" where
  "scoring_subdags_count ds = scored_subdags_count (ds_scoring_subdag ds)"

definition calculate_scoring_subdag_scores :: "dag_state \<Rightarrow> panic + reputation_scores" where
  "calculate_scoring_subdag_scores ds =
     calculate_distributed_vote_scores (ds_committee ds) (ds_scoring_subdag ds)"

definition scoring_subdag_commit_range :: "dag_state \<Rightarrow> panic + commit_index" where
  "scoring_subdag_commit_range ds =
     rbind (rexpect CommitRangeUnset (sd_commit_range (ds_scoring_subdag ds))) (\<lambda>r. Inr (range_end r))"

subsection \<open>Recovery from storage\<close>

text \<open>The blocks of one authority above its eviction round.\<close>

definition recover_authority ::
  "authority_index \<Rightarrow> verified_block list \<times> dag_state \<Rightarrow> panic + verified_block list \<times> dag_state" where
  "recover_authority a = (\<lambda>(recovered, ds).
     rbind (scan_last_blocks_by_author (ds_store ds) a 1 None) (\<lambda>last_block.
     let last_round = (if last_block = [] then genesis_round else vb_round (last last_block));
         ev = eviction_round last_round (gc_round ds) (cached_rounds ds)
     in
     rbind (scan_blocks_by_author (ds_store ds) a (ev + 1)) (\<lambda>blocks.
     rbind (rassert (a < length (evicted_rounds ds)) IndexOutOfBounds) (\<lambda>_.
     Inr (recovered @ blocks, ds\<lparr>evicted_rounds := (evicted_rounds ds)[a := ev]\<rparr>)))))"

text \<open>The commits from \<open>i\<close> down to the first one with a leader at or below the GC round.\<close>

fun recover_committed :: "commit_index \<Rightarrow> dag_state \<Rightarrow> panic + dag_state" where
  "recover_committed i ds =
    (case scan_commits (ds_store ds) (commit_range_new i i) of
       [] \<Rightarrow> Inr ds
     | c # _ \<Rightarrow>
         let gc = gc_round ds in
         if gc > 0 \<and> br_round (commit_leader (trusted_inner c)) \<le> gc then Inr ds
         else
           rbind (if enable_v3 (ds_config ds)
                  then rfold raise_committed_round (commit_blocks (trusted_inner c))
                         (last_committed_rounds ds)
                  else Inr (last_committed_rounds ds)) (\<lambda>rounds.
           rbind (rfold (\<lambda>r ds. rbind (set_committed ds r) (\<lambda>(fresh, ds).
                           rbind (rassert fresh BlockCommittedTwice) (\<lambda>_. Inr ds)))
                    (filter (\<lambda>r. br_round r > gc) (commit_blocks (trusted_inner c)))
                    (ds\<lparr>last_committed_rounds := rounds\<rparr>)) (\<lambda>ds.
           if i - 1 = 0 then Inr ds else recover_committed (i - 1) ds)))"

declare recover_committed.simps [simp del]

definition dag_state_new :: "crypto \<Rightarrow> nat \<Rightarrow> node_context \<Rightarrow> mem_store \<Rightarrow> panic + dag_state" where
  "dag_state_new cr now ctx store =
    (let n = committee_size (ctx_committee ctx); c = ctx_committee ctx;
         lc = read_last_commit store;
         (rounds, start_index) = (case read_last_commit_info store of
            Some (r, info) \<Rightarrow> (committed_rounds info, wrap32 (cr_index r + 1))
          | None \<Rightarrow> (replicate n 0, genesis_commit_index + 1))
     in
     rbind (genesis_blocks cr ctx) (\<lambda>gs.
     rbind (case lc of
              None \<Rightarrow> Inr (rounds, [])
            | Some commit \<Rightarrow>
                if enable_v3 (ctx_protocol_config ctx) then Inr (rounds, [])
                else rfold (\<lambda>tc (rounds, subs).
                       rbind (rfold raise_committed_round (commit_blocks (trusted_inner tc)) rounds)
                         (\<lambda>rounds.
                       rbind (load_committed_subdag_from_store store tc) (\<lambda>sub.
                       Inr (rounds, subs @ [sub]))))
                     (scan_commits store
                        (commit_range_new start_index (commit_idx (trusted_inner commit))))
                     (rounds, [])) (\<lambda>(rounds, subs).
     rbind (add_subdags c subs scoring_subdag_new) (\<lambda>sd.
     let state = \<lparr>ds_context = ctx,
           genesis = fmap_of_list (map (\<lambda>b. (reference b, b)) (rev gs)),
           recent_blocks = fmempty, recent_refs_by_authority = replicate n {||}, round_infos = [],
           ds_threshold_clock = threshold_clock_new now 1, evicted_rounds = replicate n 0,
           highest_accepted_round = 0, last_commit = lc, last_committed_rounds = rounds,
           ds_scoring_subdag = sd, pending_commit_votes = [], blocks_to_write = [],
           commits_to_write = [], commit_info_to_write = [], finalized_commits_to_write = [],
           ds_store = store, cached_rounds = dag_state_cached_rounds (ctx_parameters ctx)\<rparr>
     in
     rbind (rfold (\<lambda>(a, _). recover_authority a) (indexed_authorities c) ([], state))
       (\<lambda>(recovered, state).
     rbind (rfold (update_block_metadata now) (sort_key reference recovered) state) (\<lambda>state.
     rbind (case lc of
              None \<Rightarrow> Inr state
            | Some commit \<Rightarrow> recover_committed (commit_idx (trusted_inner commit)) state) (\<lambda>state.
     rbind (scan_blocks_by_author store (own_index ctx) (gc_round state + 1)) (\<lambda>proposed.
     rfold (\<lambda>b state. rbind (link_causal_history state (reference b)) (\<lambda>(_, state). Inr state))
       proposed state))))))))"

end
