(* ===== verification/Dag_Inv.thy ===== *)
theory Dag_Inv
  imports Dag_State
begin

section \<open>Invariants of the DAG state\<close>

text \<open>
  The invariant of \<open>DagState\<close> and what its operations do to the set of known blocks: lookups agree
  with one abstract map from references to blocks, accepting a block extends this map, flushing and
  eviction leave it unchanged, and \<open>link_causal_history\<close> marks exactly the causal history.
\<close>

subsection \<open>The abstract map of blocks\<close>

definition cached_block :: "dag_state \<Rightarrow> block_ref \<Rightarrow> verified_block option" where
  "cached_block ds r = map_option bi_block (fmlookup (recent_blocks ds) r)"

lemma fmdom_cached: "r |\<in>| fmdom (recent_blocks ds) \<longleftrightarrow> cached_block ds r \<noteq> None"
  by (auto simp: cached_block_def fmlookup_dom_iff)

lemma cached_block_Some: "cached_block ds r = Some b \<longleftrightarrow>
    (\<exists>bi. fmlookup (recent_blocks ds) r = Some bi \<and> bi_block bi = b)"
  by (simp add: cached_block_def)

lemma get_block_eq:
  "get_block ds r =
    (if br_round r = 0 then fmlookup (genesis ds) r
     else case cached_block ds r of Some b \<Rightarrow> Some b | None \<Rightarrow> read_block (ds_store ds) r)"
  unfolding get_block_def get_blocks_def
  by (auto simp: batched_lookup_eq [of "read_blocks (ds_store ds)" "read_block (ds_store ds)"]
    read_blocks_def cached_block_def genesis_round_def split: option.splits)

lemma get_blocks_map: "get_blocks ds refs = map (get_block ds) refs"
  unfolding get_blocks_def
  by (auto simp: batched_lookup_eq [of "read_blocks (ds_store ds)" "read_block (ds_store ds)"]
    read_blocks_def get_block_eq cached_block_def genesis_round_def split: option.splits)

subsection \<open>Invariant\<close>

text \<open>
  The cache is indexed consistently; a cached block is stored or waits to be written; a stored block
  is cached or not later than the last cached block of its author.
\<close>

definition cache_inv :: "dag_state \<Rightarrow> bool" where
  "cache_inv ds \<longleftrightarrow>
     committee_wf (ds_committee ds)
     \<and> length (recent_refs_by_authority ds) = committee_size (ds_committee ds)
     \<and> length (evicted_rounds ds) = committee_size (ds_committee ds)
     \<and> (\<forall>r b. cached_block ds r = Some b \<longrightarrow>
          reference b = r \<and> 0 < br_round r \<and> is_valid_index (ds_committee ds) (br_author r))
     \<and> (\<forall>a < committee_size (ds_committee ds). \<forall>r.
          r |\<in>| recent_refs_by_authority ds ! a \<longleftrightarrow> cached_block ds r \<noteq> None \<and> br_author r = a)
     \<and> aggregator_inv (ds_committee ds) (tc_aggregator (ds_threshold_clock ds))"

definition genesis_inv :: "dag_state \<Rightarrow> bool" where
  "genesis_inv ds \<longleftrightarrow>
     (\<forall>r b. fmlookup (genesis ds) r = Some b \<longrightarrow> reference b = r \<and> br_round r = 0)
     \<and> (\<forall>a < committee_size (ds_committee ds). \<exists>r. r |\<in>| fmdom (genesis ds) \<and> br_author r = a)"

definition store_inv :: "dag_state \<Rightarrow> bool" where
  "store_inv ds \<longleftrightarrow>
     mem_store_inv (ds_store ds) \<and> 0 < cached_rounds ds
     \<and> (\<forall>r b. cached_block ds r = Some b \<longrightarrow>
          b \<in> set (blocks_to_write ds) \<or> read_block (ds_store ds) r = Some b)
     \<and> (\<forall>b \<in> set (blocks_to_write ds). cached_block ds (reference b) = Some b)
     \<and> (\<forall>r b. read_block (ds_store ds) r = Some b \<longrightarrow>
          0 < br_round r \<and> is_valid_index (ds_committee ds) (br_author r)
          \<and> (cached_block ds r = Some b
             \<or> cached_block ds r = None
               \<and> (\<exists>l. fset_last (recent_refs_by_authority ds ! br_author r) = Some l
                     \<and> br_round r \<le> br_round l)))"

definition dag_inv :: "dag_state \<Rightarrow> bool" where
  "dag_inv ds \<longleftrightarrow> cache_inv ds \<and> genesis_inv ds \<and> store_inv ds"

lemma cache_inv_simps:
  assumes "cache_inv ds"
  shows "committee_wf (ds_committee ds)"
    and "committee_base (ds_committee ds)"
    and "length (recent_refs_by_authority ds) = committee_size (ds_committee ds)"
    and "length (evicted_rounds ds) = committee_size (ds_committee ds)"
    and "\<And>r b. cached_block ds r = Some b \<Longrightarrow> reference b = r"
    and "\<And>r b. cached_block ds r = Some b \<Longrightarrow> 0 < br_round r"
    and "\<And>r b. cached_block ds r = Some b \<Longrightarrow> is_valid_index (ds_committee ds) (br_author r)"
    and "\<And>r. is_valid_index (ds_committee ds) (br_author r) \<Longrightarrow>
       r |\<in>| recent_refs_by_authority ds ! br_author r \<longleftrightarrow> cached_block ds r \<noteq> None"
    and "aggregator_inv (ds_committee ds) (tc_aggregator (ds_threshold_clock ds))"
  using assms committee_wf_base by (auto simp: cache_inv_def is_valid_index_def)

lemma store_inv_stored:
  assumes "store_inv ds" "read_block (ds_store ds) r = Some b"
  shows "0 < br_round r \<and> is_valid_index (ds_committee ds) (br_author r)
      \<and> (cached_block ds r = Some b \<or> cached_block ds r = None
        \<and> (\<exists>l. fset_last (recent_refs_by_authority ds ! br_author r) = Some l \<and> br_round r \<le> br_round l))"
  using assms unfolding store_inv_def by blast

lemma get_block_reference:
  assumes "dag_inv ds" "get_block ds r = Some b"
  shows "reference b = r"
  using assms ms_table.lookup_reference [of "ds_store ds" r b]
  by (auto simp: get_block_eq dag_inv_def cache_inv_def genesis_inv_def store_inv_def
    split: if_splits option.splits)

lemma contains_block_get:
  assumes "dag_inv ds" "is_valid_index (ds_committee ds) (br_author r)"
  shows "contains_block ds r = Inr (get_block ds r \<noteq> None)"
proof -
  let ?refs = "recent_refs_by_authority ds ! br_author r"
  have c: "cache_inv ds" "genesis_inv ds" "store_inv ds" using assms(1) by (auto simp: dag_inv_def)
  have idx: "br_author r < length (recent_refs_by_authority ds)"
    using assms(2) c(1) by (simp add: cache_inv_def is_valid_index_def)
  have refs: "r |\<in>| ?refs \<longleftrightarrow> cached_block ds r \<noteq> None"
    using cache_inv_simps(8) [OF c(1) assms(2)] .
  have gen: "br_round r = 0" if "r |\<in>| fmdom (genesis ds)"
    using that c(2) by (auto simp: genesis_inv_def fmlookup_dom_iff)
  have rec: "0 < br_round r" if "cached_block ds r = Some b" for b
    using that cache_inv_simps(6) [OF c(1)] by blast
  have sto: "0 < br_round r \<and> (cached_block ds r \<noteq> None
      \<or> (\<exists>l. fset_last ?refs = Some l \<and> br_round r \<le> br_round l))"
    if "read_block (ds_store ds) r = Some b" for b
    using that c(3) unfolding store_inv_def by (metis option.distinct(1))
  have has: "block_key r |\<in>| fmdom (ms_blocks (ds_store ds)) \<longleftrightarrow> read_block (ds_store ds) r \<noteq> None"
    by (auto simp: read_block_def fmlookup_dom_iff)
  have "contains_block ds r = Inr (case (if r |\<in>| ?refs \<or> r |\<in>| fmdom (genesis ds) then Some True
            else if (case fset_last ?refs of None \<Rightarrow> True | Some l \<Rightarrow> br_round l < br_round r)
            then Some False else None) of Some y \<Rightarrow> y
          | None \<Rightarrow> block_key r |\<in>| fmdom (ms_blocks (ds_store ds)))"
    using idx
    by (simp add: contains_block_def contains_blocks_def store_contains_blocks_def Let_def
      batched_lookup_eq [of _ "\<lambda>r. block_key r |\<in>| fmdom (ms_blocks (ds_store ds))"])
  also have "\<dots> = Inr (get_block ds r \<noteq> None)"
    using refs gen rec sto unfolding has
    by (cases "read_block (ds_store ds) r"; cases "cached_block ds r")
      (auto simp: get_block_eq fmlookup_dom_iff not_less split: option.splits)
  finally show ?thesis .
qed

text \<open>The invariants depend on the cache only through the blocks in it.\<close>

lemma same_cached_inv:
  assumes "dag_inv ds" "cached_block ds' = cached_block ds"
    and "ds_context ds' = ds_context ds" "genesis ds' = genesis ds"
    and "recent_refs_by_authority ds' = recent_refs_by_authority ds"
    and "evicted_rounds ds' = evicted_rounds ds" "ds_threshold_clock ds' = ds_threshold_clock ds"
    and "ds_store ds' = ds_store ds" "cached_rounds ds' = cached_rounds ds"
    and "blocks_to_write ds' = blocks_to_write ds"
  shows "dag_inv ds' \<and> get_block ds' = get_block ds"
proof -
  have "get_block ds' = get_block ds" by (rule ext) (simp add: get_block_eq assms cong: option.case_cong)
  then show ?thesis
    using assms(1) unfolding dag_inv_def cache_inv_def genesis_inv_def store_inv_def by (simp add: assms)
qed

lemma cached_block_simps [simp]:
  "cached_block (ds\<lparr>recent_refs_by_authority := x1\<rparr>) = cached_block ds"
  "cached_block (ds\<lparr>ds_threshold_clock := x2\<rparr>) = cached_block ds"
  "cached_block (ds\<lparr>highest_accepted_round := x3\<rparr>) = cached_block ds"
  "cached_block (ds\<lparr>round_infos := x4\<rparr>) = cached_block ds"
  "cached_block (ds\<lparr>blocks_to_write := x5\<rparr>) = cached_block ds"
  "cached_block (ds\<lparr>evicted_rounds := x6\<rparr>) = cached_block ds"
  "cached_block (ds\<lparr>ds_store := x7\<rparr>) = cached_block ds"
  by (simp_all add: cached_block_def fun_eq_iff)

lemma cache_inv_transfer:
  assumes "cache_inv ds" "cached_block ds' = cached_block ds" "ds_context ds' = ds_context ds"
    and "recent_refs_by_authority ds' = recent_refs_by_authority ds"
    and "evicted_rounds ds' = evicted_rounds ds"
    and "aggregator_inv (ds_committee ds) (tc_aggregator (ds_threshold_clock ds'))"
  shows "cache_inv ds'"
  using assms(1,6) unfolding cache_inv_def by (simp add: assms(2-5))

lemma genesis_inv_transfer:
  assumes "genesis_inv ds" "ds_context ds' = ds_context ds" "genesis ds' = genesis ds"
  shows "genesis_inv ds'"
  using assms(1) unfolding genesis_inv_def by (simp add: assms(2,3))

lemma cached_block_upd:
  "cached_block (ds\<lparr>recent_blocks := fmupd r bi (recent_blocks ds)\<rparr>) =
     (cached_block ds)(r := Some (bi_block bi))"
  by (auto simp: cached_block_def)

subsection \<open>Accepting a block\<close>

lemma tc_add_block_total:
  assumes "committee_base c" "aggregator_inv c (tc_aggregator tc)" "is_valid_index c (br_author r)"
  shows "\<exists>adv tc'. tc_add_block c now r tc = Inr (adv, tc') \<and> aggregator_inv c (tc_aggregator tc')"
proof -
  obtain a where a: "committee_authority c (br_author r) = Inr a"
    using committee_authority_valid [OF assms(3)] by auto
  obtain x1 agg1 where 1: "aggregator_add quorum_is_threshold (br_author r) c aggregator_new = Inr (x1, agg1)"
    "aggregator_inv c agg1"
    using quorum_votes.aggregator_add_ok [OF assms(1) aggregator_new_inv assms(3)] by auto
  obtain x2 agg2 where 2: "aggregator_add quorum_is_threshold (br_author r) c (tc_aggregator tc) = Inr (x2, agg2)"
    "aggregator_inv c agg2"
    using quorum_votes.aggregator_add_ok [OF assms] by auto
  show ?thesis
    using 1 2 assms(2) a by (auto simp: tc_add_block_def)
qed

lemma get_last_block_total:
  assumes "cache_inv ds" "genesis_inv ds" "is_valid_index (ds_committee ds) a"
  shows "\<exists>b. get_last_block_for_authority ds a = Inr b"
proof -
  have idx: "a < length (recent_refs_by_authority ds)"
    using assms(1,3) by (simp add: cache_inv_def is_valid_index_def)
  show ?thesis
  proof (cases "fset_last (recent_refs_by_authority ds ! a)")
    case None
    obtain r b where "fmlookup (genesis ds) r = Some b" "br_author r = a"
      using assms(2,3) by (auto simp: genesis_inv_def is_valid_index_def fmlookup_dom_iff)
    then have "(r, b) \<in> set (sorted_list_of_fmap (genesis ds))"
      by (auto simp: sorted_list_of_fmap_def fmdomI intro!: image_eqI [of _ _ r])
    from find_exists [OF this, of "\<lambda>(r, _). br_author r = a"] \<open>br_author r = a\<close>
    show ?thesis using None idx by (auto simp: get_last_block_for_authority_def)
  next
    case (Some r)
    then have "r |\<in>| recent_refs_by_authority ds ! a" by (simp add: fset_last_Some)
    then have "cached_block ds r \<noteq> None"
      using assms(1,3) by (auto simp: cache_inv_def is_valid_index_def)
    then show ?thesis using Some idx by (auto simp: get_last_block_for_authority_def cached_block_def)
  qed
qed

lemma get_last_proposed_total:
  assumes "cache_inv ds" "genesis_inv ds"
  shows "\<exists>b. get_last_proposed_block ds = Inr b"
  using get_last_block_total [OF assms, of "own_index (ds_context ds)"]
  by (auto simp: get_last_proposed_block_def is_validator_def)

text \<open>What the v3 bookkeeping of children and rounds needs of a block to be accepted.\<close>

definition v3_step :: "dag_state \<Rightarrow> verified_block \<Rightarrow> panic + dag_state" where
  "v3_step ds b = (if enable_v3 (ds_config ds)
     then rbind (rfold (\<lambda>anc ds. add_child ds b anc) (vb_ancestors b) ds) (\<lambda>ds. update_round_info ds b)
     else Inr ds)"

lemma add_child_cached:
  assumes "add_child ds b anc = Inr ds'"
  shows "\<exists>m. ds' = ds\<lparr>recent_blocks := m\<rparr> \<and> cached_block ds' = cached_block ds"
proof (cases "wrap32 (br_round anc + 1) \<noteq> vb_round b \<or> br_round anc \<le> gc_round ds")
  case True
  with assms show ?thesis by (intro exI [of _ "recent_blocks ds"]) (auto simp: add_child_def)
next
  case False
  with assms show ?thesis
    by (auto simp: add_child_def rbind_eq_Inr rexpect_eq cached_block_def fun_eq_iff)
qed

lemma add_children_cached:
  assumes "rfold (\<lambda>anc ds. add_child ds b anc) ancs ds = Inr ds'"
  shows "\<exists>m. ds' = ds\<lparr>recent_blocks := m\<rparr> \<and> cached_block ds' = cached_block ds"
  using assms
proof (induction ancs arbitrary: ds)
  case Nil
  then show ?case by (auto intro!: exI [of _ "recent_blocks ds"])
next
  case (Cons a ancs)
  then obtain ds1 where 1: "add_child ds b a = Inr ds1" "rfold (\<lambda>anc ds. add_child ds b anc) ancs ds1 = Inr ds'"
    by (auto simp: rbind_eq_Inr)
  from add_child_cached [OF 1(1)] Cons.IH [OF 1(2)] show ?case by auto
qed

lemma update_round_info_cached:
  assumes "update_round_info ds b = Inr ds'"
  shows "\<exists>ri. ds' = ds\<lparr>round_infos := ri\<rparr>"
proof (cases "vb_round b \<le> gc_round ds")
  case True
  with assms show ?thesis
    by (intro exI [of _ "round_infos ds"]) (auto simp: update_round_info_def Let_def)
next
  case False
  with assms show ?thesis
    by (fastforce simp: update_round_info_def Let_def rbind_eq_Inr split: list.splits)
qed

lemma v3_step_cached:
  assumes "v3_step ds b = Inr ds'"
  shows "\<exists>m ri. ds' = ds\<lparr>recent_blocks := m, round_infos := ri\<rparr> \<and> cached_block ds' = cached_block ds"
proof (cases "enable_v3 (ds_config ds)")
  case True
  with assms obtain ds1 where 1: "rfold (\<lambda>anc ds. add_child ds b anc) (vb_ancestors b) ds = Inr ds1"
    "update_round_info ds1 b = Inr ds'"
    by (auto simp: v3_step_def rbind_eq_Inr)
  from add_children_cached [OF 1(1)] update_round_info_cached [OF 1(2)]
  show ?thesis by (auto simp: cached_block_def fun_eq_iff)
next
  case False
  with assms show ?thesis
    by (auto simp: v3_step_def intro!: exI [of _ "recent_blocks ds"] exI [of _ "round_infos ds"])
qed

definition insert_cached :: "verified_block \<Rightarrow> dag_state \<Rightarrow> dag_state" where
  "insert_cached b ds = ds\<lparr>recent_blocks := fmupd (reference b) (block_info_new b) (recent_blocks ds),
     recent_refs_by_authority := (recent_refs_by_authority ds)
       [vb_author b := finsert (reference b) (recent_refs_by_authority ds ! vb_author b)]\<rparr>"

lemma insert_cached_simps [simp]:
  "ds_context (insert_cached b ds) = ds_context ds"
  "genesis (insert_cached b ds) = genesis ds"
  "ds_store (insert_cached b ds) = ds_store ds"
  "ds_threshold_clock (insert_cached b ds) = ds_threshold_clock ds"
  "evicted_rounds (insert_cached b ds) = evicted_rounds ds"
  "highest_accepted_round (insert_cached b ds) = highest_accepted_round ds"
  "blocks_to_write (insert_cached b ds) = blocks_to_write ds"
  "cached_rounds (insert_cached b ds) = cached_rounds ds"
  "cached_block (insert_cached b ds) = (cached_block ds)(reference b := Some b)"
  by (auto simp: insert_cached_def cached_block_def block_info_new_def)

lemma insert_cached_inv:
  assumes "cache_inv ds" "is_valid_index (ds_committee ds) (vb_author b)" "0 < vb_round b"
  shows "cache_inv (insert_cached b ds)"
proof -
  have idx: "vb_author b < length (recent_refs_by_authority ds)"
    using assms(1,2) by (simp add: cache_inv_def is_valid_index_def)
  have refs: "r |\<in>| recent_refs_by_authority (insert_cached b ds) ! a
      \<longleftrightarrow> cached_block (insert_cached b ds) r \<noteq> None \<and> br_author r = a"
    if "a < committee_size (ds_committee ds)" for a r
    using assms that idx
    by (auto simp: insert_cached_def cache_inv_def nth_list_update cached_block_def block_info_new_def)
  have len: "length (recent_refs_by_authority (insert_cached b ds)) = committee_size (ds_committee ds)"
    using assms(1) by (simp add: insert_cached_def cache_inv_def)
  have keys: "reference b' = r \<and> 0 < br_round r \<and> is_valid_index (ds_committee ds) (br_author r)"
    if "cached_block (insert_cached b ds) r = Some b'" for r b'
    using that assms cache_inv_simps(5-7) [OF assms(1), of r b'] by (auto split: if_splits)
  show ?thesis
    unfolding cache_inv_def insert_cached_simps(1,4,5)
    using cache_inv_simps(1,4,9) [OF assms(1)] len keys refs by blast
qed

lemma update_block_metadata_eq:
  assumes "vb_author b < length (recent_refs_by_authority ds)"
  shows "update_block_metadata now b ds =
    rbind (v3_step (insert_cached b ds) b) (\<lambda>ds.
    rbind (tc_add_block (ds_committee ds) now (reference b) (ds_threshold_clock ds)) (\<lambda>(advanced, tc).
    let ds = ds\<lparr>ds_threshold_clock := tc\<rparr> in
    rbind (if advanced then get_last_proposed_block ds else Inr None) (\<lambda>_.
    let ds = ds\<lparr>highest_accepted_round := max (highest_accepted_round ds) (vb_round b)\<rparr> in
    rbind (committee_authority (ds_committee ds) (vb_author b)) (\<lambda>_.
    Inr ds))))"
  using assms by (simp add: update_block_metadata_def v3_step_def insert_cached_def Let_def)

lemma update_block_metadata_ok:
  assumes "cache_inv ds" "genesis_inv ds" "is_valid_index (ds_committee ds) (vb_author b)"
    and "0 < vb_round b" "is_ok (v3_step (insert_cached b ds) b)"
  shows "\<exists>m ri tc. let ds' = (insert_cached b ds)\<lparr>recent_blocks := m, round_infos := ri,
        ds_threshold_clock := tc, highest_accepted_round := max (highest_accepted_round ds) (vb_round b)\<rparr>
    in update_block_metadata now b ds = Inr ds' \<and> cache_inv ds' \<and> genesis_inv ds'
       \<and> cached_block ds' = (cached_block ds)(reference b := Some b)
       \<and> v3_step (insert_cached b ds) b = Inr ((insert_cached b ds)\<lparr>recent_blocks := m, round_infos := ri\<rparr>)"
proof -
  let ?i = "insert_cached b ds" and ?c = "ds_committee ds"
  have idx: "vb_author b < length (recent_refs_by_authority ds)"
    using assms(1,3) by (simp add: cache_inv_def is_valid_index_def)
  have inv_i: "cache_inv ?i" using insert_cached_inv [OF assms(1,3,4)] .
  obtain ds1 where v3: "v3_step ?i b = Inr ds1" using assms(5) by (auto simp: is_ok_iff)
  obtain m ri where e: "ds1 = ?i\<lparr>recent_blocks := m, round_infos := ri\<rparr>
      \<and> cached_block ds1 = cached_block ?i"
    using v3_step_cached [OF v3] by (elim exE)
  have ds1: "ds1 = ?i\<lparr>recent_blocks := m, round_infos := ri\<rparr>"
    "cached_block ds1 = (cached_block ds)(reference b := Some b)"
    by (rule conjunct1 [OF e]) (simp only: conjunct2 [OF e] insert_cached_simps(9))
  obtain adv tc where tc: "tc_add_block ?c now (reference b) (ds_threshold_clock ds) = Inr (adv, tc)"
    "aggregator_inv ?c (tc_aggregator tc)"
    using tc_add_block_total [OF cache_inv_simps(2,9) [OF assms(1)], of "reference b" now] assms(3)
    by auto
  let ?ds2 = "ds1\<lparr>ds_threshold_clock := tc\<rparr>"
  have fields: "ds_context ds1 = ds_context ds" "genesis ds1 = genesis ds"
    "recent_refs_by_authority ds1 = recent_refs_by_authority ?i" "evicted_rounds ds1 = evicted_rounds ds"
    "ds_threshold_clock ds1 = ds_threshold_clock ds" "highest_accepted_round ds1 = highest_accepted_round ds"
    by (simp_all add: ds1(1))
  have inv2: "cache_inv ?ds2"
    by (rule cache_inv_transfer [OF inv_i]; simp add: fields ds1(2) tc(2))
  have gen2: "genesis_inv ?ds2"
    by (rule genesis_inv_transfer [OF assms(2)]; simp add: fields)
  obtain p where p: "get_last_proposed_block ?ds2 = Inr p"
    using get_last_proposed_total [OF inv2 gen2] by auto
  obtain au where au: "committee_authority ?c (vb_author b) = Inr au"
    using committee_authority_valid [OF assms(3)] by auto
  let ?ds3 = "?ds2\<lparr>highest_accepted_round := max (highest_accepted_round ds) (vb_round b)\<rparr>"
  have "update_block_metadata now b ds = Inr ?ds3"
    using tc(1) p au by (simp add: update_block_metadata_eq [OF idx] v3 fields Let_def)
  moreover have "cache_inv ?ds3"
    by (rule cache_inv_transfer [OF inv2]; simp add: fields tc(2))
  moreover have "genesis_inv ?ds3"
    by (rule genesis_inv_transfer [OF assms(2)]; simp add: fields)
  moreover have "cached_block ?ds3 = (cached_block ds)(reference b := Some b)"
    using ds1(2) by (simp add: cached_block_def)
  ultimately show ?thesis
    using v3 unfolding ds1(1) Let_def by (intro exI [of _ m] exI [of _ ri] exI [of _ tc]) simp
qed

lemma insert_cached_refs:
  assumes "cache_inv ds" "a < committee_size (ds_committee ds)"
  shows "recent_refs_by_authority (insert_cached b ds) ! a =
    (if a = vb_author b then finsert (reference b) (recent_refs_by_authority ds ! a)
     else recent_refs_by_authority ds ! a)"
  using assms by (auto simp: insert_cached_def cache_inv_def nth_list_update)

lemma fset_last_bound: "x |\<in>| A \<Longrightarrow> \<exists>l. fset_last A = Some l \<and> x \<le> l"
  by (metis fset_last_None fset_last_Some option.exhaust fempty_iff)

lemma fset_last_finsert:
  assumes "fset_last A = Some l"
  shows "\<exists>m. fset_last (finsert x A) = Some m \<and> l \<le> m"
  using assms by (intro exI [of _ "max x l"]) (auto simp: fset_last_Some max_def)

lemma insert_cached_store_inv:
  assumes "cache_inv ds" "store_inv ds" "get_block ds (reference b) = None" "0 < vb_round b"
  shows "store_inv ((insert_cached b ds)\<lparr>blocks_to_write := blocks_to_write ds @ [b]\<rparr>)"
proof -
  let ?i = "insert_cached b ds"
  have new: "cached_block ds (reference b) = None" "read_block (ds_store ds) (reference b) = None"
    using assms(3,4) by (auto simp: get_block_eq split: option.splits)
  have stored: "0 < br_round r \<and> is_valid_index (ds_committee ds) (br_author r)
      \<and> (cached_block ?i r = Some b' \<or> cached_block ?i r = None
        \<and> (\<exists>l. fset_last (recent_refs_by_authority ?i ! br_author r) = Some l \<and> br_round r \<le> br_round l))"
    if r: "read_block (ds_store ds) r = Some b'" for r b'
  proof -
    have ne: "r \<noteq> reference b" using r new(2) by auto
    have old: "0 < br_round r" "is_valid_index (ds_committee ds) (br_author r)"
      "cached_block ds r = Some b' \<or> cached_block ds r = None
        \<and> (\<exists>l. fset_last (recent_refs_by_authority ds ! br_author r) = Some l \<and> br_round r \<le> br_round l)"
      using r assms(2) unfolding store_inv_def by blast+
    have "\<exists>m. fset_last (recent_refs_by_authority ?i ! br_author r) = Some m \<and> br_round r \<le> br_round m"
      if l: "fset_last (recent_refs_by_authority ds ! br_author r) = Some l" "br_round r \<le> br_round l" for l
      using insert_cached_refs [OF assms(1), of "br_author r" b] old(2) l fset_last_finsert [OF l(1), of "reference b"]
      by (auto simp: is_valid_index_def dest!: block_ref_le_round)
    with old ne show ?thesis by (auto simp: fun_upd_apply)
  qed
  show ?thesis
    using assms(2) new stored unfolding store_inv_def by (auto simp: fun_upd_apply)
qed

lemma store_inv_transfer:
  assumes "store_inv ds" "cached_block ds' = cached_block ds" "ds_context ds' = ds_context ds"
    and "recent_refs_by_authority ds' = recent_refs_by_authority ds" "ds_store ds' = ds_store ds"
    and "cached_rounds ds' = cached_rounds ds" "blocks_to_write ds' = blocks_to_write ds"
  shows "store_inv ds'"
  using assms(1) unfolding store_inv_def by (simp add: assms(2-7))

text \<open>
  The bookkeeping of v3 succeeds on a block whose parents above the GC round are cached and which
  opens at most the next round; the kept rounds are contiguous.
\<close>

definition rounds_inv :: "dag_state \<Rightarrow> bool" where
  "rounds_inv ds \<longleftrightarrow>
     (\<exists>start. map ri_round (round_infos ds) = [start..<start + length (round_infos ds)]
        \<and> (round_infos ds \<noteq> [] \<longrightarrow> start \<le> gc_round ds + 1)
        \<and> start + length (round_infos ds) \<le> u32_max)"

definition next_round_bound :: "dag_state \<Rightarrow> round_number" where
  "next_round_bound ds = (if round_infos ds = [] then gc_round ds + 1 else ri_round (last (round_infos ds)) + 1)"

definition v3_ready :: "dag_state \<Rightarrow> verified_block \<Rightarrow> bool" where
  "v3_ready ds b \<longleftrightarrow> rounds_inv ds \<and> vb_round b < u32_max
     \<and> (\<forall>anc \<in> set (vb_ancestors b). wrap32 (br_round anc + 1) = vb_round b \<longrightarrow> gc_round ds < br_round anc
          \<longrightarrow> cached_block ds anc \<noteq> None)
     \<and> (gc_round ds < vb_round b \<longrightarrow> vb_round b \<le> next_round_bound ds)"

lemma gc_round_simps [simp]:
  "gc_round (ds\<lparr>recent_blocks := m\<rparr>) = gc_round ds"
  "gc_round (ds\<lparr>round_infos := ri\<rparr>) = gc_round ds"
  "gc_round (insert_cached b ds) = gc_round ds"
  "gc_round (ds\<lparr>ds_threshold_clock := tc\<rparr>) = gc_round ds"
  "gc_round (ds\<lparr>highest_accepted_round := h\<rparr>) = gc_round ds"
  "gc_round (ds\<lparr>blocks_to_write := bs\<rparr>) = gc_round ds"
  by (simp_all add: gc_round_def calculate_gc_round_def last_commit_round_def insert_cached_def)

lemma aggregator_add_unique_total:
  assumes "is_valid_index c a"
  shows "\<exists>x agg'. aggregator_add_unique a c agg = Inr (x, agg')"
  using assms by (auto simp: aggregator_add_unique_def committee_stake_valid)

lemma add_children_total:
  assumes "is_valid_index (ds_committee ds) (vb_author b)"
    and "\<forall>anc \<in> set ancs. wrap32 (br_round anc + 1) = vb_round b \<longrightarrow> gc_round ds < br_round anc
          \<longrightarrow> cached_block ds anc \<noteq> None"
  shows "\<exists>m. rfold (\<lambda>anc ds. add_child ds b anc) ancs ds = Inr (ds\<lparr>recent_blocks := m\<rparr>)"
  using assms
proof (induction ancs arbitrary: ds)
  case Nil
  then show ?case by (auto intro!: exI [of _ "recent_blocks ds"])
next
  case (Cons a ancs)
  have "\<exists>ds'. add_child ds b a = Inr ds'"
  proof (cases "wrap32 (br_round a + 1) \<noteq> vb_round b \<or> br_round a \<le> gc_round ds")
    case False
    then obtain bi where bi: "fmlookup (recent_blocks ds) a = Some bi"
      using Cons.prems(2) by (auto simp: cached_block_def)
    obtain x agg where "aggregator_add_unique (vb_author b) (ds_committee ds) (children_stake bi) = Inr (x, agg)"
      using aggregator_add_unique_total [OF Cons.prems(1)] by blast
    then show ?thesis using False bi by (simp add: add_child_def)
  qed (simp add: add_child_def)
  then obtain ds' where ds': "add_child ds b a = Inr ds'" by blast
  obtain m where m: "ds' = ds\<lparr>recent_blocks := m\<rparr> \<and> cached_block ds' = cached_block ds"
    using add_child_cached [OF ds'] by (elim exE)
  have f: "ds_context ds' = ds_context ds" "gc_round ds' = gc_round ds" "cached_block ds' = cached_block ds"
    by (simp_all only: conjunct2 [OF m]) (simp_all add: conjunct1 [OF m])
  have "\<exists>m. rfold (\<lambda>anc ds. add_child ds b anc) ancs ds' = Inr (ds'\<lparr>recent_blocks := m\<rparr>)"
    by (rule Cons.IH) (use Cons.prems f in simp_all)
  then obtain m' where "rfold (\<lambda>anc ds. add_child ds b anc) ancs ds' = Inr (ds'\<lparr>recent_blocks := m'\<rparr>)" by (elim exE)
  then show ?case using ds' by (intro exI [of _ m']) (simp add: conjunct1 [OF m])
qed

lemma rounds_inv_nth:
  assumes "map ri_round infos = [start..<start + length infos]" "i < length infos"
  shows "ri_round (infos ! i) = start + i"
proof -
  have "map ri_round infos ! i = [start..<start + length infos] ! i" by (simp only: assms(1))
  then show ?thesis using assms(2) by simp
qed

lemma update_round_info_total:
  assumes "rounds_inv ds" "is_valid_index (ds_committee ds) (vb_author b)" "vb_round b < u32_max"
    and "gc_round ds < vb_round b \<longrightarrow> vb_round b \<le> next_round_bound ds"
  shows "\<exists>ri. update_round_info ds b = Inr (ds\<lparr>round_infos := ri\<rparr>) \<and> rounds_inv (ds\<lparr>round_infos := ri\<rparr>)"
proof (cases "vb_round b \<le> gc_round ds")
  case True
  then show ?thesis using assms(1) by (intro exI [of _ "round_infos ds"]) (simp add: update_round_info_def)
next
  case False
  let ?infos = "round_infos ds" and ?r = "vb_round b"
  obtain start where start: "map ri_round ?infos = [start..<start + length ?infos]"
    "?infos \<noteq> [] \<longrightarrow> start \<le> gc_round ds + 1" "start + length ?infos \<le> u32_max"
    using assms(1) by (auto simp: rounds_inv_def)
  have above: "gc_round ds < ?r" using False by simp
  define nr where "nr = (case rev ?infos of info # _ \<Rightarrow> wrap32 (ri_round info + 1) | [] \<Rightarrow> wrap32 (gc_round ds + 1))"
  have nr: "nr = next_round_bound ds \<and> (?infos = [] \<longrightarrow> nr = gc_round ds + 1) \<and> (?infos \<noteq> [] \<longrightarrow> nr = start + length ?infos)"
  proof (cases ?infos rule: rev_cases)
    case Nil
    then show ?thesis using above assms(3) by (simp add: nr_def next_round_bound_def wrap32_def u32_max_def)
  next
    case (snoc xs info)
    then have "ri_round info = start + length xs"
      using rounds_inv_nth [OF start(1), of "length xs"] by simp
    then show ?thesis using snoc start(3) by (simp add: nr_def next_round_bound_def wrap32_def u32_max_def)
  qed
  define infos' where "infos' = (if ?r = nr then ?infos @ [round_info_new ?r] else ?infos)"
  have le: "?r \<le> nr" using assms(4) above nr by simp
  obtain start' where s': "map ri_round infos' = [start'..<start' + length infos']" "start' \<le> gc_round ds + 1"
    "start' \<le> ?r" "?r < start' + length infos'" "start' + length infos' \<le> u32_max"
  proof (cases "?infos = []")
    case True
    then have "?r = nr" "nr = gc_round ds + 1" using le above nr by simp_all
    with True assms(3) show thesis by (intro that [of ?r]) (simp_all add: infos'_def round_info_new_def)
  next
    case False
    then have "start \<le> ?r" "nr = start + length ?infos" using start(2) above nr by simp_all
    then show thesis
      using False start le assms(3) by (intro that [of start]) (auto simp: infos'_def round_info_new_def)
  qed
  let ?i = "?r - start'"
  have i: "?i < length infos'" using s'(3,4) by linarith
  obtain front rest where fr: "infos' = front # rest" using i by (cases infos') auto
  have front: "ri_round front = start'" using rounds_inv_nth [OF s'(1), of 0] fr by simp
  obtain x agg where agg: "aggregator_add_unique (vb_author b) (ds_committee ds) (ri_total_stake (infos' ! ?i)) = Inr (x, agg)"
    using aggregator_add_unique_total [OF assms(2)] by blast
  let ?info = "(infos' ! ?i)\<lparr>ri_blocks := finsert (reference b) (ri_blocks (infos' ! ?i)), ri_total_stake := agg\<rparr>"
  have get: "vec_get infos' ?i = Inr (infos' ! ?i)" using i by simp
  have "update_round_info ds b = Inr (ds\<lparr>round_infos := infos'[?i := ?info]\<rparr>)"
    unfolding update_round_info_def Let_def nr_def [symmetric] infos'_def [symmetric]
    using False le s'(3) front agg get unfolding fr by simp
  moreover have "map ri_round (infos'[?i := ?info]) = map ri_round infos'"
    using i by (simp add: map_update list_update_same_conv)
  then have "rounds_inv (ds\<lparr>round_infos := infos'[?i := ?info]\<rparr>)"
    using s'(1,2,5) unfolding rounds_inv_def by (intro exI [of _ start']) simp
  ultimately show ?thesis by (intro exI [of _ "infos'[?i := ?info]"]) simp
qed

lemma v3_step_ok:
  assumes "is_valid_index (ds_committee ds) (vb_author b)" "enable_v3 (ds_config ds) \<longrightarrow> v3_ready ds b"
  shows "is_ok (v3_step (insert_cached b ds) b)"
proof (cases "enable_v3 (ds_config ds)")
  case True
  let ?i = "insert_cached b ds"
  have ready: "v3_ready ds b" using assms(2) True by simp
  have "\<exists>m. rfold (\<lambda>anc ds. add_child ds b anc) (vb_ancestors b) ?i = Inr (?i\<lparr>recent_blocks := m\<rparr>)"
    by (rule add_children_total) (use ready assms(1) in \<open>auto simp: v3_ready_def\<close>)
  then obtain m where m: "rfold (\<lambda>anc ds. add_child ds b anc) (vb_ancestors b) ?i = Inr (?i\<lparr>recent_blocks := m\<rparr>)"
    by (elim exE)
  have "round_infos ?i = round_infos ds" by (simp add: insert_cached_def)
  then have "rounds_inv (?i\<lparr>recent_blocks := m\<rparr>)" "next_round_bound (?i\<lparr>recent_blocks := m\<rparr>) = next_round_bound ds"
    using ready by (simp_all add: rounds_inv_def next_round_bound_def v3_ready_def)
  then have "\<exists>ri. update_round_info (?i\<lparr>recent_blocks := m\<rparr>) b = Inr (?i\<lparr>recent_blocks := m, round_infos := ri\<rparr>)"
    using update_round_info_total [of "?i\<lparr>recent_blocks := m\<rparr>" b] assms(1) ready by (auto simp: v3_ready_def)
  then show ?thesis using True m by (auto simp: v3_step_def)
qed (simp add: v3_step_def)

lemma accept_block_ok:
  assumes "dag_inv ds" "is_valid_index (ds_committee ds) (vb_author b)" "0 < vb_round b"
    and "vb_author b = own_index (ds_context ds) \<Longrightarrow> skip_equivocation_validation (ctx_parameters (ds_context ds))
      \<or> get_uncommitted_blocks_at_slot ds (slot_of_ref (reference b)) = []"
    and "is_ok (v3_step (insert_cached b ds) b)"
  shows "\<exists>ds'. accept_block now b ds = Inr ds' \<and> dag_inv ds'
    \<and> get_block ds' = (if get_block ds (reference b) = None
        then (get_block ds)(reference b := Some b) else get_block ds)"
proof -
  have inv: "cache_inv ds" "genesis_inv ds" "store_inv ds" using assms(1) by (auto simp: dag_inv_def)
  have known: "contains_block ds (reference b) = Inr (get_block ds (reference b) \<noteq> None)"
    using contains_block_get [OF assms(1), of "reference b"] assms(2) by simp
  obtain au where au: "committee_authority (ds_committee ds) (vb_author b) = Inr au"
    using committee_authority_valid [OF assms(2)] by auto
  show ?thesis
  proof (cases "get_block ds (reference b) = None")
    case False
    then show ?thesis using known assms(1,3) by (auto simp: accept_block_def)
  next
    case True
    obtain m ri tc where upd: "let ds' = (insert_cached b ds)\<lparr>recent_blocks := m, round_infos := ri,
        ds_threshold_clock := tc, highest_accepted_round := max (highest_accepted_round ds) (vb_round b)\<rparr>
      in update_block_metadata now b ds = Inr ds' \<and> cache_inv ds' \<and> genesis_inv ds'
         \<and> cached_block ds' = (cached_block ds)(reference b := Some b)
         \<and> v3_step (insert_cached b ds) b = Inr ((insert_cached b ds)\<lparr>recent_blocks := m, round_infos := ri\<rparr>)"
      using update_block_metadata_ok [OF inv(1,2) assms(2,3,5), of now] by (elim exE)
    define ds1 where "ds1 = (insert_cached b ds)\<lparr>recent_blocks := m, round_infos := ri,
        ds_threshold_clock := tc, highest_accepted_round := max (highest_accepted_round ds) (vb_round b)\<rparr>"
    have ds1: "update_block_metadata now b ds = Inr ds1" "cache_inv ds1" "genesis_inv ds1"
      "cached_block ds1 = (cached_block ds)(reference b := Some b)"
      using upd unfolding Let_def ds1_def [symmetric] by simp_all
    let ?ds2 = "ds1\<lparr>blocks_to_write := blocks_to_write ds1 @ [b]\<rparr>"
    have f: "ds_context ds1 = ds_context ds" "genesis ds1 = genesis ds" "ds_store ds1 = ds_store ds"
      "recent_refs_by_authority ds1 = recent_refs_by_authority (insert_cached b ds)"
      "blocks_to_write ds1 = blocks_to_write ds" "cached_rounds ds1 = cached_rounds ds"
      "evicted_rounds ds1 = evicted_rounds ds"
      by (simp_all add: ds1_def)
    have acc: "accept_block now b ds = Inr ?ds2"
      using known True au assms(3,4) ds1(1) by (auto simp: accept_block_def)
    have "cache_inv ?ds2"
      by (rule cache_inv_transfer [OF ds1(2)]; simp add: cache_inv_simps(9) [OF ds1(2)])
    moreover have "genesis_inv ?ds2" by (rule genesis_inv_transfer [OF ds1(3)]; simp)
    moreover have "store_inv ?ds2"
      by (rule store_inv_transfer [OF insert_cached_store_inv [OF inv(1,3) True assms(3)]]; simp add: f ds1(4))
    moreover have "get_block ?ds2 = (get_block ds)(reference b := Some b)"
      using assms(3) by (auto simp: fun_eq_iff get_block_eq f ds1(4) cong: option.case_cong)
    ultimately show ?thesis using acc True by (auto simp: dag_inv_def)
  qed
qed

subsection \<open>Flushing and eviction\<close>

lemma takeWhile_sorted:
  fixes xs :: "'a :: linorder list"
  assumes "sorted xs" "\<And>x y. x \<le> y \<Longrightarrow> P y \<Longrightarrow> P x"
  shows "takeWhile P xs = filter P xs"
  using assms(1)
proof (induction xs)
  case (Cons x xs)
  have "filter P xs = []" if "\<not> P x"
    using Cons.prems assms(2) that by (auto simp: filter_empty_conv)
  then show ?case using Cons by simp
qed simp

lemma evicted_iff:
  "r |\<in>| fset_of_list (takeWhile (\<lambda>r. br_round r \<le> ev) (sorted_list_of_fset refs))
    \<longleftrightarrow> r |\<in>| refs \<and> br_round r \<le> ev"
proof -
  have "takeWhile (\<lambda>r. br_round r \<le> ev) (sorted_list_of_fset refs)
      = filter (\<lambda>r. br_round r \<le> ev) (sorted_list_of_fset refs)"
    by (rule takeWhile_sorted) (auto simp: sorted_list_of_fset.rep_eq dest: block_ref_le_round)
  then show ?thesis by (auto simp: fset_of_list_elem)
qed

lemma read_block_flushed:
  assumes "store_inv ds" "cache_inv ds"
  shows "read_block (store_write \<lparr>wb_blocks = blocks_to_write ds, wb_commits = cs, wb_commit_info = ci,
      wb_finalized_commits = fc\<rparr> (ds_store ds)) r =
    (case cached_block ds r of Some b \<Rightarrow> Some b | None \<Rightarrow> read_block (ds_store ds) r)"
proof -
  have ms: "mem_store_inv (ds_store ds)" using assms by (simp add: store_inv_def)
  have dirty: "cached_block ds (reference b) = Some b" if "b \<in> set (blocks_to_write ds)" for b
    using that assms by (simp add: store_inv_def)
  have clean: "read_block (ds_store ds) r = Some b" if "cached_block ds r = Some b"
    "find (\<lambda>b. reference b = r) (rev (blocks_to_write ds)) = None" "reference b = r" for b
    using that assms by (auto simp: store_inv_def find_None_iff)
  have key: "reference b = r" if "cached_block ds r = Some b" for b
    using cache_inv_simps(5) [OF assms(2) that] .
  show ?thesis
  proof (cases "find (\<lambda>b. reference b = r) (rev (blocks_to_write ds))")
    case None
    then show ?thesis
      using clean key by (simp add: store_write_read ms_table.lookup_fold [OF ms] split: option.split)
  next
    case (Some b)
    then have "b \<in> set (blocks_to_write ds)" "reference b = r" by (auto dest: find_SomeD)
    then show ?thesis
      using Some dirty [of b] by (simp add: store_write_read ms_table.lookup_fold [OF ms])
  qed
qed

lemma evict_authority_eq:
  assumes "cache_inv ds" "a < committee_size (ds_committee ds)"
  shows "\<exists>ev E. evict_authority a ds = Inr (ds\<lparr>recent_blocks := fmdrop_fset E (recent_blocks ds),
        recent_refs_by_authority := (recent_refs_by_authority ds)[a := recent_refs_by_authority ds ! a |-| E],
        evicted_rounds := (evicted_rounds ds)[a := ev]\<rparr>)
    \<and> calculate_authority_eviction_round ds a = Inr ev
    \<and> (\<forall>r. r |\<in>| E \<longleftrightarrow> r |\<in>| recent_refs_by_authority ds ! a \<and> br_round r \<le> ev)"
  using assms
  by (intro exI [of _ "THE ev. calculate_authority_eviction_round ds a = Inr ev"]
        exI [of _ "fset_of_list (takeWhile (\<lambda>r. br_round r \<le> (THE ev. calculate_authority_eviction_round ds a = Inr ev))
          (sorted_list_of_fset (recent_refs_by_authority ds ! a)))"])
    (simp add: evict_authority_def calculate_authority_eviction_round_def cache_inv_def evicted_iff Let_def)

lemma eviction_keeps_last:
  assumes "calculate_authority_eviction_round ds a = Inr ev" "0 < cached_rounds ds"
    and "a < length (recent_refs_by_authority ds)"
    and "fset_last (recent_refs_by_authority ds ! a) = Some l" "0 < br_round l"
  shows "ev < br_round l"
  using assms by (auto simp: calculate_authority_eviction_round_def eviction_round_def)

text \<open>Evicting the blocks of one authority, when all cached blocks are stored.\<close>

lemma evict_authority_ok:
  assumes "dag_inv ds" "blocks_to_write ds = []" "a < committee_size (ds_committee ds)"
  shows "\<exists>ds' ev. evict_authority a ds = Inr ds' \<and> calculate_authority_eviction_round ds a = Inr ev
    \<and> dag_inv ds' \<and> blocks_to_write ds' = [] \<and> get_block ds' = get_block ds
    \<and> ds_context ds' = ds_context ds \<and> ds_store ds' = ds_store ds
    \<and> (\<forall>r. cached_block ds' r = (if br_author r = a \<and> br_round r \<le> ev then None else cached_block ds r))"
proof -
  have inv: "cache_inv ds" "genesis_inv ds" "store_inv ds" using assms(1) by (auto simp: dag_inv_def)
  obtain ev E where e: "evict_authority a ds = Inr (ds\<lparr>recent_blocks := fmdrop_fset E (recent_blocks ds),
        recent_refs_by_authority := (recent_refs_by_authority ds)[a := recent_refs_by_authority ds ! a |-| E],
        evicted_rounds := (evicted_rounds ds)[a := ev]\<rparr>)
    \<and> calculate_authority_eviction_round ds a = Inr ev
    \<and> (\<forall>r. r |\<in>| E \<longleftrightarrow> r |\<in>| recent_refs_by_authority ds ! a \<and> br_round r \<le> ev)"
    using evict_authority_eq [OF inv(1) assms(3)] by (elim exE)
  define ds' where "ds' = ds\<lparr>recent_blocks := fmdrop_fset E (recent_blocks ds),
        recent_refs_by_authority := (recent_refs_by_authority ds)[a := recent_refs_by_authority ds ! a |-| E],
        evicted_rounds := (evicted_rounds ds)[a := ev]\<rparr>"
  have E: "r |\<in>| E \<longleftrightarrow> cached_block ds r \<noteq> None \<and> br_author r = a \<and> br_round r \<le> ev" for r
    using e inv(1) assms(3) by (auto simp: cache_inv_def)
  have ev: "calculate_authority_eviction_round ds a = Inr ev" using e by blast
  have cached: "cached_block ds' r = (if br_author r = a \<and> br_round r \<le> ev then None else cached_block ds r)" for r
    using E [of r] by (auto simp: ds'_def cached_block_def)
  have f: "ds_context ds' = ds_context ds" "genesis ds' = genesis ds" "ds_store ds' = ds_store ds"
    "blocks_to_write ds' = []" "cached_rounds ds' = cached_rounds ds"
    "ds_threshold_clock ds' = ds_threshold_clock ds"
    using assms(2) by (simp_all add: ds'_def)
  have refs: "recent_refs_by_authority ds' ! i =
      (if i = a then recent_refs_by_authority ds ! a |-| E else recent_refs_by_authority ds ! i)"
    if "i < committee_size (ds_committee ds)" for i
    using that inv(1) by (simp add: ds'_def cache_inv_def nth_list_update)
  have refs_iff: "r |\<in>| recent_refs_by_authority ds' ! i \<longleftrightarrow> cached_block ds' r \<noteq> None \<and> br_author r = i"
    if "i < committee_size (ds_committee ds)" for i r
    using that inv(1) E [of r] by (auto simp: refs cached cache_inv_def)
  have cinv: "cache_inv ds'"
    unfolding cache_inv_def f
    using inv(1) refs_iff cached by (auto simp: cache_inv_def ds'_def split: if_splits)
  have last: "fset_last (recent_refs_by_authority ds' ! i) = Some l"
    if l: "fset_last (recent_refs_by_authority ds ! i) = Some l" and i: "i < committee_size (ds_committee ds)" for i l
  proof (cases "i = a")
    case True
    have "0 < br_round l"
      using l i inv(1) by (auto simp: cache_inv_def fset_last_Some)
    then have "ev < br_round l"
      using eviction_keeps_last [OF ev, of l] l i True inv(1,3) by (simp add: cache_inv_def store_inv_def)
    then have "l |\<notin>| E" by (simp add: E)
    then show ?thesis using l i True by (auto simp: refs fset_last_Some)
  qed (use l i in \<open>simp add: refs\<close>)
  have stored: "0 < br_round r \<and> is_valid_index (ds_committee ds) (br_author r)
      \<and> (cached_block ds' r = Some b \<or> cached_block ds' r = None
        \<and> (\<exists>l. fset_last (recent_refs_by_authority ds' ! br_author r) = Some l \<and> br_round r \<le> br_round l))"
    if r: "read_block (ds_store ds) r = Some b" for r b
  proof -
    have old: "0 < br_round r" "is_valid_index (ds_committee ds) (br_author r)"
      "cached_block ds r = Some b \<or> cached_block ds r = None
        \<and> (\<exists>l. fset_last (recent_refs_by_authority ds ! br_author r) = Some l \<and> br_round r \<le> br_round l)"
      using r inv(3) unfolding store_inv_def by blast+
    have "\<exists>l. fset_last (recent_refs_by_authority ds ! br_author r) = Some l \<and> br_round r \<le> br_round l"
      using old(3) inv(1) old(2) fset_last_bound [of r "recent_refs_by_authority ds ! br_author r"]
      by (auto simp: cache_inv_def is_valid_index_def dest: block_ref_le_round)
    then have "\<exists>l. fset_last (recent_refs_by_authority ds' ! br_author r) = Some l \<and> br_round r \<le> br_round l"
      using last old(2) by (auto simp: is_valid_index_def)
    with old show ?thesis by (auto simp: cached)
  qed
  have sinv: "store_inv ds'"
    unfolding store_inv_def f
    using inv(3) assms(2) stored by (auto simp: store_inv_def cached split: if_splits)
  have "get_block ds' r = get_block ds r" for r
    using inv(3) assms(2) by (auto simp: get_block_eq f cached store_inv_def split: option.splits)
  moreover have "genesis_inv ds'" by (rule genesis_inv_transfer [OF inv(2)]; simp add: f)
  ultimately show ?thesis
    using e f cinv sinv cached ev unfolding ds'_def [symmetric] dag_inv_def
    by (intro exI [of _ ds'] exI [of _ ev]) auto
qed

lemma evict_authority_gc:
  assumes "evict_authority a ds = Inr ds'"
  shows "gc_round ds' = gc_round ds"
  using assms
  by (auto simp: evict_authority_def rbind_eq_Inr Let_def gc_round_def calculate_gc_round_def last_commit_round_def)

lemma evict_authorities_ok:
  assumes "dag_inv ds" "blocks_to_write ds = []" "\<forall>(a, au) \<in> set as. a < committee_size (ds_committee ds)"
  shows "\<exists>ds'. rfold (\<lambda>(a, _). evict_authority a) as ds = Inr ds'
    \<and> dag_inv ds' \<and> blocks_to_write ds' = [] \<and> get_block ds' = get_block ds \<and> gc_round ds' = gc_round ds
    \<and> ds_store ds' = ds_store ds
    \<and> (\<forall>r. gc_round ds < br_round r \<longrightarrow> cached_block ds' r = cached_block ds r)"
  using assms
proof (induction as arbitrary: ds)
  case (Cons x as)
  obtain a au where x: "x = (a, au)" by fastforce
  obtain ds1 ev where 1: "evict_authority a ds = Inr ds1" "calculate_authority_eviction_round ds a = Inr ev"
    "dag_inv ds1" "blocks_to_write ds1 = []" "get_block ds1 = get_block ds"
    "ds_context ds1 = ds_context ds" "ds_store ds1 = ds_store ds"
    "\<forall>r. cached_block ds1 r = (if br_author r = a \<and> br_round r \<le> ev then None else cached_block ds r)"
    using evict_authority_ok [OF Cons.prems(1,2), of a] Cons.prems(3) x by (auto simp del: split_paired_All)
  have gc: "gc_round ds1 = gc_round ds" using evict_authority_gc [OF 1(1)] .
  have "ev \<le> gc_round ds"
    using 1(2) by (auto simp: calculate_authority_eviction_round_def eviction_round_def rbind_eq_Inr Let_def)
  then have keep: "gc_round ds < br_round r \<Longrightarrow> cached_block ds1 r = cached_block ds r" for r
    using 1(8) by auto
  have "\<forall>(a, au) \<in> set as. a < committee_size (ds_committee ds1)" using Cons.prems(3) 1(6) by auto
  from Cons.IH [OF 1(3,4) this] obtain ds2 where 2: "rfold (\<lambda>(a, _). evict_authority a) as ds1 = Inr ds2"
    "dag_inv ds2" "blocks_to_write ds2 = []" "get_block ds2 = get_block ds1" "gc_round ds2 = gc_round ds1"
    "ds_store ds2 = ds_store ds1" "\<forall>r. gc_round ds1 < br_round r \<longrightarrow> cached_block ds2 r = cached_block ds1 r"
    by blast
  show ?case
    using 1(1,5,7) 2 gc keep by (intro exI [of _ ds2]) (simp add: x)
qed simp

lemma flush_ok:
  assumes "dag_inv ds"
  shows "\<exists>ds'. flush ds = Inr ds' \<and> dag_inv ds' \<and> get_block ds' = get_block ds \<and> blocks_to_write ds' = []
    \<and> (\<forall>r b. cached_block ds r = Some b \<longrightarrow> read_block (ds_store ds') r = Some b)
    \<and> (\<forall>r. gc_round ds < br_round r \<longrightarrow> cached_block ds' r = cached_block ds r)"
proof (cases "blocks_to_write ds = [] \<and> commits_to_write ds = [] \<and> commit_info_to_write ds = []
    \<and> finalized_commits_to_write ds = []")
  case True
  then show ?thesis
    using assms by (intro exI [of _ ds]) (auto simp: flush_def dag_inv_def store_inv_def)
next
  case False
  have inv: "cache_inv ds" "genesis_inv ds" "store_inv ds" using assms by (auto simp: dag_inv_def)
  define wb where "wb = \<lparr>wb_blocks = blocks_to_write ds, wb_commits = commits_to_write ds,
    wb_commit_info = commit_info_to_write ds, wb_finalized_commits = finalized_commits_to_write ds\<rparr>"
  define ds0 where "ds0 = ds\<lparr>blocks_to_write := [], commits_to_write := [], commit_info_to_write := [],
    finalized_commits_to_write := [], ds_store := store_write wb (ds_store ds)\<rparr>"
  have f: "ds_context ds0 = ds_context ds" "genesis ds0 = genesis ds" "cached_block ds0 = cached_block ds"
    "recent_refs_by_authority ds0 = recent_refs_by_authority ds" "evicted_rounds ds0 = evicted_rounds ds"
    "ds_threshold_clock ds0 = ds_threshold_clock ds" "cached_rounds ds0 = cached_rounds ds"
    "blocks_to_write ds0 = []" "gc_round ds0 = gc_round ds" "ds_store ds0 = store_write wb (ds_store ds)"
    by (auto simp: ds0_def cached_block_def fun_eq_iff gc_round_def calculate_gc_round_def last_commit_round_def)
  have read: "read_block (ds_store ds0) r =
      (case cached_block ds r of Some b \<Rightarrow> Some b | None \<Rightarrow> read_block (ds_store ds) r)" for r
    unfolding f(10) wb_def by (rule read_block_flushed [OF inv(3,1)])
  have stored: "0 < br_round r \<and> is_valid_index (ds_committee ds) (br_author r)
      \<and> (cached_block ds r = Some b \<or> cached_block ds r = None
        \<and> (\<exists>l. fset_last (recent_refs_by_authority ds ! br_author r) = Some l \<and> br_round r \<le> br_round l))"
    if "read_block (ds_store ds0) r = Some b" for r b
  proof (cases "cached_block ds r")
    case None
    then have "read_block (ds_store ds) r = Some b" using that by (simp add: read)
    from store_inv_stored [OF inv(3) this] show ?thesis .
  next
    case (Some b')
    then show ?thesis using that cache_inv_simps(6,7) [OF inv(1) Some] by (simp add: read)
  qed
  have "mem_store_inv (ds_store ds0)"
    using inv(3) store_write_inv [of "ds_store ds" wb] by (simp add: f store_inv_def)
  moreover have "0 < cached_rounds ds" using inv(3) by (simp add: store_inv_def)
  moreover have "read_block (ds_store ds0) r = Some b" if "cached_block ds r = Some b" for r b
    using that by (simp add: read)
  ultimately have "store_inv ds0"
    unfolding store_inv_def f(1,3,4,7,8) list.set using stored by blast
  then have "dag_inv ds0"
    unfolding dag_inv_def
    using cache_inv_transfer [OF inv(1), of ds0] genesis_inv_transfer [OF inv(2), of ds0]
      cache_inv_simps(9) [OF inv(1)] by (simp add: f)
  moreover have "\<forall>(a, au) \<in> set (indexed_authorities (ds_committee ds)). a < committee_size (ds_committee ds0)"
    by (auto simp: f indexed_authorities_def committee_size_def set_zip enumerate_eq_zip)
  ultimately obtain ds1 where 1: "rfold (\<lambda>(a, _). evict_authority a) (indexed_authorities (ds_committee ds)) ds0 = Inr ds1"
    "dag_inv ds1" "blocks_to_write ds1 = []" "get_block ds1 = get_block ds0" "gc_round ds1 = gc_round ds0"
    "ds_store ds1 = ds_store ds0" "\<forall>r. gc_round ds0 < br_round r \<longrightarrow> cached_block ds1 r = cached_block ds0 r"
    using evict_authorities_ok [of ds0 "indexed_authorities (ds_committee ds)"] f(8) by blast
  let ?ds2 = "ds1\<lparr>round_infos := dropWhile (\<lambda>info. ri_round info \<le> gc_round ds1) (round_infos ds1)\<rparr>"
  have "flush ds = Inr ?ds2"
    unfolding flush_def if_not_P [OF False] Let_def wb_def [symmetric] ds0_def [symmetric] f(1)
    by (simp add: 1(1))
  moreover have "dag_inv ?ds2 \<and> get_block ?ds2 = get_block ds1"
    by (rule same_cached_inv [OF 1(2)]; simp)
  moreover have "get_block ds0 = get_block ds"
    by (auto simp: fun_eq_iff get_block_eq f(1-9) read split: option.splits)
  ultimately show ?thesis
    using 1 f read by (intro exI [of _ ?ds2]) simp
qed

definition closed_above :: "round_number \<Rightarrow> (block_ref, block_info) fmap \<Rightarrow> block_ref set \<Rightarrow> bool" where
  "closed_above gc m roots \<longleftrightarrow>
     (\<forall>r \<in> roots. gc < br_round r \<longrightarrow> r |\<in>| fmdom m)
     \<and> (\<forall>r bi. fmlookup m r = Some bi \<longrightarrow> (\<forall>a \<in> set (vb_ancestors (bi_block bi)). gc < br_round a \<longrightarrow> a |\<in>| fmdom m))"

subsection \<open>The causal history\<close>

lemma link_loop_correct:
  assumes "closed_above gc m (set targets)"
    and "succ = (\<lambda>r. case fmlookup m r of Some bi \<Rightarrow> set (vb_ancestors (bi_block bi)) | None \<Rightarrow> {})"
  shows "\<exists>new m'. link_loop gc targets linked m = Inr (linked @ new, m')
    \<and> distinct new \<and> set new = reach succ {r \<in> unmarked m. gc < br_round r} (set targets)
    \<and> (\<forall>r. fmlookup m' r = map_option (\<lambda>bi. bi\<lparr>included := included bi \<or> r \<in> set new\<rparr>) (fmlookup m r))"
  using assms
proof (induction gc targets linked m rule: link_loop.induct)
  case (1 gc linked m)
  then show ?case by (simp add: option.map_ident_strong)
next
  case (2 gc r targets linked m)
  let ?U = "{r \<in> unmarked m. gc < br_round r}"
  show ?case
  proof (cases "gc < br_round r")
    case False
    have "closed_above gc m (set targets)" using 2(4) by (simp add: closed_above_def)
    moreover have "reach succ ?U (set (r # targets)) = reach succ ?U (set targets)"
      using False by (simp add: reach_skip)
    ultimately show ?thesis using False 2(1) [OF _ _ 2(5)] by simp
  next
    case above: True
    then obtain bi where bi: "fmlookup m r = Some bi"
      using 2(4) by (auto simp: closed_above_def fmlookup_dom_iff)
    show ?thesis
    proof (cases "included bi")
      case True
      have "closed_above gc m (set targets)" using 2(4) by (simp add: closed_above_def)
      moreover have "reach succ ?U (set (r # targets)) = reach succ ?U (set targets)"
        using True bi by (simp add: reach_skip unmarked_def)
      ultimately show ?thesis using above bi True 2(2) [OF _ bi True _ 2(5)] by simp
    next
      case False
      let ?m = "fmupd r (bi\<lparr>included := True\<rparr>) m" and ?ts = "targets @ vb_ancestors (bi_block bi)"
      have cl: "closed_above gc ?m (set ?ts)"
        using 2(4) bi above by (auto simp: closed_above_def fmlookup_dom_iff split: if_splits)
      have s: "succ = (\<lambda>r. case fmlookup ?m r of Some bi \<Rightarrow> set (vb_ancestors (bi_block bi)) | None \<Rightarrow> {})"
        using 2(5) bi by (auto simp: fun_eq_iff)
      have na: "\<not> br_round r \<le> gc" using above by simp
      obtain new m' where n: "link_loop gc ?ts (linked @ [r]) ?m = Inr ((linked @ [r]) @ new, m')"
        "distinct new" "set new = reach succ {r \<in> unmarked ?m. gc < br_round r} (set ?ts)"
        "\<forall>x. fmlookup m' x = map_option (\<lambda>bi. bi\<lparr>included := included bi \<or> x \<in> set new\<rparr>) (fmlookup ?m x)"
        using 2(3) [OF na bi False cl s] by (elim exE conjE) (rule that)
      have U: "{x \<in> unmarked ?m. gc < br_round x} = ?U - {r}" "r \<in> ?U"
        using unmarked_mark [OF bi False] above by auto
      have sr: "succ r = set (vb_ancestors (bi_block bi))" using 2(5) bi by simp
      have "set ?ts = succ r \<union> set targets" unfolding sr by auto
      then have nr: "set new = reach succ (?U - {r}) (succ r \<union> set targets)" using n(3) U(1) by simp
      have fresh: "r \<notin> set new" unfolding nr using reach_subset by fast
      have all: "set (r # new) = reach succ ?U (set (r # targets))"
        unfolding list.set nr using reach_insert [OF U(2), of succ "set targets"] by simp
      have m': "fmlookup m' x = map_option (\<lambda>bi. bi\<lparr>included := included bi \<or> x \<in> set (r # new)\<rparr>) (fmlookup m x)" for x
        using n(4) bi fresh by (cases "x = r") auto
      have "link_loop gc (r # targets) linked m = Inr (linked @ r # new, m')"
        using n(1) na bi False by simp
      with all m' fresh n(2) show ?thesis by (intro exI [of _ "r # new"] exI [of _ m']) simp
    qed
  qed
qed

subsection \<open>Commits\<close>

lemma max_insert_pair: "finite A \<Longrightarrow> Max (insert (max x y) A) = Max (insert x (insert y A))" for x :: nat
  by (cases "A = {}") (simp_all add: max.assoc)

lemma raise_committed_rounds:
  assumes "\<forall>r \<in> set refs. br_author r < length rounds"
  shows "\<exists>rounds'. rfold raise_committed_round refs rounds = Inr rounds' \<and> length rounds' = length rounds
    \<and> (\<forall>a < length rounds. rounds' ! a = Max (insert (rounds ! a) (br_round ` {r \<in> set refs. br_author r = a})))"
  using assms
proof (induction refs arbitrary: rounds)
  case (Cons r refs)
  let ?rounds = "rounds[br_author r := max (rounds ! br_author r) (br_round r)]"
  obtain rounds' where IH: "rfold raise_committed_round refs ?rounds = Inr rounds'" "length rounds' = length rounds"
    "\<forall>a < length rounds. rounds' ! a = Max (insert (?rounds ! a) (br_round ` {r \<in> set refs. br_author r = a}))"
    using Cons.IH [of ?rounds] Cons.prems by auto
  have "rounds' ! a = Max (insert (rounds ! a) (br_round ` {r' \<in> set (r # refs). br_author r' = a}))"
    if a: "a < length rounds" for a
  proof (cases "a = br_author r")
    case True
    have "{r' \<in> set (r # refs). br_author r' = a} = insert r {r' \<in> set refs. br_author r' = a}"
      using True by auto
    then show ?thesis using IH(3) a True
      by (simp add: max_insert_pair)
  next
    case False
    then have "{r' \<in> set (r # refs). br_author r' = a} = {r' \<in> set refs. br_author r' = a}" by auto
    then show ?thesis using IH(3) a False by simp
  qed
  then show ?case
    using IH(1,2) Cons.prems by (intro exI [of _ rounds']) (simp add: raise_committed_round_def [of r])
qed simp

lemma record_commit_ok:
  assumes "\<forall>r \<in> set (commit_blocks (trusted_inner c)). br_author r < length (last_committed_rounds ds)"
    and "length (last_committed_rounds ds) = committee_size (ds_committee ds)"
  shows "\<exists>rounds'. record_commit c ds = Inr (ds\<lparr>last_commit := Some c, last_committed_rounds := rounds',
      pending_commit_votes := pending_commit_votes ds @ [commit_reference c],
      commits_to_write := commits_to_write ds @ [c]\<rparr>)
    \<and> length rounds' = length (last_committed_rounds ds)
    \<and> (\<forall>a < length (last_committed_rounds ds). rounds' ! a = Max (insert (last_committed_rounds ds ! a)
       (br_round ` {r \<in> set (commit_blocks (trusted_inner c)). br_author r = a})))"
proof -
  obtain rounds' where r: "rfold raise_committed_round (commit_blocks (trusted_inner c)) (last_committed_rounds ds) = Inr rounds'"
    "length rounds' = length (last_committed_rounds ds)"
    "\<forall>a < length (last_committed_rounds ds). rounds' ! a = Max (insert (last_committed_rounds ds ! a)
       (br_round ` {r \<in> set (commit_blocks (trusted_inner c)). br_author r = a}))"
    using raise_committed_rounds [OF assms(1)] by auto
  have "rmap (\<lambda>i. rexpect UnexpectedState (to_authority_index (ds_committee ds) i)) [0..<length rounds']
      = Inr (map (\<lambda>i. i) [0..<length rounds'])"
    by (rule rmap_total) (simp add: r(2) assms(2) to_authority_index_def committee_size_def)
  then show ?thesis using r by (intro exI [of _ rounds']) (simp add: record_commit_def)
qed

end
