(* ===== verification/Dag_Correct.thy ===== *)
theory Dag_Correct
  imports Dag_Inv
begin

section \<open>Correctness of the DAG state\<close>

text \<open>
  The contract of \<open>DagState\<close> over its abstract map from references to blocks (\<^const>\<open>get_block\<close>):
  batched lookups are pointwise, accepting a block extends the map, flushing makes every cached block
  durable and leaves the map alone, linking marks exactly the causal history, and commits are
  consecutive.
\<close>

subsection \<open>Lookups\<close>

lemma contains_blocks_pointwise:
  assumes "\<forall>r \<in> set refs. br_author r < length (recent_refs_by_authority ds)"
  shows "contains_blocks ds refs = Inr (map (\<lambda>r. case contains_block ds r of Inr x \<Rightarrow> x | Inl _ \<Rightarrow> False) refs)"
proof -
  have "rmap (\<lambda>r. vec_get (recent_refs_by_authority ds) (br_author r)) refs
      = Inr (map (\<lambda>r. recent_refs_by_authority ds ! br_author r) refs)"
    by (rule rmap_total) (use assms in simp)
  then show ?thesis
    using assms
    by (simp add: contains_block_def contains_blocks_def store_contains_blocks_def
      batched_lookup_eq [of _ "\<lambda>r. block_key r |\<in>| fmdom (ms_blocks (ds_store ds))"])
qed

lemma contains_blocks_get:
  assumes "dag_inv ds" "\<forall>r \<in> set refs. is_valid_index (ds_committee ds) (br_author r)"
  shows "contains_blocks ds refs = Inr (map (\<lambda>r. get_block ds r \<noteq> None) refs)"
proof -
  have "\<forall>r \<in> set refs. br_author r < length (recent_refs_by_authority ds)"
    using assms by (auto simp: dag_inv_def cache_inv_def is_valid_index_def)
  from contains_blocks_pointwise [OF this] show ?thesis using assms contains_block_get by simp
qed

text \<open>
  C32. The batched lookups of \<open>DagState\<close> agree with one abstract map: \<open>get_blocks\<close> answers each
  reference as \<open>get_block\<close> does, whichever of the genesis blocks, the cache and the store holds it,
  a block that is returned has the reference it was asked by, and \<open>contains_blocks\<close> answers true
  exactly for the references that \<open>get_block\<close> finds.
\<close>

theorem dag_lookups_agree:
  assumes "dag_inv ds" "\<forall>r \<in> set refs. is_valid_index (ds_committee ds) (br_author r)"
  shows "get_blocks ds refs = map (get_block ds) refs
    \<and> contains_blocks ds refs = Inr (map (\<lambda>r. get_block ds r \<noteq> None) refs)
    \<and> (\<forall>r b. get_block ds r = Some b \<longrightarrow> reference b = r)"
  using contains_blocks_get [OF assms] get_blocks_map get_block_reference [OF assms(1)] by blast

subsection \<open>Accepting blocks\<close>

text \<open>
  C10. Accepting a block of the epoch's committee never panics, keeps the invariant, and extends the
  abstract map by this block, unless it is known already. The node's own slot must not hold another
  block, and under v3 the parents above the GC round must have been accepted before.
\<close>

theorem accept_block_correct:
  assumes "dag_inv ds" "is_valid_index (ds_committee ds) (vb_author b)" "0 < vb_round b"
    and "vb_author b = own_index (ds_context ds) \<longrightarrow> skip_equivocation_validation (ctx_parameters (ds_context ds))
      \<or> get_uncommitted_blocks_at_slot ds (slot_of_ref (reference b)) = []"
    and "enable_v3 (ds_config ds) \<longrightarrow> v3_ready ds b"
  shows "\<exists>ds'. accept_block now b ds = Inr ds' \<and> dag_inv ds'
    \<and> get_block ds' = (if get_block ds (reference b) = None
        then (get_block ds)(reference b := Some b) else get_block ds)"
  using accept_block_ok [OF assms(1-3) _ v3_step_ok [OF assms(2,5)]] assms(4) by blast

subsection \<open>Flushing\<close>

text \<open>
  C11. Flushing never panics and keeps the invariant; every block that was cached is stored
  afterwards, every lookup answers as before although old blocks are evicted from the cache, and the
  cached blocks above the GC round stay cached.
\<close>

theorem flush_correct:
  assumes "dag_inv ds"
  shows "\<exists>ds'. flush ds = Inr ds' \<and> dag_inv ds' \<and> get_block ds' = get_block ds \<and> blocks_to_write ds' = []
    \<and> (\<forall>r b. cached_block ds r = Some b \<longrightarrow> read_block (ds_store ds') r = Some b)
    \<and> (\<forall>r. gc_round ds < br_round r \<longrightarrow> cached_block ds' r = cached_block ds r)"
  using flush_ok [OF assms] .

subsection \<open>Linking the causal history\<close>

definition parents_in :: "(block_ref, block_info) fmap \<Rightarrow> block_ref \<Rightarrow> block_ref set" where
  "parents_in m r = (case fmlookup m r of Some bi \<Rightarrow> set (vb_ancestors (bi_block bi)) | None \<Rightarrow> {})"

text \<open>
  C33. \<open>link_causal_history\<close> returns, each once, exactly the blocks above the GC round that are
  reachable from the root through blocks not included before, marks these as included and changes
  nothing else. It needs the cached blocks to be closed under ancestors above the GC round.
\<close>

theorem link_causal_history_correct:
  assumes "closed_above (gc_round ds) (recent_blocks ds) {root}"
  shows "\<exists>linked m. link_causal_history ds root = Inr (linked, ds\<lparr>recent_blocks := m\<rparr>)
    \<and> distinct linked
    \<and> set linked = reach (parents_in (recent_blocks ds))
        {r \<in> unmarked (recent_blocks ds). gc_round ds < br_round r} {root}
    \<and> (\<forall>r. fmlookup m r = map_option (\<lambda>bi. bi\<lparr>included := included bi \<or> r \<in> set linked\<rparr>)
         (fmlookup (recent_blocks ds) r))"
proof -
  have "closed_above (gc_round ds) (recent_blocks ds) (set [root])" using assms by simp
  from link_loop_correct [OF this, of "parents_in (recent_blocks ds)" "[]"]
  show ?thesis
    by (fastforce simp: link_causal_history_def parents_in_def fun_eq_iff)
qed

subsection \<open>Commits\<close>

text \<open>
  C34. \<open>add_commit\<close> ignores a commit at or before the last one, and otherwise accepts exactly the
  commit with the next index whose timestamp does not decrease; it then becomes the last commit, is
  queued for storage and for voting, and every authority's last committed round is raised to its
  highest committed block.
\<close>

theorem add_commit_correct:
  assumes "\<forall>r \<in> set (commit_blocks (trusted_inner c)). br_author r < length (last_committed_rounds ds)"
    and "length (last_committed_rounds ds) = committee_size (ds_committee ds)"
    and "last_commit_index ds < u32_max" "0 < commit_idx (trusted_inner c)"
  shows "(case add_commit c ds of
      Inl p \<Rightarrow> last_commit_index ds + 1 < commit_idx (trusted_inner c)
        \<or> commit_idx (trusted_inner c) = last_commit_index ds + 1
          \<and> commit_timestamp (trusted_inner c) < last_commit_timestamp_ms ds
    | Inr ds' \<Rightarrow>
        if commit_idx (trusted_inner c) \<le> last_commit_index ds then ds' = ds
        else commit_idx (trusted_inner c) = last_commit_index ds + 1
          \<and> last_commit_timestamp_ms ds \<le> commit_timestamp (trusted_inner c)
          \<and> last_commit ds' = Some c
          \<and> commits_to_write ds' = commits_to_write ds @ [c]
          \<and> pending_commit_votes ds' = pending_commit_votes ds @ [commit_reference c]
          \<and> recent_blocks ds' = recent_blocks ds
          \<and> length (last_committed_rounds ds') = length (last_committed_rounds ds)
          \<and> (\<forall>a < length (last_committed_rounds ds). last_committed_rounds ds' ! a =
               Max (insert (last_committed_rounds ds ! a)
                 (br_round ` {r \<in> set (commit_blocks (trusted_inner c)). br_author r = a}))))"
proof -
  obtain rounds' where rec: "record_commit c ds = Inr (ds\<lparr>last_commit := Some c, last_committed_rounds := rounds',
      pending_commit_votes := pending_commit_votes ds @ [commit_reference c],
      commits_to_write := commits_to_write ds @ [c]\<rparr>)"
    and r: "length rounds' = length (last_committed_rounds ds)"
    "\<forall>a < length (last_committed_rounds ds). rounds' ! a = Max (insert (last_committed_rounds ds ! a)
       (br_round ` {r \<in> set (commit_blocks (trusted_inner c)). br_author r = a}))"
    using record_commit_ok [OF assms(1,2)] by (elim exE conjE) (rule that)
  have next_index: "wrap32 (last_commit_index ds + 1) = last_commit_index ds + 1"
    using assms(3) by (simp add: wrap32_def u32_max_def)
  show ?thesis
  proof (cases "last_commit ds")
    case None
    then have z: "last_commit_index ds = 0" "last_commit_timestamp_ms ds = 0"
      by (simp_all add: last_commit_index_def last_commit_timestamp_ms_def)
    show ?thesis
      using assms(4) r rec by (cases "commit_idx (trusted_inner c) = 1") (auto simp: add_commit_def Let_def None z)
  next
    case (Some prev)
    then have p: "commit_idx (trusted_inner prev) = last_commit_index ds"
      "commit_timestamp (trusted_inner prev) = last_commit_timestamp_ms ds"
      by (simp_all add: last_commit_index_def last_commit_timestamp_ms_def)
    show ?thesis
    proof (cases "commit_idx (trusted_inner c) \<le> last_commit_index ds")
      case True
      then show ?thesis by (simp add: add_commit_def Some p)
    next
      case False
      then show ?thesis
        using r rec next_index
        by (cases "commit_idx (trusted_inner c) = last_commit_index ds + 1";
            cases "commit_timestamp (trusted_inner c) < last_commit_timestamp_ms ds")
          (auto simp: add_commit_def Let_def Some p)
    qed
  qed
qed

subsection \<open>Example states\<close>

definition demo_dag :: dag_state where
  "demo_dag = \<lparr>ds_context = demo_context,
     genesis = fmap_of_list (map (\<lambda>a. (BlockRef 0 a 0, demo_vb 0 a 0 0 [])) [0, 1, 2, 3]),
     recent_blocks = fmempty, recent_refs_by_authority = replicate 4 {||}, round_infos = [],
     ds_threshold_clock = threshold_clock_new 0 1, evicted_rounds = replicate 4 0,
     highest_accepted_round = 0, last_commit = None, last_committed_rounds = replicate 4 0,
     ds_scoring_subdag = scoring_subdag_new, pending_commit_votes = [], blocks_to_write = [],
     commits_to_write = [], commit_info_to_write = [], finalized_commits_to_write = [],
     ds_store = mem_store_new, cached_rounds = 500\<rparr>"

lemma demo_dag_simps [simp]:
  "ds_context demo_dag = demo_context" "recent_blocks demo_dag = fmempty" "blocks_to_write demo_dag = []"
  "ds_store demo_dag = mem_store_new" "cached_block demo_dag r = None" "gc_round demo_dag = 0"
  "last_commit demo_dag = None"
  by (simp_all add: demo_dag_def cached_block_def gc_round_def calculate_gc_round_def last_commit_round_def)

lemma demo_dag_inv: "dag_inv demo_dag"
proof -
  have refs: "recent_refs_by_authority demo_dag ! a = {||}" if "a < 4" for a
    using that by (simp add: demo_dag_def)
  have lens: "length (recent_refs_by_authority demo_dag) = 4" "length (evicted_rounds demo_dag) = 4"
    "ds_threshold_clock demo_dag = threshold_clock_new 0 1"
    by (simp_all add: demo_dag_def)
  have "cache_inv demo_dag"
    by (simp add: cache_inv_def demo_committee_wf demo_size refs lens threshold_clock_new_def aggregator_new_inv)
  moreover have "genesis_inv demo_dag"
    unfolding genesis_inv_def
  proof (intro conjI allI impI)
    fix a assume "a < committee_size (ds_committee demo_dag)"
    then have "a \<in> {0, 1, 2, 3}" by (auto simp: demo_size)
    then have "BlockRef 0 a 0 |\<in>| fmdom (genesis demo_dag)" by (auto simp: demo_dag_def)
    then show "\<exists>r. r |\<in>| fmdom (genesis demo_dag) \<and> br_author r = a" by (intro exI [of _ "BlockRef 0 a 0"]) simp
  qed (auto simp: demo_dag_def fmlookup_of_list split: if_splits)
  moreover have "store_inv demo_dag"
    by (simp add: store_inv_def mem_store_new_inv) (simp add: demo_dag_def read_block_def mem_store_new_def)
  ultimately show ?thesis by (simp add: dag_inv_def)
qed

abbreviation demo_b1 :: verified_block where "demo_b1 \<equiv> demo_vb 1 1 5 10 [BlockRef 0 0 0, BlockRef 0 1 0, BlockRef 0 2 0]"

definition demo_dag1 :: dag_state where
  "demo_dag1 = (insert_cached demo_b1 demo_dag)\<lparr>blocks_to_write := [demo_b1]\<rparr>"

lemma demo_dag1_simps:
  "gc_round demo_dag1 = 0"
  "recent_blocks demo_dag1 = fmupd (BlockRef 1 1 5) (block_info_new demo_b1) fmempty"
  by (simp add: demo_dag1_def) (simp add: demo_dag1_def insert_cached_def)

lemma demo_dag1_inv: "dag_inv demo_dag1"
proof -
  have c: "cache_inv demo_dag" "genesis_inv demo_dag" "store_inv demo_dag"
    using demo_dag_inv by (simp_all add: dag_inv_def)
  have i: "cache_inv (insert_cached demo_b1 demo_dag)" by (rule insert_cached_inv [OF c(1)]) simp_all
  have "get_block demo_dag (reference demo_b1) = None"
    by (simp add: get_block_eq read_block_def mem_store_new_def)
  from insert_cached_store_inv [OF c(1,3) this] have "store_inv demo_dag1" by (simp add: demo_dag1_def)
  moreover have "cache_inv demo_dag1"
    by (rule cache_inv_transfer [OF i]) (simp_all add: demo_dag1_def cache_inv_simps(9) [OF c(1), simplified])
  moreover have "genesis_inv demo_dag1" by (rule genesis_inv_transfer [OF c(2)]) (simp_all add: demo_dag1_def)
  ultimately show ?thesis by (simp add: dag_inv_def)
qed

theorem dag_lookups_agree_witness:
  "contains_blocks demo_dag1 [BlockRef 1 1 5, BlockRef 1 2 5] = Inr [True, False]
   \<and> get_blocks demo_dag1 [BlockRef 1 1 5, BlockRef 1 2 5] = [Some demo_b1, None]"
proof -
  have "get_block demo_dag1 (BlockRef 1 1 5) = Some demo_b1" "get_block demo_dag1 (BlockRef 1 2 5) = None"
    by (simp_all add: get_block_eq demo_dag1_def read_block_def mem_store_new_def)
  then show ?thesis
    using dag_lookups_agree [OF demo_dag1_inv, of "[BlockRef 1 1 5, BlockRef 1 2 5]"]
    by (simp add: demo_dag1_def)
qed

theorem accept_block_correct_witness:
  "\<exists>ds'. accept_block 7 demo_b1 demo_dag = Inr ds' \<and> dag_inv ds' \<and> get_block ds' (BlockRef 1 1 5) = Some demo_b1"
proof -
  have "get_block demo_dag (reference demo_b1) = None"
    by (simp add: get_block_eq read_block_def mem_store_new_def)
  then show ?thesis
    using accept_block_correct [OF demo_dag_inv, of demo_b1 7]
    by (auto simp: protocol_config_for_testing_def)
qed

theorem flush_correct_witness:
  "\<exists>ds'. flush demo_dag1 = Inr ds' \<and> dag_inv ds' \<and> read_block (ds_store ds') (BlockRef 1 1 5) = Some demo_b1"
proof -
  have "cached_block demo_dag1 (BlockRef 1 1 5) = Some demo_b1" by (simp add: demo_dag1_def)
  then show ?thesis using flush_correct [OF demo_dag1_inv] by blast
qed

theorem link_causal_history_correct_witness:
  "\<exists>linked m. link_causal_history demo_dag1 (BlockRef 1 1 5) = Inr (linked, demo_dag1\<lparr>recent_blocks := m\<rparr>)
     \<and> BlockRef 1 1 5 \<in> set linked"
proof -
  have "closed_above (gc_round demo_dag1) (recent_blocks demo_dag1) {BlockRef 1 1 5}"
    by (auto simp: demo_dag1_simps closed_above_def block_info_new_def split: if_splits)
  from link_causal_history_correct [OF this] obtain linked m where
    l: "link_causal_history demo_dag1 (BlockRef 1 1 5) = Inr (linked, demo_dag1\<lparr>recent_blocks := m\<rparr>)"
    "set linked = reach (parents_in (recent_blocks demo_dag1))
        {r \<in> unmarked (recent_blocks demo_dag1). gc_round demo_dag1 < br_round r} {BlockRef 1 1 5}"
    by (elim exE conjE) (rule that)
  have "BlockRef 1 1 5 \<in> set linked"
    unfolding l(2) by (rule reach_start) (simp_all add: demo_dag1_simps unmarked_def block_info_new_def)
  then show ?thesis using l(1) by blast
qed

definition demo_commit :: trusted_commit where
  "demo_commit = \<lparr>trusted_inner = commit_new 1 0 10 (BlockRef 1 1 5) [BlockRef 1 1 5], trusted_digest = 3,
     trusted_serialized = []\<rparr>"

theorem add_commit_correct_witness:
  "\<exists>ds'. add_commit demo_commit demo_dag = Inr ds' \<and> last_commit ds' = Some demo_commit
     \<and> last_committed_rounds ds' ! 1 = 1 \<and> last_committed_rounds ds' ! 2 = 0"
proof -
  have d: "length (last_committed_rounds demo_dag) = 4" "last_committed_rounds demo_dag ! Suc 0 = 0"
    "last_committed_rounds demo_dag ! 2 = 0"
    by (simp_all add: demo_dag_def)
  have c: "trusted_inner demo_commit = commit_new 1 0 10 (BlockRef 1 1 5) [BlockRef 1 1 5]"
    by (simp add: demo_commit_def)
  show ?thesis
    using add_commit_correct [of demo_commit demo_dag]
    by (cases "add_commit demo_commit demo_dag")
      (auto simp: c d demo_size last_commit_index_def last_commit_timestamp_ms_def u32_max_def
        Collect_conv_if insert_commute)
qed

end
