(* ===== verification/Linearizer.thy ===== *)
theory Linearizer
  imports Dag_Correct
begin

section \<open>Linearizer\<close>

text \<open>
  \<open>linearizer.rs\<close>: the sub-dag of a committed leader, its commit and the commit timestamp. The
  encoder of commits is the argument \<open>encode\<close>; the hash is that of \<^typ>\<open>crypto\<close>.
\<close>

subsection \<open>The median timestamp\<close>

datatype median_error = NoBlocksProvided | StakeBelowQuorum stake stake

fun median_walk :: "stake \<Rightarrow> stake \<Rightarrow> (block_timestamp_ms \<times> stake) list \<Rightarrow> block_timestamp_ms option" where
  "median_walk tot cumulative [] = None"
| "median_walk tot cumulative ((ts, s) # rest) =
     (let cumulative' = wrap64 (cumulative + s)
      in if cumulative' > tot div 2 then Some ts else median_walk tot cumulative' rest)"

definition median_timestamps_by_stake_inner ::
  "(block_timestamp_ms \<times> stake) list \<Rightarrow> stake \<Rightarrow> panic + block_timestamp_ms" where
  "median_timestamps_by_stake_inner timestamps tot =
    (let timestamps = sort_key fst timestamps in
     case median_walk tot 0 timestamps of
       Some ts \<Rightarrow> Inr ts
     | None \<Rightarrow> if timestamps = [] then Inl UnexpectedState else Inr (fst (last timestamps)))"

definition collect_timestamp ::
  "committee \<Rightarrow> verified_block \<Rightarrow> stake \<times> (block_timestamp_ms \<times> stake) list
     \<Rightarrow> panic + stake \<times> (block_timestamp_ms \<times> stake) list" where
  "collect_timestamp c b = (\<lambda>(tot, timestamps).
     rbind (committee_authority c (vb_author b)) (\<lambda>a.
     Inr (wrap64 (tot + a_stake a), timestamps @ [(vb_timestamp b, a_stake a)])))"

definition median_timestamp_by_stake ::
  "committee \<Rightarrow> verified_block list \<Rightarrow> panic + (median_error + block_timestamp_ms)" where
  "median_timestamp_by_stake c bs =
     rbind (rfold (collect_timestamp c) bs (0, [])) (\<lambda>(tot, timestamps).
     if timestamps = [] then Inr (Inl NoBlocksProvided)
     else if tot < quorum_threshold c then Inr (Inl (StakeBelowQuorum tot (quorum_threshold c)))
     else rbind (median_timestamps_by_stake_inner timestamps tot) (\<lambda>ts. Inr (Inr ts)))"

definition calculate_commit_timestamp ::
  "dag_state \<Rightarrow> verified_block \<Rightarrow> block_timestamp_ms \<Rightarrow> panic + block_timestamp_ms" where
  "calculate_commit_timestamp ds leader last_ts =
    (let parent_round = (if vb_round leader = 0 then u32_max else vb_round leader - 1);
         refs = filter (\<lambda>r. br_round r = parent_round) (vb_ancestors leader)
     in
     rbind (rmap (rexpect BlockMissingInDag) (get_blocks ds refs)) (\<lambda>blocks.
     rbind (median_timestamp_by_stake (ds_committee ds) blocks) (\<lambda>res.
     case res of
       Inl e \<Rightarrow> Inl MedianTimestampFailed
     | Inr ts \<Rightarrow> Inr (max ts last_ts))))"

subsection \<open>The sub-dag of a leader\<close>

text \<open>The ancestors that are above the GC round and not committed; the status is asked of the cache.\<close>

primrec uncommitted_ancestors ::
  "dag_state \<Rightarrow> round_number \<Rightarrow> block_ref list \<Rightarrow> panic + block_ref list" where
  "uncommitted_ancestors ds gc [] = Inr []"
| "uncommitted_ancestors ds gc (r # rs) =
     rbind (if br_round r > gc then rbind (is_committed ds r) (\<lambda>c. Inr (\<not> c)) else Inr False) (\<lambda>keep.
     rbind (uncommitted_ancestors ds gc rs) (\<lambda>rs'.
     Inr (if keep then r # rs' else rs')))"

definition commit_block :: "block_ref \<Rightarrow> dag_state \<Rightarrow> panic + dag_state" where
  "commit_block r ds =
     rbind (set_committed ds r) (\<lambda>(fresh, ds).
     rbind (rassert fresh BlockCommittedTwice) (\<lambda>_. Inr ds))"

text \<open>
  The loop over the stack \<open>buffer\<close>, whose top is the head of the list. Every block pushed was
  uncommitted and is committed by the push, so the loop ends.
\<close>

definition uncommitted :: "dag_state \<Rightarrow> block_ref set" where
  "uncommitted ds = {r. \<exists>bi. fmlookup (recent_blocks ds) r = Some bi \<and> \<not> committed bi}"

lemma finite_uncommitted [simp]: "finite (uncommitted ds)"
  by (rule finite_subset [of _ "fset (fmdom (recent_blocks ds))"]) (auto simp: uncommitted_def fmdomI)

lemma commit_block_eq:
  "commit_block r ds = Inr ds' \<longleftrightarrow> (\<exists>bi. fmlookup (recent_blocks ds) r = Some bi \<and> \<not> committed bi
     \<and> ds' = ds\<lparr>recent_blocks := fmupd r (bi\<lparr>committed := True\<rparr>) (recent_blocks ds)\<rparr>)"
proof (cases "fmlookup (recent_blocks ds) r")
  case (Some bi)
  then show ?thesis
    by (cases "committed bi") (simp_all add: commit_block_def set_committed_def eq_commute [of ds'])
qed (simp add: commit_block_def set_committed_def)

lemma commit_block_uncommitted:
  assumes "commit_block r ds = Inr ds'"
  shows "r \<in> uncommitted ds \<and> uncommitted ds' = uncommitted ds - {r}"
  using assms unfolding commit_block_eq
  by (elim exE conjE) (auto simp: uncommitted_def split: if_splits)

lemma commit_blocks_card:
  assumes "rfold (\<lambda>b. commit_block (reference b)) bs ds = Inr ds'"
  shows "card (uncommitted ds') + length bs = card (uncommitted ds)"
  using assms
proof (induction bs arbitrary: ds)
  case (Cons b bs)
  then obtain ds1 where 1: "commit_block (reference b) ds = Inr ds1"
    "rfold (\<lambda>b. commit_block (reference b)) bs ds1 = Inr ds'"
    by (auto simp: rbind_eq_Inr)
  have "card (uncommitted ds1) + 1 = card (uncommitted ds)"
    using commit_block_uncommitted [OF 1(1)] card_Suc_Diff1 [of "uncommitted ds" "reference b"] by simp
  with Cons.IH [OF 1(2)] show ?case by simp
qed simp

function linearize_loop ::
  "round_number \<Rightarrow> verified_block list \<Rightarrow> verified_block list \<Rightarrow> dag_state
     \<Rightarrow> panic + verified_block list \<times> dag_state" where
  "linearize_loop gc [] to_commit ds = Inr (to_commit, ds)"
| "linearize_loop gc (x # buffer) to_commit ds =
     rbind (uncommitted_ancestors ds gc (vb_ancestors x)) (\<lambda>refs.
     rbind (rmap (rexpect BlockMissingInDag) (get_blocks ds refs)) (\<lambda>ancestors.
     rbind (rfold (\<lambda>b. commit_block (reference b)) ancestors ds) (\<lambda>ds'.
     linearize_loop gc (rev ancestors @ buffer) (to_commit @ [x]) ds')))"
  by pat_completeness auto

termination
proof (relation "measure (\<lambda>(gc, buffer, to_commit, ds). card (uncommitted ds) + length buffer)", goal_cases)
  case (2 gc x buffer to_commit ds refs ancestors ds')
  from commit_blocks_card [OF 2(3)] show ?case by simp
qed simp

definition linearize_sub_dag :: "verified_block \<Rightarrow> dag_state \<Rightarrow> panic + verified_block list \<times> dag_state" where
  "linearize_sub_dag leader ds =
    (let gc = gc_round ds in
     rbind (commit_block (reference leader) ds) (\<lambda>ds.
     rbind (linearize_loop gc [leader] [] ds) (\<lambda>(to_commit, ds).
     rbind (rassert (\<forall>b \<in> set to_commit. vb_round b > gc) LeaderBelowGcRound) (\<lambda>_.
     Inr (sort_sub_dag_blocks to_commit, ds)))))"

subsection \<open>Commits\<close>

definition collect_sub_dag_and_commit ::
  "crypto \<Rightarrow> (commit \<Rightarrow> bytes option) \<Rightarrow> verified_block \<Rightarrow> dag_state
     \<Rightarrow> panic + (committed_sub_dag \<times> trusted_commit) \<times> dag_state" where
  "collect_sub_dag_and_commit cr encode leader ds =
    (let last_index = last_commit_index ds; last_digest = last_commit_digest ds;
         last_ts = last_commit_timestamp_ms ds
     in
     rbind (linearize_sub_dag leader ds) (\<lambda>(to_commit, ds).
     rbind (calculate_commit_timestamp ds leader last_ts) (\<lambda>ts.
     let c = commit_new (wrap32 (last_index + 1)) last_digest ts (reference leader) (map reference to_commit)
     in
     rbind (rexpect CommitSerialization (encode c)) (\<lambda>bytes.
     let tc = new_trusted cr c bytes
     in Inr ((committed_sub_dag_new (reference leader) to_commit ts (commit_reference tc), tc), ds)))))"

text \<open>
  The metric on pruned blocks only reads the state, but it indexes by the authors of the pruned
  ancestors.
\<close>

definition check_pruned_ancestor :: "dag_state \<Rightarrow> block_ref \<Rightarrow> panic + unit" where
  "check_pruned_ancestor ds r =
    (if br_round r \<le> gc_round ds
     then rbind (vec_get (last_committed_rounds ds) (br_author r)) (\<lambda>last_round.
          if last_round \<noteq> br_round r
          then rbind (committee_authority (ds_committee ds) (br_author r)) (\<lambda>_. Inr ())
          else Inr ())
     else Inr ())"

definition update_blocks_pruned_metric :: "dag_state \<Rightarrow> committed_sub_dag \<Rightarrow> panic + unit" where
  "update_blocks_pruned_metric ds sub =
     rfold (\<lambda>r _. check_pruned_ancestor ds r) (concat (map vb_ancestors (csd_blocks sub))) ()"

definition handle_leader ::
  "crypto \<Rightarrow> (commit \<Rightarrow> bytes option) \<Rightarrow> verified_block \<Rightarrow> committed_sub_dag list \<times> dag_state
     \<Rightarrow> panic + committed_sub_dag list \<times> dag_state" where
  "handle_leader cr encode leader = (\<lambda>(subs, ds).
     rbind (collect_sub_dag_and_commit cr encode leader ds) (\<lambda>((sub, c), ds).
     rbind (update_blocks_pruned_metric ds sub) (\<lambda>_.
     rbind (add_commit c ds) (\<lambda>ds.
     Inr (subs @ [sub], ds)))))"

definition handle_commit ::
  "crypto \<Rightarrow> (commit \<Rightarrow> bytes option) \<Rightarrow> verified_block list \<Rightarrow> dag_state
     \<Rightarrow> panic + committed_sub_dag list \<times> dag_state" where
  "handle_commit cr encode leaders ds = rfold (handle_leader cr encode) leaders ([], ds)"

end
