(* ===== verification/Linearizer_Correct.thy ===== *)
theory Linearizer_Correct
  imports Linearizer
begin

section \<open>Correctness of the linearizer\<close>

text \<open>
  The commit timestamp is a weighted median that correct authorities bound from both sides; the
  sub-dag of a leader is exactly its uncommitted causal history above the GC round; nodes that agree
  on this history compute the same sequence of commits.
\<close>

subsection \<open>The median timestamp\<close>

lemma median_walk_Some:
  assumes "median_walk tot cum xs = Some t" "cum \<le> tot div 2" "cum + (\<Sum>x\<leftarrow>xs. snd x) < 2 ^ 64"
  shows "\<exists>pre s post. xs = pre @ (t, s) # post \<and> cum + (\<Sum>x\<leftarrow>pre. snd x) \<le> tot div 2
    \<and> tot div 2 < cum + (\<Sum>x\<leftarrow>pre. snd x) + s"
  using assms
proof (induction tot cum xs rule: median_walk.induct)
  case (2 tot cum ts s rest)
  have w: "wrap64 (cum + s) = cum + s" using 2(4) by (simp add: wrap64_def)
  show ?case
  proof (cases "cum + s > tot div 2")
    case True
    then show ?thesis using 2(2,3) w by (intro exI [of _ "[]"]) auto
  next
    case False
    then obtain pre s' post where "rest = pre @ (t, s') # post" "cum + s + (\<Sum>x\<leftarrow>pre. snd x) \<le> tot div 2"
      "tot div 2 < cum + s + (\<Sum>x\<leftarrow>pre. snd x) + s'"
      using 2(1) [OF refl] 2(2,4) w by (auto simp: Let_def)
    then show ?thesis
      by (intro exI [of _ "(ts, s) # pre"] exI [of _ s'] exI [of _ post]) simp
  qed
qed simp

lemma median_walk_None:
  assumes "median_walk tot cum xs = None" "cum \<le> tot div 2" "cum + (\<Sum>x\<leftarrow>xs. snd x) < 2 ^ 64"
  shows "cum + (\<Sum>x\<leftarrow>xs. snd x) \<le> tot div 2"
  using assms
  by (induction tot cum xs rule: median_walk.induct) (auto simp: Let_def wrap64_def split: if_splits)

lemma sum_list_mset_cong:
  "mset xs = mset ys \<Longrightarrow> (\<Sum>x\<leftarrow>xs. f x) = (\<Sum>x\<leftarrow>ys. f x)" for f :: "'a \<Rightarrow> nat"
  by (metis mset_map sum_mset_sum_list)

lemma sum_list_filter_le: "(\<Sum>x\<leftarrow>filter P xs. f x) \<le> (\<Sum>x\<leftarrow>xs. f x)" for f :: "'a \<Rightarrow> nat"
  by (induction xs) auto

text \<open>Half of the stake is at or below the result and at most half is strictly below.\<close>

lemma median_inner_correct:
  assumes "tot = (\<Sum>x\<leftarrow>xs. snd x)" "0 < tot" "tot < 2 ^ 64"
  shows "\<exists>t. median_timestamps_by_stake_inner xs tot = Inr t \<and> t \<in> fst ` set xs
    \<and> 2 * (\<Sum>x\<leftarrow>filter (\<lambda>x. fst x < t) xs. snd x) \<le> tot
    \<and> tot < 2 * (\<Sum>x\<leftarrow>filter (\<lambda>x. fst x \<le> t) xs. snd x)"
proof -
  let ?ys = "sort_key fst xs"
  have sum_sort: "(\<Sum>x\<leftarrow>filter P ?ys. snd x) = (\<Sum>x\<leftarrow>filter P xs. snd x)" for P
    by (rule sum_list_mset_cong) simp
  have tot: "(\<Sum>x\<leftarrow>?ys. snd x) = tot" using sum_sort [of "\<lambda>_. True"] assms(1) by simp
  obtain t where t: "median_walk tot 0 ?ys = Some t"
    using median_walk_None [of tot 0 ?ys] assms tot by (cases "median_walk tot 0 ?ys") auto
  then obtain pre s post where ys: "?ys = pre @ (t, s) # post" "(\<Sum>x\<leftarrow>pre. snd x) \<le> tot div 2"
    "tot div 2 < (\<Sum>x\<leftarrow>pre. snd x) + s"
    using median_walk_Some [OF t] assms(3) tot by auto
  have sorted: "\<forall>x \<in> set pre. fst x \<le> t" "\<forall>x \<in> set post. t \<le> fst x"
    using sorted_sort_key [of fst xs] unfolding ys(1) by (auto simp: sorted_append)
  have "filter (\<lambda>x. fst x < t) ?ys = filter (\<lambda>x. fst x < t) pre"
    using sorted(2) unfolding ys(1) by (auto simp: filter_empty_conv)
  then have below: "(\<Sum>x\<leftarrow>filter (\<lambda>x. fst x < t) xs. snd x) \<le> (\<Sum>x\<leftarrow>pre. snd x)"
    unfolding sum_sort [symmetric] by (simp add: sum_list_filter_le)
  have "filter (\<lambda>x. fst x \<le> t) pre = pre" using sorted(1) by simp
  then have "(\<Sum>x\<leftarrow>filter (\<lambda>x. fst x \<le> t) ?ys. snd x) \<ge> (\<Sum>x\<leftarrow>pre. snd x) + s"
    unfolding ys(1) by simp
  then have above: "(\<Sum>x\<leftarrow>pre. snd x) + s \<le> (\<Sum>x\<leftarrow>filter (\<lambda>x. fst x \<le> t) xs. snd x)"
    unfolding sum_sort .
  have "t \<in> fst ` set ?ys" unfolding ys(1) by simp
  then have "t \<in> fst ` set xs" by simp
  then show ?thesis
    using t below above ys(2,3) by (intro exI [of _ t]) (auto simp: median_timestamps_by_stake_inner_def Let_def)
qed

lemma collect_timestamps:
  assumes "committee_base c" "\<forall>b \<in> set bs. is_valid_index c (vb_author b)" "distinct (map vb_author bs)"
  shows "rfold (collect_timestamp c) bs (0, []) =
    Inr (weight c (vb_author ` set bs), map (\<lambda>b. (vb_timestamp b, stk c (vb_author b))) bs)"
  using assms(2,3)
proof (induction bs rule: rev_induct)
  case (snoc b bs)
  obtain a where a: "committee_authority c (vb_author b) = Inr a" "a_stake a = stk c (vb_author b)"
    using committee_authority_valid snoc.prems(1) by force
  have "weight c (vb_author ` set (bs @ [b])) = weight c (vb_author ` set bs) + stk c (vb_author b)"
    using snoc.prems(2) by simp
  moreover have "wrap64 (weight c (vb_author ` set (bs @ [b]))) = weight c (vb_author ` set (bs @ [b]))"
    by (rule weight_no_wrap [OF assms(1)]) simp
  ultimately show ?case using snoc a by (simp add: rfold_append collect_timestamp_def)
qed simp

lemma sum_list_authors:
  assumes "distinct (map vb_author bs)"
  shows "(\<Sum>b\<leftarrow>bs. stk c (vb_author b)) = weight c (vb_author ` set bs)"
  using assms by (simp add: sum_list_distinct_conv_sum_set sum.reindex distinct_map)

text \<open>
  The functional behaviour of the median: its errors, and where its result lies among the timestamps.
\<close>

lemma median_timestamp_cases:
  assumes "committee_wf c" "\<forall>b \<in> set bs. is_valid_index c (vb_author b)" "distinct (map vb_author bs)"
  defines "w \<equiv> \<lambda>P. weight c (vb_author ` {b \<in> set bs. P b})"
  shows "bs = [] \<and> median_timestamp_by_stake c bs = Inr (Inl NoBlocksProvided)
    \<or> bs \<noteq> [] \<and> w (\<lambda>_. True) < quorum_threshold c
        \<and> median_timestamp_by_stake c bs = Inr (Inl (StakeBelowQuorum (w (\<lambda>_. True)) (quorum_threshold c)))
    \<or> bs \<noteq> [] \<and> quorum_threshold c \<le> w (\<lambda>_. True)
        \<and> (\<exists>t. median_timestamp_by_stake c bs = Inr (Inr t) \<and> t \<in> vb_timestamp ` set bs
             \<and> 2 * w (\<lambda>b. vb_timestamp b < t) \<le> w (\<lambda>_. True)
             \<and> w (\<lambda>_. True) < 2 * w (\<lambda>b. vb_timestamp b \<le> t))"
proof -
  have base: "committee_base c" using assms(1) by (rule committee_wf_base)
  let ?xs = "map (\<lambda>b. (vb_timestamp b, stk c (vb_author b))) bs"
  let ?tot = "weight c (vb_author ` set bs)"
  have tot: "w (\<lambda>_. True) = ?tot" by (simp add: w_def)
  have col: "rfold (collect_timestamp c) bs (0, []) = Inr (?tot, ?xs)"
    using collect_timestamps [OF base assms(2,3)] .
  have sums: "(\<Sum>x\<leftarrow>filter P ?xs. snd x) = w (\<lambda>b. P (vb_timestamp b, stk c (vb_author b)))" for P
  proof -
    let ?bs = "filter (\<lambda>b. P (vb_timestamp b, stk c (vb_author b))) bs"
    have "distinct (map vb_author ?bs)" using assms(3) by (simp add: distinct_map_filter)
    from sum_list_authors [OF this, of c] show ?thesis
      by (simp add: w_def filter_map comp_def)
  qed
  have q: "0 < quorum_threshold c"
    using bft.quorum_bound [OF assms(1)] committee_base_total [OF base] base by (simp add: committee_base_def)
  show ?thesis
  proof (cases "bs = [] \<or> ?tot < quorum_threshold c")
    case True
    then show ?thesis using col by (auto simp: median_timestamp_by_stake_def tot)
  next
    case False
    have "?tot < 2 ^ 64" using weight_no_wrap [OF base, of "vb_author ` set bs"]
      by (metis wrap64_def finite_imageI List.finite_set mod_less_divisor zero_less_numeral zero_less_power)
    then obtain t where t: "median_timestamps_by_stake_inner ?xs ?tot = Inr t" "t \<in> fst ` set ?xs"
      "2 * (\<Sum>x\<leftarrow>filter (\<lambda>x. fst x < t) ?xs. snd x) \<le> ?tot"
      "?tot < 2 * (\<Sum>x\<leftarrow>filter (\<lambda>x. fst x \<le> t) ?xs. snd x)"
      using median_inner_correct [of ?tot ?xs] sums [of "\<lambda>_. True"] False q by (auto simp: tot)
    have "t \<in> vb_timestamp ` set bs" using t(2) by auto
    then show ?thesis using False col t(1,3,4) unfolding sums fst_conv tot
      by (intro disjI2) (simp add: median_timestamp_by_stake_def)
  qed
qed

text \<open>
  C35. When the stake of the faulty authorities is below the validity threshold, the median
  timestamp lies between the timestamps of two blocks by correct authorities.
\<close>

theorem median_between_correct:
  assumes "committee_wf c" "\<forall>b \<in> set bs. is_valid_index c (vb_author b)" "distinct (map vb_author bs)"
    and "F \<subseteq> members c" "weight c F < validity_threshold c"
    and "median_timestamp_by_stake c bs = Inr (Inr t)"
  shows "\<exists>b1 \<in> set bs. \<exists>b2 \<in> set bs. vb_author b1 \<notin> F \<and> vb_author b2 \<notin> F
    \<and> vb_timestamp b1 \<le> t \<and> t \<le> vb_timestamp b2"
proof -
  let ?w = "\<lambda>P. weight c (vb_author ` {b \<in> set bs. P b})"
  have m: "quorum_threshold c \<le> ?w (\<lambda>_. True)" "2 * ?w (\<lambda>b. vb_timestamp b < t) \<le> ?w (\<lambda>_. True)"
    "?w (\<lambda>_. True) < 2 * ?w (\<lambda>b. vb_timestamp b \<le> t)"
    using median_timestamp_cases [OF assms(1-3)] assms(6) by auto
  have q: "2 * validity_threshold c \<le> quorum_threshold c + 1"
    using bft.quorum_bound [OF assms(1)] bft.quorum_available [OF assms(1)] by linarith
  have "?w (\<lambda>b. vb_timestamp b < t) + ?w (\<lambda>b. t \<le> vb_timestamp b) = ?w (\<lambda>_. True)"
  proof -
    have "vb_author ` {b \<in> set bs. vb_timestamp b < t} \<inter> vb_author ` {b \<in> set bs. t \<le> vb_timestamp b} = {}"
      using assms(3) by (fastforce simp: distinct_map inj_on_def)
    moreover have "vb_author ` {b \<in> set bs. vb_timestamp b < t} \<union> vb_author ` {b \<in> set bs. t \<le> vb_timestamp b}
        = vb_author ` {b \<in> set bs. True}"
      by (force simp: not_less)
    moreover have "finite (vb_author ` {b \<in> set bs. P b})" for P by simp
    ultimately show ?thesis
      using sum.union_disjoint [of "vb_author ` {b \<in> set bs. vb_timestamp b < t}"
        "vb_author ` {b \<in> set bs. t \<le> vb_timestamp b}" "stk c"] by simp
  qed
  then have v: "validity_threshold c \<le> ?w (\<lambda>b. vb_timestamp b \<le> t)" "validity_threshold c \<le> ?w (\<lambda>b. t \<le> vb_timestamp b)"
    using m q by linarith+
  have sub: "vb_author ` {b \<in> set bs. P b} \<subseteq> members c" for P using assms(2) by auto
  show ?thesis
    using bft.heavy_set_escapes [OF assms(1) sub assms(4) v(1) assms(5)]
      bft.heavy_set_escapes [OF assms(1) sub assms(4) v(2) assms(5)] by blast
qed

subsection \<open>Marking blocks as committed\<close>

definition mark_committed :: "block_ref set \<Rightarrow> dag_state \<Rightarrow> dag_state" where
  "mark_committed S ds = ds\<lparr>recent_blocks :=
     fmmap_keys (\<lambda>r bi. bi\<lparr>committed := committed bi \<or> r \<in> S\<rparr>) (recent_blocks ds)\<rparr>"

lemma mark_committed_lookup [simp]:
  "fmlookup (recent_blocks (mark_committed S ds)) r =
     map_option (\<lambda>bi. bi\<lparr>committed := committed bi \<or> r \<in> S\<rparr>) (fmlookup (recent_blocks ds) r)"
  by (simp add: mark_committed_def)

lemma cached_mark [simp]: "cached_block (mark_committed S ds) = cached_block ds"
  by (auto simp: cached_block_def fun_eq_iff option.map_comp comp_def)

lemma mark_committed_fields [simp]:
  "ds_context (mark_committed S ds) = ds_context ds"
  "genesis (mark_committed S ds) = genesis ds"
  "ds_store (mark_committed S ds) = ds_store ds"
  "last_commit (mark_committed S ds) = last_commit ds"
  "last_committed_rounds (mark_committed S ds) = last_committed_rounds ds"
  "gc_round (mark_committed S ds) = gc_round ds"
  by (simp_all add: mark_committed_def)

lemma get_block_mark [simp]: "get_block (mark_committed S ds) = get_block ds"
  by (auto simp: fun_eq_iff get_block_eq cong: option.case_cong)

lemma uncommitted_mark [simp]: "uncommitted (mark_committed S ds) = uncommitted ds - S"
  by (auto simp: uncommitted_def)

lemma mark_mark: "mark_committed S (mark_committed T ds) = mark_committed (S \<union> T) ds"
proof -
  have "fmmap_keys (\<lambda>r bi. bi\<lparr>committed := committed bi \<or> r \<in> S\<rparr>)
      (fmmap_keys (\<lambda>r bi. bi\<lparr>committed := committed bi \<or> r \<in> T\<rparr>) (recent_blocks ds))
    = fmmap_keys (\<lambda>r bi. bi\<lparr>committed := committed bi \<or> r \<in> S \<union> T\<rparr>) (recent_blocks ds)"
    by (rule fmap_ext) (auto simp: option.map_comp comp_def disj_ac)
  then show ?thesis by (simp add: mark_committed_def)
qed

lemma commit_block_mark:
  assumes "r \<in> uncommitted ds"
  shows "commit_block r ds = Inr (mark_committed {r} ds)"
proof -
  obtain bi where bi: "fmlookup (recent_blocks ds) r = Some bi" "\<not> committed bi"
    using assms by (auto simp: uncommitted_def)
  have "fmupd r (bi\<lparr>committed := True\<rparr>) (recent_blocks ds) =
      fmmap_keys (\<lambda>r' bi. bi\<lparr>committed := committed bi \<or> r' \<in> {r}\<rparr>) (recent_blocks ds)"
    by (rule fmap_ext) (use bi in \<open>auto simp: option.map_ident_strong\<close>)
  then show ?thesis using bi by (simp add: commit_block_eq mark_committed_def)
qed

lemma commit_blocks_mark:
  assumes "distinct (map reference bs)" "reference ` set bs \<subseteq> uncommitted ds"
  shows "rfold (\<lambda>b. commit_block (reference b)) bs ds = Inr (mark_committed (reference ` set bs) ds)"
  using assms
proof (induction bs arbitrary: ds)
  case Nil
  have "fmmap_keys (\<lambda>r bi. bi\<lparr>committed := committed bi \<or> r \<in> {}\<rparr>) (recent_blocks ds) = recent_blocks ds"
    by (rule fmap_ext) (simp add: option.map_ident_strong)
  then show ?case by (simp add: mark_committed_def)
next
  case (Cons b bs)
  have "reference b \<notin> reference ` set bs" using Cons.prems(1) by simp
  then have "reference ` set bs \<subseteq> uncommitted (mark_committed {reference b} ds)"
    using Cons.prems(2) unfolding uncommitted_mark list.set by blast
  with Cons.prems show ?case
    by (simp add: commit_block_mark Cons.IH mark_mark Un_commute)
qed

lemma mark_empty [simp]: "mark_committed {} ds = ds"
  using commit_blocks_mark [of "[]" ds] by simp

subsection \<open>The traversal\<close>

text \<open>
  What the traversal needs of the DAG: cached blocks lie under their own references, above round 0,
  name each ancestor once, and have their ancestors above the GC round cached.
\<close>

definition traversable :: "round_number \<Rightarrow> dag_state \<Rightarrow> bool" where
  "traversable gc ds \<longleftrightarrow>
     (\<forall>r b. cached_block ds r = Some b \<longrightarrow> reference b = r \<and> 0 < br_round r \<and> distinct (vb_ancestors b)
        \<and> (\<forall>a \<in> set (vb_ancestors b). gc < br_round a \<longrightarrow> cached_block ds a \<noteq> None))"

definition parents :: "dag_state \<Rightarrow> block_ref \<Rightarrow> block_ref set" where
  "parents ds r = (case cached_block ds r of Some b \<Rightarrow> set (vb_ancestors b) | None \<Rightarrow> {})"

lemma traversable_mark [simp]: "traversable gc (mark_committed S ds) = traversable gc ds"
  by (simp add: traversable_def)

lemma parents_mark [simp]: "parents (mark_committed S ds) = parents ds"
  by (simp add: parents_def fun_eq_iff)

lemma uncommitted_cached: "r \<in> uncommitted ds \<Longrightarrow> cached_block ds r \<noteq> None"
  by (auto simp: uncommitted_def cached_block_def)

lemma uncommitted_ancestors_filter:
  assumes "\<forall>r \<in> set rs. gc < br_round r \<longrightarrow> cached_block ds r \<noteq> None"
  shows "uncommitted_ancestors ds gc rs = Inr (filter (\<lambda>r. gc < br_round r \<and> r \<in> uncommitted ds) rs)"
  using assms
  by (induction rs) (auto simp: is_committed_def uncommitted_def cached_block_def rexpect_def)

lemma rmap_expect_Some: "rmap (rexpect e) (map (\<lambda>x. Some (f x)) xs) = Inr (map f xs)"
  by (induction xs) auto

lemma get_cached_blocks_all:
  assumes "traversable gc ds" "\<forall>r \<in> set refs. cached_block ds r \<noteq> None"
  shows "rmap (rexpect BlockMissingInDag) (get_blocks ds refs) = Inr (map (\<lambda>r. the (cached_block ds r)) refs)"
proof -
  have "get_block ds r = Some (the (cached_block ds r))" if r: "r \<in> set refs" for r
  proof -
    obtain b where b: "cached_block ds r = Some b" using assms(2) r by auto
    then have "0 < br_round r" using assms(1) by (auto simp: traversable_def)
    then show ?thesis using b by (simp add: get_block_eq)
  qed
  then have "get_blocks ds refs = map (\<lambda>r. Some (the (cached_block ds r))) refs" by (simp add: get_blocks_map)
  then show ?thesis by (simp add: rmap_expect_Some)
qed

lemma reach_absorb:
  assumes "R \<subseteq> U"
  shows "reach succ U (R \<union> S) = R \<union> reach succ (U - R) (\<Union> (succ ` R) \<union> S)"
proof (intro equalityI subsetI)
  fix x assume "x \<in> reach succ U (R \<union> S)"
  then show "x \<in> R \<union> reach succ (U - R) (\<Union> (succ ` R) \<union> S)"
    by induction (auto intro: reach.intros)
next
  fix x assume x: "x \<in> R \<union> reach succ (U - R) (\<Union> (succ ` R) \<union> S)"
  have R: "r \<in> reach succ U (R \<union> S)" if "r \<in> R" for r using that assms by (auto intro: reach.intros)
  have "y \<in> reach succ U (R \<union> S)" if "y \<in> reach succ (U - R) (\<Union> (succ ` R) \<union> S)" for y
    using that R by induction (auto intro: reach.intros)
  with x R show "x \<in> reach succ U (R \<union> S)" by auto
qed

lemma reach_cut: "reach succ U S = reach succ U (S \<inter> U)"
proof (intro equalityI subsetI)
  fix x assume "x \<in> reach succ U S"
  then show "x \<in> reach succ U (S \<inter> U)" by induction (auto intro: reach.intros)
next
  fix x assume "x \<in> reach succ U (S \<inter> U)"
  then show "x \<in> reach succ U S" by induction (auto intro: reach.intros)
qed

definition on_stack :: "dag_state \<Rightarrow> verified_block list \<Rightarrow> bool" where
  "on_stack ds buffer \<longleftrightarrow> distinct (map reference buffer)
     \<and> (\<forall>b \<in> set buffer. cached_block ds (reference b) = Some b \<and> reference b \<notin> uncommitted ds)"

lemma linearize_step:
  assumes "traversable gc ds" "on_stack ds (x # buffer)"
  defines "refs \<equiv> filter (\<lambda>r. gc < br_round r \<and> r \<in> uncommitted ds) (vb_ancestors x)"
  defines "ancs \<equiv> map (\<lambda>r. the (cached_block ds r)) refs"
  shows "linearize_loop gc (x # buffer) to_commit ds
      = linearize_loop gc (rev ancs @ buffer) (to_commit @ [x]) (mark_committed (set refs) ds)"
    and "map reference ancs = refs" "on_stack (mark_committed (set refs) ds) (rev ancs @ buffer)"
proof -
  have x: "cached_block ds (reference x) = Some x" using assms(2) by (simp add: on_stack_def)
  have dist: "distinct (vb_ancestors x)" and anc: "\<forall>r \<in> set (vb_ancestors x). gc < br_round r \<longrightarrow> cached_block ds r \<noteq> None"
    using assms(1) x by (auto simp: traversable_def)
  have cached: "\<forall>r \<in> set refs. cached_block ds r \<noteq> None" using anc by (auto simp: refs_def)
  have refa: "reference (the (cached_block ds r)) = r" if "r \<in> set refs" for r
    using assms(1) cached that by (auto simp: traversable_def)
  show refs: "map reference ancs = refs" using refa by (simp add: ancs_def map_idI)
  have drefs: "distinct refs" using dist by (simp add: refs_def)
  have set_refs: "reference ` set ancs = set refs" using refs by (metis list.set_map)
  have "rfold (\<lambda>b. commit_block (reference b)) ancs ds = Inr (mark_committed (set refs) ds)"
    using commit_blocks_mark [of ancs ds] drefs unfolding refs set_refs by (auto simp: refs_def)
  then show "linearize_loop gc (x # buffer) to_commit ds
      = linearize_loop gc (rev ancs @ buffer) (to_commit @ [x]) (mark_committed (set refs) ds)"
    using uncommitted_ancestors_filter [OF anc] get_cached_blocks_all [OF assms(1) cached]
    by (simp add: refs_def ancs_def)
  have disj: "set refs \<inter> reference ` set buffer = {}"
    using assms(2) by (auto simp: on_stack_def refs_def)
  have "map reference (rev ancs @ buffer) = rev refs @ map reference buffer" by (simp add: rev_map flip: refs)
  then have "distinct (map reference (rev ancs @ buffer))"
    using disj drefs assms(2) by (simp add: on_stack_def)
  moreover have "cached_block ds (reference b) = Some b \<and> reference b \<in> set refs" if "b \<in> set ancs" for b
    using that refa cached by (auto simp: ancs_def)
  moreover have "cached_block ds (reference b) = Some b \<and> reference b \<notin> uncommitted ds" if "b \<in> set buffer" for b
    using that assms(2) by (simp add: on_stack_def)
  ultimately show "on_stack (mark_committed (set refs) ds) (rev ancs @ buffer)"
    unfolding on_stack_def cached_mark uncommitted_mark by auto
qed

lemma reach_frontier:
  fixes x :: verified_block
  assumes "\<And>r. r \<in> U \<Longrightarrow> \<exists>b. cached_block ds r = Some b" "\<And>r. r \<in> U \<longleftrightarrow> P r"
  shows "reach (parents ds) U (\<Union>b\<in>set (x # rest). set (vb_ancestors b)) =
    set (filter P (vb_ancestors x)) \<union> reach (parents ds) (U - set (filter P (vb_ancestors x)))
      (\<Union>b\<in>set (rev (map (\<lambda>r. the (cached_block ds r)) (filter P (vb_ancestors x))) @ rest). set (vb_ancestors b))"
proof -
  let ?R = "set (filter P (vb_ancestors x))" and ?B = "\<Union>b\<in>set rest. set (vb_ancestors b)"
  have R: "?R \<subseteq> U" using assms(2) by auto
  have "reach (parents ds) U (\<Union>b\<in>set (x # rest). set (vb_ancestors b)) = reach (parents ds) U (?R \<union> ?B)"
    using reach_cut [of "parents ds" U "?R \<union> ?B"] reach_cut [of "parents ds" U "\<Union>b\<in>set (x # rest). set (vb_ancestors b)"]
      assms(2) by (simp add: Int_Un_distrib2 Int_def conj_commute cong: conj_cong)
  also have "\<dots> = ?R \<union> reach (parents ds) (U - ?R) (\<Union> (parents ds ` ?R) \<union> ?B)" by (rule reach_absorb [OF R])
  also have "\<Union> (parents ds ` ?R) = (\<Union>b\<in>set (map (\<lambda>r. the (cached_block ds r)) (filter P (vb_ancestors x))). set (vb_ancestors b))"
    using assms R by (fastforce simp: parents_def)
  finally show ?thesis by (simp add: Un_commute)
qed

lemma linearize_loop_correct:
  assumes "traversable gc ds" "on_stack ds buffer"
  defines "S \<equiv> reach (parents ds) {r \<in> uncommitted ds. gc < br_round r} (\<Union>b\<in>set buffer. set (vb_ancestors b))"
  shows "\<exists>new. linearize_loop gc buffer to_commit ds = Inr (to_commit @ new, mark_committed S ds)
    \<and> distinct (map reference new) \<and> reference ` set new = reference ` set buffer \<union> S
    \<and> (\<forall>b \<in> set new. cached_block ds (reference b) = Some b)"
  using assms(1,2) unfolding S_def
proof (induction "card (uncommitted ds) + length buffer" arbitrary: ds buffer to_commit rule: less_induct)
  case less
  show ?case
  proof (cases buffer)
    case Nil
    then show ?thesis by simp
  next
    case (Cons x rest)
    define refs where "refs = filter (\<lambda>r. gc < br_round r \<and> r \<in> uncommitted ds) (vb_ancestors x)"
    define ancs where "ancs = map (\<lambda>r. the (cached_block ds r)) refs"
    let ?U = "{r \<in> uncommitted ds. gc < br_round r}" and ?ds = "mark_committed (set refs) ds"
    have stack: "on_stack ds (x # rest)" using less.prems(2) Cons by simp
    note step = linearize_step [OF less.prems(1) stack, folded refs_def, folded ancs_def]
    have "distinct (vb_ancestors x)"
      using less.prems(1) stack by (auto simp: traversable_def on_stack_def)
    then have "distinct refs" by (simp add: refs_def)
    then have "card (set refs) = length refs" by (rule distinct_card)
    moreover have "set refs \<subseteq> uncommitted ds" by (auto simp: refs_def)
    then have "card (uncommitted ds - set refs) + card (set refs) = card (uncommitted ds)"
      using card_mono [OF finite_uncommitted, of "set refs" ds] by (simp add: card_Diff_subset)
    ultimately have card: "card (uncommitted ?ds) + length (rev ancs @ rest) < card (uncommitted ds) + length buffer"
      by (simp add: Cons ancs_def)
    define T where "T = reach (parents ds) (?U - set refs) (\<Union>b\<in>set (rev ancs @ rest). set (vb_ancestors b))"
    have U': "{r \<in> uncommitted ?ds. gc < br_round r} = ?U - set refs" by auto
    have "\<exists>new. linearize_loop gc (rev ancs @ rest) (to_commit @ [x]) ?ds = Inr ((to_commit @ [x]) @ new, mark_committed T ?ds)
      \<and> distinct (map reference new) \<and> reference ` set new = reference ` set (rev ancs @ rest) \<union> T
      \<and> (\<forall>b \<in> set new. cached_block ds (reference b) = Some b)"
      using less.hyps [OF card, of "to_commit @ [x]"] less.prems(1) step(3)
      unfolding U' parents_mark traversable_mark cached_mark T_def by blast
    then obtain new where new: "linearize_loop gc (rev ancs @ rest) (to_commit @ [x]) ?ds = Inr ((to_commit @ [x]) @ new, mark_committed T ?ds)"
      "distinct (map reference new)" "reference ` set new = reference ` set (rev ancs @ rest) \<union> T"
      "\<forall>b \<in> set new. cached_block ds (reference b) = Some b"
      by blast
    have refs: "reference ` set ancs = set refs" using step(2) by (metis list.set_map)
    have S: "reach (parents ds) ?U (\<Union>b\<in>set buffer. set (vb_ancestors b)) = set refs \<union> T"
      unfolding T_def Cons refs_def ancs_def by (rule reach_frontier) (use less.prems(1) in \<open>auto simp: traversable_def dest: uncommitted_cached\<close>)
    have "reference x \<notin> set refs" "reference x \<notin> reference ` set rest" "reference x \<notin> T"
      using stack reach_subset [of "parents ds" "?U - set refs"] by (auto simp: refs_def on_stack_def T_def)
    then have "distinct (map reference (x # new))" using new(2,3) refs by auto
    moreover have "reference ` set (x # new) = reference ` set buffer \<union> (set refs \<union> T)"
      using new(3) refs Cons by auto
    moreover have "\<forall>b \<in> set (x # new). cached_block ds (reference b) = Some b"
      using new(4) stack by (simp add: on_stack_def)
    ultimately show ?thesis
      using new(1) step(1) Cons unfolding S by (intro exI [of _ "x # new"]) (simp add: mark_mark Un_commute)
  qed
qed

lemma linearize_sub_dag_ok:
  assumes "traversable (gc_round ds) ds" "cached_block ds (reference leader) = Some leader"
    and "reference leader \<in> uncommitted ds" "gc_round ds < vb_round leader"
  shows "\<exists>bs. linearize_sub_dag leader ds = Inr (bs, mark_committed (reference ` set bs) ds)
    \<and> distinct (map reference bs)
    \<and> reference ` set bs = reach (parents ds) {r \<in> uncommitted ds. gc_round ds < br_round r} {reference leader}
    \<and> (\<forall>b \<in> set bs. cached_block ds (reference b) = Some b \<and> gc_round ds < vb_round b)
    \<and> sorted (map (\<lambda>b. Slot (vb_round b) (vb_author b)) bs)"
proof -
  let ?L = "reference leader" and ?gc = "gc_round ds"
  let ?ds1 = "mark_committed {?L} ds" and ?U = "{r \<in> uncommitted ds. gc_round ds < br_round r}"
  define S where "S = reach (parents ds) (?U - {?L}) (set (vb_ancestors leader))"
  have c1: "commit_block ?L ds = Inr ?ds1" by (rule commit_block_mark [OF assms(3)])
  have "on_stack ?ds1 [leader]" using assms(2) by (simp add: on_stack_def)
  moreover have "{r \<in> uncommitted ?ds1. ?gc < br_round r} = ?U - {?L}" by auto
  ultimately obtain new where new: "linearize_loop ?gc [leader] [] ?ds1 = Inr (new, mark_committed S ?ds1)"
    "distinct (map reference new)" "reference ` set new = insert ?L S"
    "\<forall>b \<in> set new. cached_block ds (reference b) = Some b"
    using linearize_loop_correct [of ?gc ?ds1 "[leader]" "[]"] assms(1) by (auto simp: S_def)
  have pL: "parents ds ?L = set (vb_ancestors leader)" using assms(2) by (simp add: parents_def)
  have hist: "insert ?L S = reach (parents ds) ?U {?L}"
    using reach_insert [of ?L ?U "parents ds" "{}"] assms(3,4) by (simp add: S_def pL)
  have above: "?gc < vb_round b" if "b \<in> set new" for b
  proof -
    have "reference b \<in> insert ?L S" using that new(3) by blast
    then have "?gc < br_round (reference b)" using reach_subset [of "parents ds" ?U "{?L}"] unfolding hist by blast
    then show ?thesis by simp
  qed
  have "linearize_sub_dag leader ds = Inr (sort_sub_dag_blocks new, mark_committed (insert ?L S) ds)"
    using c1 new(1) above by (simp add: linearize_sub_dag_def mark_mark)
  moreover have "distinct (map reference (sort_sub_dag_blocks new))"
  proof -
    have "mset (map reference (sort_sub_dag_blocks new)) = mset (map reference new)" by simp
    then show ?thesis using new(2) by (metis mset_eq_imp_distinct_iff)
  qed
  ultimately show ?thesis
    using new(3,4) above hist sort_sub_dag_sorted [of new] by (intro exI [of _ "sort_sub_dag_blocks new"]) simp
qed

text \<open>
  C7. The sub-dag of a leader is exactly its uncommitted causal history above the GC round: the
  traversal never panics on a closed DAG, visits each such block once, marks exactly these as
  committed, and returns them in the order of rounds and authors.
\<close>

theorem linearize_sub_dag_correct:
  assumes "traversable (gc_round ds) ds" "cached_block ds (reference leader) = Some leader"
    and "reference leader \<in> uncommitted ds" "gc_round ds < vb_round leader"
  shows "\<exists>bs. linearize_sub_dag leader ds = Inr (bs, mark_committed (reference ` set bs) ds)
    \<and> distinct (map reference bs)
    \<and> reference ` set bs = reach (parents ds) {r \<in> uncommitted ds. gc_round ds < br_round r} {reference leader}
    \<and> (\<forall>b \<in> set bs. cached_block ds (reference b) = Some b \<and> gc_round ds < vb_round b)
    \<and> sorted (map (\<lambda>b. Slot (vb_round b) (vb_author b)) bs)"
  using linearize_sub_dag_ok [OF assms] .

subsection \<open>Committing a leader\<close>

text \<open>What the committer guarantees of a leader it hands over.\<close>

definition committable :: "dag_state \<Rightarrow> verified_block \<Rightarrow> bool" where
  "committable ds l \<longleftrightarrow>
     cached_block ds (reference l) = Some l \<and> reference l \<in> uncommitted ds \<and> gc_round ds < vb_round l
     \<and> (let ps = filter (\<lambda>r. br_round r = vb_round l - 1) (vb_ancestors l) in
        (\<forall>r \<in> set ps. \<exists>p. get_block ds r = Some p \<and> reference p = r)
        \<and> distinct (map br_author ps) \<and> quorum_threshold (ds_committee ds) \<le> weight (ds_committee ds) (br_author ` set ps))"

definition authors_valid :: "dag_state \<Rightarrow> bool" where
  "authors_valid ds \<longleftrightarrow> (\<forall>r b. cached_block ds r = Some b \<longrightarrow> is_valid_index (ds_committee ds) (vb_author b)
     \<and> (\<forall>a \<in> set (vb_ancestors b). is_valid_index (ds_committee ds) (br_author a)))"

lemma commit_timestamp_ok:
  assumes "committee_wf (ds_committee ds)" "committable ds l" "authors_valid ds"
  shows "\<exists>ts. calculate_commit_timestamp (mark_committed S ds) l last_ts = Inr ts \<and> last_ts \<le> ts"
proof -
  let ?ps = "filter (\<lambda>r. br_round r = vb_round l - 1) (vb_ancestors l)" and ?c = "ds_committee ds"
  have l: "cached_block ds (reference l) = Some l" "0 < vb_round l" and ps: "\<forall>r \<in> set ?ps. \<exists>p. get_block ds r = Some p \<and> reference p = r"
    and dist: "distinct (map br_author ?ps)" and q: "quorum_threshold ?c \<le> weight ?c (br_author ` set ?ps)"
    using assms(2) by (auto simp: committable_def Let_def)
  define bs where "bs = map (\<lambda>r. the (get_block ds r)) ?ps"
  have get: "get_blocks (mark_committed S ds) ?ps = map (\<lambda>r. Some (the (get_block ds r))) ?ps"
    using ps by (auto simp: get_blocks_map)
  have "vb_author (the (get_block ds r)) = br_author r" if "r \<in> set ?ps" for r
    using ps that by (metis option.sel reference_simps(2))
  then have auth: "map vb_author bs = map br_author ?ps" by (simp add: bs_def)
  then have auths: "vb_author ` set bs = br_author ` set ?ps" by (metis list.set_map)
  have valid: "\<forall>b \<in> set bs. is_valid_index ?c (vb_author b)"
  proof
    fix b assume "b \<in> set bs"
    then have "vb_author b \<in> br_author ` set ?ps" using auths by blast
    then show "is_valid_index ?c (vb_author b)" using assms(3) l(1) by (auto simp: authors_valid_def)
  qed
  have q': "quorum_threshold ?c \<le> weight ?c (vb_author ` {b \<in> set bs. True})" using q auths by simp
  have "0 < quorum_threshold ?c"
    using bft.quorum_bound [OF assms(1)] committee_base_total [OF committee_wf_base [OF assms(1)]]
      committee_wf_base [OF assms(1)] by (simp add: committee_base_def)
  then obtain t where "median_timestamp_by_stake ?c bs = Inr (Inr t)"
    using median_timestamp_cases [OF assms(1) valid] dist auth q' by auto
  then show ?thesis
    using l(2) get by (simp add: calculate_commit_timestamp_def rmap_expect_Some bs_def)
qed

lemma pruned_metric_ok:
  assumes "authors_valid ds" "length (last_committed_rounds ds) = committee_size (ds_committee ds)"
    and "\<forall>b \<in> set (csd_blocks sub). cached_block ds (reference b) = Some b"
  shows "update_blocks_pruned_metric (mark_committed S ds) sub = Inr ()"
proof -
  have "check_pruned_ancestor (mark_committed S ds) r = Inr ()"
    if "r \<in> set (concat (map vb_ancestors (csd_blocks sub)))" for r
  proof -
    have v: "is_valid_index (ds_committee ds) (br_author r)" using that assms(1,3) by (auto simp: authors_valid_def)
    then obtain a where "committee_authority (ds_committee ds) (br_author r) = Inr a"
      using committee_authority_valid by blast
    then show ?thesis using v assms(2) by (auto simp: check_pruned_ancestor_def is_valid_index_def)
  qed
  then have "rfold (\<lambda>r _. check_pruned_ancestor (mark_committed S ds) r) rs () = Inr ()"
    if "set rs \<subseteq> set (concat (map vb_ancestors (csd_blocks sub)))" for rs
    using that by (induction rs) auto
  then show ?thesis by (simp add: update_blocks_pruned_metric_def)
qed

definition committed_state :: "committed_sub_dag \<Rightarrow> trusted_commit \<Rightarrow> round_number list \<Rightarrow> dag_state \<Rightarrow> dag_state" where
  "committed_state sub c rounds ds = (mark_committed (reference ` set (csd_blocks sub)) ds)\<lparr>last_commit := Some c,
     last_committed_rounds := rounds, pending_commit_votes := pending_commit_votes ds @ [commit_reference c],
     commits_to_write := commits_to_write ds @ [c]\<rparr>"

lemma handle_leader_run:
  assumes "committee_wf (ds_committee ds)" "traversable (gc_round ds) ds" "authors_valid ds" "committable ds l"
    and "length (last_committed_rounds ds) = committee_size (ds_committee ds)"
    and "last_commit_index ds < u32_max" "\<forall>c. encode c \<noteq> None"
  shows "\<exists>sub c rounds. handle_leader cr encode l (subs, ds) = Inr (subs @ [sub], committed_state sub c rounds ds)
    \<and> length rounds = committee_size (ds_committee ds)
    \<and> commit_idx (trusted_inner c) = last_commit_index ds + 1
    \<and> commit_previous_digest (trusted_inner c) = last_commit_digest ds
    \<and> last_commit_timestamp_ms ds \<le> commit_timestamp (trusted_inner c)
    \<and> commit_leader (trusted_inner c) = reference l \<and> csd_leader sub = reference l
    \<and> commit_blocks (trusted_inner c) = map reference (csd_blocks sub)
    \<and> csd_commit_ref sub = commit_reference c
    \<and> distinct (map reference (csd_blocks sub))
    \<and> reference ` set (csd_blocks sub) = reach (parents ds) {r \<in> uncommitted ds. gc_round ds < br_round r} {reference l}
    \<and> (\<forall>b \<in> set (csd_blocks sub). cached_block ds (reference b) = Some b)"
proof -
  have l: "cached_block ds (reference l) = Some l" "reference l \<in> uncommitted ds" "gc_round ds < vb_round l"
    using assms(4) by (simp_all add: committable_def)
  obtain bs where bs: "linearize_sub_dag l ds = Inr (bs, mark_committed (reference ` set bs) ds)"
    "distinct (map reference bs)"
    "reference ` set bs = reach (parents ds) {r \<in> uncommitted ds. gc_round ds < br_round r} {reference l}"
    "\<forall>b \<in> set bs. cached_block ds (reference b) = Some b \<and> gc_round ds < vb_round b"
    using linearize_sub_dag_ok [OF assms(2) l] by (elim exE conjE) (rule that)
  let ?ds = "mark_committed (reference ` set bs) ds"
  obtain ts where ts: "calculate_commit_timestamp ?ds l (last_commit_timestamp_ms ds) = Inr ts"
    "last_commit_timestamp_ms ds \<le> ts"
    using commit_timestamp_ok [OF assms(1,4,3)] by blast
  have idx: "wrap32 (Suc (last_commit_index ds)) = Suc (last_commit_index ds)"
    using assms(6) by (simp add: wrap32_def u32_max_def)
  define co where "co = commit_new (Suc (last_commit_index ds)) (last_commit_digest ds) ts (reference l) (map reference bs)"
  obtain bytes where bytes: "encode co = Some bytes" using assms(7) by blast
  define tc where "tc = new_trusted cr co bytes"
  define sub where "sub = committed_sub_dag_new (reference l) bs ts (commit_reference tc)"
  have tc: "trusted_inner tc = co" by (simp add: tc_def new_trusted_def)
  have sub: "csd_blocks sub = bs" "csd_leader sub = reference l" "csd_commit_ref sub = commit_reference tc"
    by (simp_all add: sub_def committed_sub_dag_new_def)
  have coll: "collect_sub_dag_and_commit cr encode l ds = Inr ((sub, tc), ?ds)"
    using bs(1) ts(1) bytes idx
    by (simp add: collect_sub_dag_and_commit_def Let_def co_def [symmetric] tc_def [symmetric] sub_def [symmetric])
  have met: "update_blocks_pruned_metric ?ds sub = Inr ()"
    by (rule pruned_metric_ok [OF assms(3,5)]) (use bs(4) sub in simp)
  have auth: "\<forall>r \<in> set (commit_blocks (trusted_inner tc)). br_author r < length (last_committed_rounds ?ds)"
    using bs(4) assms(3,5) by (auto simp: tc co_def authors_valid_def is_valid_index_def)
  obtain rounds' where rounds': "length rounds' = length (last_committed_rounds ds)"
    and rec: "record_commit tc ?ds = Inr (?ds\<lparr>last_commit := Some tc, last_committed_rounds := rounds',
      pending_commit_votes := pending_commit_votes ?ds @ [commit_reference tc],
      commits_to_write := commits_to_write ?ds @ [tc]\<rparr>)"
    using record_commit_ok [OF auth] assms(5) by auto
  let ?ds' = "?ds\<lparr>last_commit := Some tc, last_committed_rounds := rounds',
      pending_commit_votes := pending_commit_votes ?ds @ [commit_reference tc],
      commits_to_write := commits_to_write ?ds @ [tc]\<rparr>"
  have "add_commit tc ?ds = Inr ?ds'"
    using rec ts(2) idx
    by (auto simp: add_commit_def tc co_def last_commit_index_def last_commit_timestamp_ms_def split: option.splits)
  then have "handle_leader cr encode l (subs, ds) = Inr (subs @ [sub], committed_state sub tc rounds' ds)"
    using coll met sub(1) by (simp add: handle_leader_def committed_state_def mark_committed_def)
  then show ?thesis
    using ts(2) bs(2-4) rounds' assms(5)
    by (intro exI [of _ sub] exI [of _ tc] exI [of _ rounds']) (simp add: sub tc co_def)
qed

text \<open>
  C12. Handing over a committable leader never panics. The commit that is added extends the chain:
  next index, digest of the previous commit, a timestamp that does not decrease; it lists the blocks
  of the sub-dag in order, which are exactly the uncommitted causal history of the leader above the
  GC round, and these are the blocks that become committed.
\<close>

theorem handle_leader_correct:
  assumes "committee_wf (ds_committee ds)" "traversable (gc_round ds) ds" "authors_valid ds" "committable ds l"
    and "length (last_committed_rounds ds) = committee_size (ds_committee ds)"
    and "last_commit_index ds < u32_max" "\<forall>c. encode c \<noteq> None"
  shows "\<exists>sub c ds'. handle_leader cr encode l (subs, ds) = Inr (subs @ [sub], ds')
    \<and> last_commit ds' = Some c
    \<and> commit_idx (trusted_inner c) = last_commit_index ds + 1
    \<and> commit_previous_digest (trusted_inner c) = last_commit_digest ds
    \<and> last_commit_timestamp_ms ds \<le> commit_timestamp (trusted_inner c)
    \<and> commit_leader (trusted_inner c) = reference l \<and> csd_leader sub = reference l
    \<and> commit_blocks (trusted_inner c) = map reference (csd_blocks sub)
    \<and> csd_commit_ref sub = commit_reference c
    \<and> distinct (map reference (csd_blocks sub))
    \<and> reference ` set (csd_blocks sub) = reach (parents ds) {r \<in> uncommitted ds. gc_round ds < br_round r} {reference l}
    \<and> uncommitted ds' = uncommitted ds - reference ` set (csd_blocks sub)"
proof -
  have "uncommitted (committed_state sub c rounds ds) = uncommitted ds - reference ` set (csd_blocks sub)"
    "last_commit (committed_state sub c rounds ds) = Some c" for sub c rounds
    unfolding uncommitted_mark [symmetric] by (simp_all add: committed_state_def uncommitted_def)
  moreover obtain sub c rounds where "handle_leader cr encode l (subs, ds) = Inr (subs @ [sub], committed_state sub c rounds ds)"
    "commit_idx (trusted_inner c) = last_commit_index ds + 1" "commit_previous_digest (trusted_inner c) = last_commit_digest ds"
    "last_commit_timestamp_ms ds \<le> commit_timestamp (trusted_inner c)" "commit_leader (trusted_inner c) = reference l"
    "csd_leader sub = reference l" "commit_blocks (trusted_inner c) = map reference (csd_blocks sub)"
    "csd_commit_ref sub = commit_reference c" "distinct (map reference (csd_blocks sub))"
    "reference ` set (csd_blocks sub) = reach (parents ds) {r \<in> uncommitted ds. gc_round ds < br_round r} {reference l}"
    using handle_leader_run [OF assms, of cr subs] by (elim exE conjE) (rule that)
  ultimately show ?thesis
    by (intro exI [of _ sub] exI [of _ c] exI [of _ "committed_state sub c rounds ds"]) blast
qed

subsection \<open>Agreement between nodes\<close>

text \<open>
  Two nodes agree on a set \<open>H\<close> of references that is closed under ancestors when they have committed
  the same sequence so far and hold, above the GC round, the same blocks of \<open>H\<close> with the same
  commit status, and the same genesis blocks. Outside of \<open>H\<close> their DAGs may differ in any way.
\<close>

definition agree_on :: "block_ref set \<Rightarrow> dag_state \<Rightarrow> dag_state \<Rightarrow> bool" where
  "agree_on H ds1 ds2 \<longleftrightarrow>
     ds_committee ds1 = ds_committee ds2 \<and> ds_config ds1 = ds_config ds2
     \<and> last_commit ds1 = last_commit ds2 \<and> last_committed_rounds ds1 = last_committed_rounds ds2
     \<and> traversable (gc_round ds1) ds1 \<and> traversable (gc_round ds1) ds2
     \<and> (\<forall>r \<in> H. gc_round ds1 < br_round r \<longrightarrow>
          (\<exists>b. cached_block ds1 r = Some b \<and> cached_block ds2 r = Some b \<and> set (vb_ancestors b) \<subseteq> H
             \<and> (r \<in> uncommitted ds1 \<longleftrightarrow> r \<in> uncommitted ds2)))
     \<and> (\<forall>r \<in> H. gc_round ds1 < br_round r \<or> br_round r = 0 \<longrightarrow> get_block ds1 r = get_block ds2 r)"

text \<open>The parents of a leader are above the GC round, or are genesis blocks.\<close>

definition parents_above_gc :: "dag_state \<Rightarrow> verified_block \<Rightarrow> bool" where
  "parents_above_gc ds leader \<longleftrightarrow> gc_round ds < vb_round leader
     \<and> (gc_round ds < vb_round leader - 1 \<or> vb_round leader = 1)"

lemma agree_on_mark: "agree_on H ds1 ds2 \<Longrightarrow> agree_on H (mark_committed S ds1) (mark_committed S ds2)"
  unfolding agree_on_def by simp blast

lemma agree_on_gc: "agree_on H ds1 ds2 \<Longrightarrow> gc_round ds2 = gc_round ds1"
  by (simp add: agree_on_def gc_round_def calculate_gc_round_def last_commit_round_def)

lemma linearize_loop_agree:
  assumes "agree_on H ds1 ds2" "gc = gc_round ds1" "on_stack ds1 buffer" "on_stack ds2 buffer"
    and "reference ` set buffer \<subseteq> {r \<in> H. gc < br_round r}"
  shows "\<exists>new S. linearize_loop gc buffer to_commit ds1 = Inr (new, mark_committed S ds1)
    \<and> linearize_loop gc buffer to_commit ds2 = Inr (new, mark_committed S ds2)"
  using assms
proof (induction "card (uncommitted ds1) + length buffer" arbitrary: ds1 ds2 buffer to_commit rule: less_induct)
  case less
  show ?case
  proof (cases buffer)
    case Nil
    then show ?thesis by (intro exI [of _ to_commit] exI [of _ "{}"]) simp
  next
    case (Cons x rest)
    have t: "traversable gc ds1" "traversable gc ds2" using less.prems(1,2) by (simp_all add: agree_on_def)
    have st: "on_stack ds1 (x # rest)" "on_stack ds2 (x # rest)" using less.prems(3,4) Cons by simp_all
    have same: "\<exists>b. cached_block ds1 r = Some b \<and> cached_block ds2 r = Some b \<and> set (vb_ancestors b) \<subseteq> H
        \<and> (r \<in> uncommitted ds1 \<longleftrightarrow> r \<in> uncommitted ds2)" if "r \<in> H" "gc < br_round r" for r
      using less.prems(1,2) that unfolding agree_on_def by blast
    have xH: "set (vb_ancestors x) \<subseteq> H"
      using same [of "reference x"] less.prems(5) st(1) Cons by (auto simp: on_stack_def)
    define refs where "refs = filter (\<lambda>r. gc < br_round r \<and> r \<in> uncommitted ds1) (vb_ancestors x)"
    define ancs where "ancs = map (\<lambda>r. the (cached_block ds1 r)) refs"
    have refs2: "filter (\<lambda>r. gc < br_round r \<and> r \<in> uncommitted ds2) (vb_ancestors x) = refs"
      unfolding refs_def by (rule filter_cong) (use same xH in blast)+
    have rH: "set refs \<subseteq> {r \<in> H. gc < br_round r}" using xH by (auto simp: refs_def)
    have ancs2: "map (\<lambda>r. the (cached_block ds2 r)) refs = ancs"
      unfolding ancs_def using rH same by (intro map_cong) force+
    note s1 = linearize_step [OF t(1) st(1), folded refs_def, folded ancs_def]
    note s2 = linearize_step [OF t(2) st(2), unfolded refs2, unfolded ancs2]
    let ?ds1 = "mark_committed (set refs) ds1" and ?ds2 = "mark_committed (set refs) ds2"
    have "cached_block ds1 (reference x) = Some x" using st(1) by (simp add: on_stack_def)
    then have "distinct (vb_ancestors x)" using t(1) unfolding traversable_def by blast
    then have "distinct refs" by (simp add: refs_def)
    moreover have "set refs \<subseteq> uncommitted ds1" by (auto simp: refs_def)
    ultimately have "card (uncommitted ds1 - set refs) + length refs = card (uncommitted ds1)"
      using card_mono [OF finite_uncommitted, of "set refs" ds1] by (simp add: card_Diff_subset distinct_card)
    then have card: "card (uncommitted ?ds1) + length (rev ancs @ rest) < card (uncommitted ds1) + length buffer"
      by (simp add: Cons ancs_def)
    have "reference ` set ancs = set refs" using s1(2) by (metis list.set_map)
    then have sub: "reference ` set (rev ancs @ rest) \<subseteq> {r \<in> H. gc < br_round r}"
      using rH less.prems(5) Cons by auto
    have gc: "gc = gc_round ?ds1" using less.prems(2) by simp
    obtain new S where IH: "linearize_loop gc (rev ancs @ rest) (to_commit @ [x]) ?ds1 = Inr (new, mark_committed S ?ds1)"
      "linearize_loop gc (rev ancs @ rest) (to_commit @ [x]) ?ds2 = Inr (new, mark_committed S ?ds2)"
      using less.hyps [OF card agree_on_mark [OF less.prems(1)] gc s1(3) s2(3) sub] by blast
    then show ?thesis
      using s1(1) s2(1) Cons by (intro exI [of _ new] exI [of _ "S \<union> set refs"]) (simp add: mark_mark)
  qed
qed

text \<open>Two runs give the same outcome: the same panic, or equal results and related states.\<close>

lemma rel_rbind:
  assumes "rel_sum A B x y" "\<And>a b. B a b \<Longrightarrow> rel_sum A C (f a) (g b)"
  shows "rel_sum A C (rbind x f) (rbind y g)"
  using assms(1) by (cases rule: rel_sum.cases) (auto intro: assms(2))

lemma rel_rbind_same:
  "(\<And>a. x = Inr a \<Longrightarrow> rel_sum (=) C (f a) (g a)) \<Longrightarrow> rel_sum (=) C (rbind x f) (rbind x g)"
  by (cases x) auto

lemma linearize_sub_dag_agree:
  assumes "agree_on H ds1 ds2" "reference leader \<in> H" "gc_round ds1 < vb_round leader"
    and "cached_block ds1 (reference leader) = Some leader"
  shows "rel_sum (=) (rel_prod (=) (\<lambda>d1 d2. \<exists>S. d1 = mark_committed S ds1 \<and> d2 = mark_committed S ds2))
    (linearize_sub_dag leader ds1) (linearize_sub_dag leader ds2)"
proof -
  let ?L = "reference leader"
  obtain b where "cached_block ds1 ?L = Some b" "cached_block ds2 ?L = Some b"
    "?L \<in> uncommitted ds1 \<longleftrightarrow> ?L \<in> uncommitted ds2"
    using assms(1-3) unfolding agree_on_def by force
  then have L: "cached_block ds2 ?L = Some leader" "?L \<in> uncommitted ds1 \<longleftrightarrow> ?L \<in> uncommitted ds2"
    using assms(4) by simp_all
  have gc: "gc_round ds2 = gc_round ds1" by (rule agree_on_gc [OF assms(1)])
  show ?thesis
  proof (cases "?L \<in> uncommitted ds1")
    case True
    let ?d1 = "mark_committed {?L} ds1" and ?d2 = "mark_committed {?L} ds2"
    have c: "commit_block ?L ds1 = Inr ?d1" "commit_block ?L ds2 = Inr ?d2"
      using True L(2) by (simp_all add: commit_block_mark)
    have st: "on_stack ?d1 [leader]" "on_stack ?d2 [leader]" using assms(4) L(1) by (simp_all add: on_stack_def)
    obtain new S where new: "linearize_loop (gc_round ds1) [leader] [] ?d1 = Inr (new, mark_committed S ?d1)"
      "linearize_loop (gc_round ds1) [leader] [] ?d2 = Inr (new, mark_committed S ?d2)"
    proof -
      have g: "gc_round ds1 = gc_round ?d1" by simp
      have sub: "reference ` set [leader] \<subseteq> {r \<in> H. gc_round ds1 < br_round r}" using assms(2,3) by simp
      from linearize_loop_agree [OF agree_on_mark [OF assms(1), of "{?L}"] g st sub, of "[]"] show thesis
        by (elim exE conjE) (rule that)
    qed
    show ?thesis
      unfolding linearize_sub_dag_def Let_def gc c rbind_simps new
      by (auto simp: rassert_def mark_mark)
  next
    case False
    have "commit_block ?L ds = Inl BlockCommittedTwice"
      if "cached_block ds ?L = Some leader" "?L \<notin> uncommitted ds" for ds
      using that by (auto simp: commit_block_def set_committed_def cached_block_def uncommitted_def)
    then show ?thesis using False L assms(4) by (simp add: linearize_sub_dag_def)
  qed
qed

lemma commit_timestamp_agree:
  assumes "agree_on H ds1 ds2" "reference leader \<in> H" "parents_above_gc ds1 leader"
    and "cached_block ds1 (reference leader) = Some leader"
  shows "calculate_commit_timestamp (mark_committed S ds1) leader ts = calculate_commit_timestamp (mark_committed S ds2) leader ts"
proof -
  have H: "set (vb_ancestors leader) \<subseteq> H" using assms unfolding agree_on_def parents_above_gc_def by force
  have "get_block ds1 r = get_block ds2 r" if "r \<in> set (vb_ancestors leader)" "br_round r = vb_round leader - 1" for r
    using that H assms(1,3) unfolding agree_on_def parents_above_gc_def by auto
  then have "get_blocks (mark_committed S ds1) (filter (\<lambda>r. br_round r = vb_round leader - 1) (vb_ancestors leader))
      = get_blocks (mark_committed S ds2) (filter (\<lambda>r. br_round r = vb_round leader - 1) (vb_ancestors leader))"
    by (simp add: get_blocks_map)
  moreover have "ds_committee ds1 = ds_committee ds2" using assms(1) by (simp add: agree_on_def)
  ultimately show ?thesis using assms(3) by (simp add: calculate_commit_timestamp_def parents_above_gc_def)
qed

lemma collect_agree:
  assumes "agree_on H ds1 ds2" "reference leader \<in> H" "parents_above_gc ds1 leader"
    and "cached_block ds1 (reference leader) = Some leader"
  shows "rel_sum (=) (rel_prod (\<lambda>(s1, c1) (s2, c2). s1 = s2 \<and> c1 = c2 \<and> commit_leader (trusted_inner c1) = reference leader)
      (\<lambda>d1 d2. \<exists>S. d1 = mark_committed S ds1 \<and> d2 = mark_committed S ds2))
    (collect_sub_dag_and_commit cr encode leader ds1) (collect_sub_dag_and_commit cr encode leader ds2)"
proof -
  have lc: "last_commit_index ds2 = last_commit_index ds1" "last_commit_digest ds2 = last_commit_digest ds1"
    "last_commit_timestamp_ms ds2 = last_commit_timestamp_ms ds1"
    using assms(1) by (simp_all add: agree_on_def last_commit_index_def last_commit_digest_def last_commit_timestamp_ms_def)
  have gc: "gc_round ds1 < vb_round leader" using assms(3) by (simp add: parents_above_gc_def)
  show ?thesis
    unfolding collect_sub_dag_and_commit_def Let_def lc
  proof (rule rel_rbind [OF linearize_sub_dag_agree [OF assms(1,2) gc assms(4)]], goal_cases)
    case (1 a b)
    then obtain bs S where ab: "a = (bs, mark_committed S ds1)" "b = (bs, mark_committed S ds2)"
      by (cases a; cases b) auto
    show ?case
      unfolding ab split commit_timestamp_agree [OF assms]
      by (intro rel_rbind_same) (auto simp: new_trusted_def)
  qed
qed

lemma pruned_metric_agree:
  assumes "agree_on H ds1 ds2"
  shows "update_blocks_pruned_metric (mark_committed S ds1) sub = update_blocks_pruned_metric (mark_committed S ds2) sub"
proof -
  have "check_pruned_ancestor (mark_committed S ds1) = check_pruned_ancestor (mark_committed S ds2)"
    using assms agree_on_gc [OF assms]
    by (intro ext) (simp only: check_pruned_ancestor_def mark_committed_fields agree_on_def)
  then show ?thesis by (simp add: update_blocks_pruned_metric_def)
qed

lemma traversable_mono: "traversable gc ds \<Longrightarrow> gc \<le> gc' \<Longrightarrow> traversable gc' ds"
  unfolding traversable_def by (meson le_less_trans)

lemma agree_on_commit:
  assumes "agree_on H ds1 ds2" "last_commit_round ds1 \<le> br_round (commit_leader (trusted_inner c))"
  shows "agree_on H (ds1\<lparr>last_commit := Some c, last_committed_rounds := rs, pending_commit_votes := p1, commits_to_write := w1\<rparr>)
    (ds2\<lparr>last_commit := Some c, last_committed_rounds := rs, pending_commit_votes := p2, commits_to_write := w2\<rparr>)"
    (is "agree_on H ?d1 ?d2")
proof -
  have gc: "gc_round ?d1 \<ge> gc_round ds1"
    using assms(2) by (simp add: gc_round_def calculate_gc_round_def last_commit_round_def)
  have same: "cached_block ?d1 = cached_block ds1" "cached_block ?d2 = cached_block ds2"
    "uncommitted ?d1 = uncommitted ds1" "uncommitted ?d2 = uncommitted ds2"
    by (auto simp: cached_block_def uncommitted_def)
  then have gb: "get_block ?d1 = get_block ds1" "get_block ?d2 = get_block ds2"
    by (auto simp: fun_eq_iff get_block_eq cong: option.case_cong)
  have tr: "traversable (gc_round ?d1) ds1" "traversable (gc_round ?d1) ds2"
    using assms(1) traversable_mono [OF _ gc] by (simp_all add: agree_on_def)
  have tr': "traversable (gc_round ?d1) ?d1" "traversable (gc_round ?d1) ?d2"
    using tr unfolding traversable_def same by blast+
  show ?thesis
    unfolding agree_on_def same gb
    using assms(1) gc tr' unfolding agree_on_def by (auto dest: le_less_trans order_trans)
qed

lemma add_commit_agree:
  assumes "agree_on H ds1 ds2" "last_commit_round ds1 \<le> br_round (commit_leader (trusted_inner c))"
  shows "rel_sum (=) (\<lambda>d1 d2. agree_on H d1 d2 \<and> cached_block d1 = cached_block ds1 \<and> ds_config d1 = ds_config ds1
      \<and> last_commit_round d1 \<le> br_round (commit_leader (trusted_inner c)))
    (add_commit c ds1) (add_commit c ds2)"
proof -
  have eq: "last_commit ds2 = last_commit ds1" "last_committed_rounds ds2 = last_committed_rounds ds1"
    "ds_committee ds2 = ds_committee ds1"
    using assms(1) by (simp_all add: agree_on_def)
  have rc: "rel_sum (=) (\<lambda>d1 d2. agree_on H d1 d2 \<and> cached_block d1 = cached_block ds1 \<and> ds_config d1 = ds_config ds1
      \<and> last_commit_round d1 \<le> br_round (commit_leader (trusted_inner c)))
    (record_commit c ds1) (record_commit c ds2)"
    unfolding record_commit_def eq
    by (intro rel_rbind_same) (simp add: agree_on_commit [OF assms] cached_block_def fun_eq_iff last_commit_round_def)
  show ?thesis
    unfolding add_commit_def Let_def eq
    using rc assms by (auto split: option.splits intro!: rel_rbind_same)
qed

lemma last_commit_round_mark [simp]: "last_commit_round (mark_committed S ds) = last_commit_round ds"
  by (simp add: last_commit_round_def)

lemma handle_leader_agree:
  assumes "agree_on H ds1 ds2" "reference leader \<in> H" "parents_above_gc ds1 leader"
    and "cached_block ds1 (reference leader) = Some leader" "last_commit_round ds1 \<le> vb_round leader"
  shows "rel_sum (=) (rel_prod (=) (\<lambda>d1 d2. agree_on H d1 d2 \<and> cached_block d1 = cached_block ds1
      \<and> ds_config d1 = ds_config ds1 \<and> last_commit_round d1 \<le> vb_round leader))
    (handle_leader cr encode leader (subs, ds1)) (handle_leader cr encode leader (subs, ds2))"
  unfolding handle_leader_def split
proof (rule rel_rbind [OF collect_agree [OF assms(1-4), of cr encode]], goal_cases)
  case (1 a b)
  then obtain sub c S where ab: "a = ((sub, c), mark_committed S ds1)" "b = ((sub, c), mark_committed S ds2)"
    "commit_leader (trusted_inner c) = reference leader"
    by (cases a; cases b) auto
  have "last_commit_round (mark_committed S ds1) \<le> br_round (commit_leader (trusted_inner c))"
    using assms(5) ab(3) by simp
  from add_commit_agree [OF agree_on_mark [OF assms(1), of S] this] show ?case
    unfolding ab split pruned_metric_agree [OF assms(1)]
    by (intro rel_rbind_same, elim rel_rbind) (simp add: ab(3))
qed

text \<open>
  C6. Two nodes that agree on the causal history of a sequence of leaders produce the same sequence
  of commits and sub-dags from it, block for block and in the same order, or panic alike; afterwards
  they agree again. The leaders come in the order of their rounds.
\<close>

theorem handle_commit_agree:
  assumes "agree_on H ds1 ds2" "\<forall>l \<in> set leaders. reference l \<in> H \<and> 0 < vb_round l
      \<and> last_commit_round ds1 \<le> vb_round l \<and> cached_block ds1 (reference l) = Some l"
    and "sorted (map vb_round leaders)" "1 < gc_depth (ds_config ds1)"
  shows "rel_sum (=) (rel_prod (=) (agree_on H)) (handle_commit cr encode leaders ds1) (handle_commit cr encode leaders ds2)"
proof -
  have "rel_sum (=) (rel_prod (=) (agree_on H)) (rfold (handle_leader cr encode) leaders (subs, ds1))
      (rfold (handle_leader cr encode) leaders (subs, ds2))" for subs
    using assms
  proof (induction leaders arbitrary: ds1 ds2 subs)
    case (Cons l leaders)
    have gc: "parents_above_gc ds1 l"
      using Cons.prems(2,4) by (auto simp: parents_above_gc_def gc_round_def calculate_gc_round_def)
    show ?case
      unfolding rfold.simps
    proof (rule rel_rbind [OF handle_leader_agree [OF Cons.prems(1) _ gc, of cr encode subs]], goal_cases)
      case (4 a b)
      then obtain subs' d1 d2 where ab: "a = (subs', d1)" "b = (subs', d2)" "agree_on H d1 d2"
        "cached_block d1 = cached_block ds1" "ds_config d1 = ds_config ds1" "last_commit_round d1 \<le> vb_round l"
        by (cases a; cases b) auto
      show ?case
        unfolding ab(1,2) by (rule Cons.IH [OF ab(3)]) (use Cons.prems(2-4) ab(4-6) in auto)
    qed (use Cons.prems in auto)
  qed simp
  then show ?thesis by (simp add: handle_commit_def)
qed

subsection \<open>Witnesses\<close>

abbreviation demo_r1 :: block_ref where "demo_r1 \<equiv> BlockRef 1 1 5"

lemma demo_dag1_facts:
  "cached_block demo_dag1 = [demo_r1 \<mapsto> demo_b1]" "uncommitted demo_dag1 = {demo_r1}"
  "get_block demo_dag1 (BlockRef 0 0 0) = Some (demo_vb 0 0 0 0 [])"
  "get_block demo_dag1 (BlockRef 0 (Suc 0) 0) = Some (demo_vb 0 1 0 0 [])"
  "get_block demo_dag1 (BlockRef 0 2 0) = Some (demo_vb 0 2 0 0 [])"
  "ds_context demo_dag1 = demo_context" "last_commit demo_dag1 = None"
  "last_committed_rounds demo_dag1 = replicate 4 0"
proof -
  show c: "cached_block demo_dag1 = [demo_r1 \<mapsto> demo_b1]"
    by (auto simp: cached_block_def demo_dag1_simps block_info_new_def)
  show "uncommitted demo_dag1 = {demo_r1}"
    by (auto simp: uncommitted_def demo_dag1_simps block_info_new_def split: if_splits)
  have "genesis demo_dag1 = genesis demo_dag" by (simp add: demo_dag1_def)
  then show "get_block demo_dag1 (BlockRef 0 0 0) = Some (demo_vb 0 0 0 0 [])"
    "get_block demo_dag1 (BlockRef 0 (Suc 0) 0) = Some (demo_vb 0 1 0 0 [])"
    "get_block demo_dag1 (BlockRef 0 2 0) = Some (demo_vb 0 2 0 0 [])"
    by (simp_all add: get_block_eq demo_dag_def)
qed (simp_all add: demo_dag1_def insert_cached_def, simp add: demo_dag_def)

lemma demo_dag1_traversable: "traversable 0 demo_dag1"
  by (simp add: traversable_def demo_dag1_facts)

theorem median_between_correct_witness:
  "\<exists>b1 \<in> set [demo_vb 1 0 0 7 [], demo_vb 1 1 0 9 [], demo_vb 1 2 0 100 []].
   \<exists>b2 \<in> set [demo_vb 1 0 0 7 [], demo_vb 1 1 0 9 [], demo_vb 1 2 0 100 []].
     vb_author b1 \<notin> {2} \<and> vb_author b2 \<notin> {2} \<and> vb_timestamp b1 \<le> 9 \<and> 9 \<le> vb_timestamp b2"
proof (rule median_between_correct [OF demo_committee_wf])
  have "committee_authority demo_committee a = Inr (demo_authority 1)" if "a \<in> {0, 1, 2}" for a
    using that by (auto simp: committee_authority_def demo_committee_def)
  then show "median_timestamp_by_stake demo_committee [demo_vb 1 0 0 7 [], demo_vb 1 1 0 9 [], demo_vb 1 2 0 100 []]
      = Inr (Inr 9)"
    by (simp add: median_timestamp_by_stake_def collect_timestamp_def demo_thresholds wrap64_def
      median_timestamps_by_stake_inner_def demo_authority_def)
qed (auto simp: demo_stk demo_thresholds)

theorem linearize_sub_dag_correct_witness:
  "\<exists>bs. linearize_sub_dag demo_b1 demo_dag1 = Inr (bs, mark_committed (reference ` set bs) demo_dag1)
     \<and> distinct (map reference bs) \<and> demo_r1 \<in> reference ` set bs"
proof -
  have "demo_r1 \<in> reach (parents demo_dag1) {r \<in> uncommitted demo_dag1. gc_round demo_dag1 < br_round r} {reference demo_b1}"
    by (rule reach_start) (simp_all add: demo_dag1_facts demo_dag1_simps)
  then show ?thesis
    using linearize_sub_dag_correct [of demo_dag1 demo_b1] demo_dag1_traversable
    by (simp add: demo_dag1_facts demo_dag1_simps) metis
qed

lemma demo_committable: "committable demo_dag1 demo_b1"
  by (auto simp: committable_def demo_dag1_facts demo_dag1_simps demo_thresholds demo_stk)

theorem handle_leader_correct_witness:
  "\<exists>sub c ds'. handle_leader demo_crypto (\<lambda>_. Some []) demo_b1 ([], demo_dag1) = Inr ([sub], ds')
     \<and> last_commit ds' = Some c \<and> commit_idx (trusted_inner c) = 1"
proof -
  have "authors_valid demo_dag1" by (simp add: authors_valid_def demo_dag1_facts)
  then have "\<exists>sub c ds'. handle_leader demo_crypto (\<lambda>_. Some []) demo_b1 ([], demo_dag1) = Inr ([] @ [sub], ds')
     \<and> last_commit ds' = Some c \<and> commit_idx (trusted_inner c) = last_commit_index demo_dag1 + 1"
    using handle_leader_correct [of demo_dag1 demo_b1 "\<lambda>_. Some []" demo_crypto "[]"]
      demo_dag1_traversable demo_committable demo_committee_wf
    by (simp add: demo_dag1_facts demo_dag1_simps demo_size last_commit_index_def u32_max_def) blast
  then show ?thesis by (simp add: last_commit_index_def demo_dag1_facts)
qed

definition demo_dag2 :: dag_state where
  "demo_dag2 = insert_cached (demo_vb 1 2 9 11 [BlockRef 0 2 0, BlockRef 0 1 0, BlockRef 0 3 0]) demo_dag1"

abbreviation demo_history :: "block_ref set" where
  "demo_history \<equiv> {demo_r1, BlockRef 0 0 0, BlockRef 0 1 0, BlockRef 0 2 0}"

lemma demo_agree: "agree_on demo_history demo_dag1 demo_dag2"
proof -
  let ?b = "demo_vb 1 2 9 11 [BlockRef 0 2 0, BlockRef 0 1 0, BlockRef 0 3 0]"
  have c: "cached_block demo_dag2 = [demo_r1 \<mapsto> demo_b1, BlockRef 1 2 9 \<mapsto> ?b]"
    by (simp add: demo_dag2_def demo_dag1_facts)
  have f: "ds_context demo_dag2 = demo_context" "last_commit demo_dag2 = None"
    "last_committed_rounds demo_dag2 = replicate 4 0" "genesis demo_dag2 = genesis demo_dag1"
    by (simp_all add: demo_dag2_def demo_dag1_facts) (simp_all add: insert_cached_def demo_dag1_facts)
  have u: "demo_r1 \<in> uncommitted demo_dag2"
    by (simp add: demo_dag2_def insert_cached_def uncommitted_def demo_dag1_simps block_info_new_def)
  have t: "traversable 0 demo_dag2" by (simp add: traversable_def c)
  have "get_block demo_dag1 r = get_block demo_dag2 r" if "r \<in> demo_history" for r
    using that by (auto simp: get_block_eq f c demo_dag1_facts)
  then show ?thesis
    using t u demo_dag1_traversable by (simp add: agree_on_def demo_dag1_facts demo_dag1_simps f c)
qed

theorem handle_commit_agree_witness:
  "rel_sum (=) (rel_prod (=) (agree_on demo_history))
     (handle_commit demo_crypto (\<lambda>_. Some []) [demo_b1] demo_dag1)
     (handle_commit demo_crypto (\<lambda>_. Some []) [demo_b1] demo_dag2)"
  by (rule handle_commit_agree [OF demo_agree])
    (simp_all add: demo_dag1_facts last_commit_round_def protocol_config_for_testing_def)

end
