(* ===== verification/Leader_Schedule.thy ===== *)
theory Leader_Schedule
  imports Dag_State
begin

section \<open>The leader schedule\<close>

text \<open>
  Models \<open>consensus/core/src/leader_schedule.rs\<close>: the table that swaps leaders with bad scores for
  leaders with good scores, its update at the end of a schedule, its recovery from storage, and the
  election of a leader by stake. The pseudo-random choices of the \<open>rand\<close> crate are the parameter
  \<open>rng\<close>: one function for each call, given the number that the code writes into the seed.
\<close>

subsection \<open>Random choices\<close>

record rng =
  choose_multiple_weighted ::
    "nat \<Rightarrow> (authority_index \<times> stake) list \<Rightarrow> nat \<Rightarrow> (authority_index \<times> stake) list option"
  shuffle_scores :: "nat \<Rightarrow> (authority_index \<times> nat) list \<Rightarrow> (authority_index \<times> nat) list"
  choose_node :: "nat \<Rightarrow> nat \<Rightarrow> (authority_index \<times> string \<times> stake) list
    \<Rightarrow> (authority_index \<times> string \<times> stake) option"
  shuffle_leaders :: "nat \<Rightarrow> authority_index list \<Rightarrow> authority_index list"

text \<open>
  What the crate documents: choosing as many elements as there are, without replacement, gives all
  of them in some order; \<open>shuffle\<close> permutes; \<open>choose\<close> returns an element of a non-empty slice and
  \<open>None\<close> for the empty one.
\<close>

definition rng_ok :: "rng \<Rightarrow> bool" where
  "rng_ok g \<longleftrightarrow>
     (\<forall>seed xs. \<exists>ys. choose_multiple_weighted g seed xs (length xs) = Some ys \<and> mset ys = mset xs)
     \<and> (\<forall>seed xs. mset (shuffle_scores g seed xs) = mset xs)
     \<and> (\<forall>r i xs. choose_node g r i xs = None \<longleftrightarrow> xs = [])
     \<and> (\<forall>r i xs x. choose_node g r i xs = Some x \<longrightarrow> x \<in> set xs)
     \<and> (\<forall>seed xs. mset (shuffle_leaders g seed xs) = mset xs)"

subsection \<open>The swap table\<close>

record leader_swap_table =
  good_nodes :: "(authority_index \<times> string \<times> stake) list"
  bad_nodes :: "(authority_index, string \<times> stake) fmap"
  table_scores :: reputation_scores

definition reputation_scores_default :: reputation_scores where
  "reputation_scores_default = \<lparr>scores_per_authority = [], scores_commit_range = CommitRange 0 0\<rparr>"

definition swap_table_default :: leader_swap_table where
  "swap_table_default =
     \<lparr>good_nodes = [], bad_nodes = fmempty, table_scores = reputation_scores_default\<rparr>"

text \<open>The loop of \<open>retrieve_first_nodes\<close>, with the stake accumulated so far.\<close>

primrec retrieve_nodes ::
  "committee \<Rightarrow> nat \<Rightarrow> stake \<Rightarrow> (authority_index \<times> nat) list
     \<Rightarrow> panic + (authority_index \<times> string \<times> stake) list" where
  "retrieve_nodes c stake_threshold acc [] = Inr []"
| "retrieve_nodes c stake_threshold acc (x # xs) =
     rbind (committee_stake c (fst x)) (\<lambda>s.
     let acc = wrap64 (acc + s) in
     if acc > wrap64 (stake_threshold * total_stake c) div 100 then Inr []
     else rbind (committee_authority c (fst x)) (\<lambda>a.
          rbind (retrieve_nodes c stake_threshold acc xs) (\<lambda>rest.
          Inr ((fst x, hostname a, a_stake a) # rest))))"

definition retrieve_first_nodes ::
  "committee \<Rightarrow> (authority_index \<times> nat) list \<Rightarrow> nat \<Rightarrow> panic + (authority_index \<times> string \<times> stake) list" where
  "retrieve_first_nodes c xs stake_threshold = retrieve_nodes c stake_threshold 0 xs"

definition swap_table_new_inner ::
  "rng \<Rightarrow> node_context \<Rightarrow> nat \<Rightarrow> commit_index \<Rightarrow> reputation_scores \<Rightarrow> panic + leader_swap_table" where
  "swap_table_new_inner g ctx swap_stake_threshold i scores =
     rbind (rassert (swap_stake_threshold \<le> 33) SwapThresholdTooHigh) (\<lambda>_.
     if scores_per_authority scores = [] then Inr swap_table_default
     else
       rbind (authorities_by_score (ctx_committee ctx) scores) (\<lambda>by_score.
       rbind (rassert (length by_score = committee_size (ctx_committee ctx)) UnexpectedState) (\<lambda>_.
       let sorted = sort_key (\<lambda>a. - int (snd a)) (shuffle_scores g i by_score) in
       rbind (retrieve_first_nodes (ctx_committee ctx) sorted swap_stake_threshold) (\<lambda>good.
       rbind (retrieve_first_nodes (ctx_committee ctx) (rev sorted) swap_stake_threshold) (\<lambda>bad.
       Inr \<lparr>good_nodes = good, bad_nodes = fmap_of_list (rev bad), table_scores = scores\<rparr>)))))"

definition swap_table_new ::
  "rng \<Rightarrow> node_context \<Rightarrow> commit_index \<Rightarrow> reputation_scores \<Rightarrow> panic + leader_swap_table" where
  "swap_table_new g ctx i scores =
     swap_table_new_inner g ctx (bad_nodes_stake_threshold (ctx_protocol_config ctx)) i scores"

definition swap_leader ::
  "rng \<Rightarrow> leader_swap_table \<Rightarrow> authority_index \<Rightarrow> round_number \<Rightarrow> nat \<Rightarrow> panic + authority_index option" where
  "swap_leader g t leader leader_round leader_offset =
    (if fmlookup (bad_nodes t) leader \<noteq> None
     then rbind (rassert (leader_offset = 0) MultiLeaderSwap) (\<lambda>_.
          rbind (rexpect NoGoodNodes (choose_node g leader_round leader_offset (good_nodes t))) (\<lambda>(i, _, _).
          Inr (Some i)))
     else Inr None)"

subsection \<open>The schedule\<close>

record leader_schedule =
  leader_table :: leader_swap_table
  schedule_context :: node_context
  num_commits_per_schedule :: nat

definition consensus_commits_per_schedule :: nat where
  "consensus_commits_per_schedule = 300"

definition leader_schedule_new :: "node_context \<Rightarrow> leader_swap_table \<Rightarrow> leader_schedule" where
  "leader_schedule_new ctx t = \<lparr>leader_table = t, schedule_context = ctx,
     num_commits_per_schedule = consensus_commits_per_schedule\<rparr>"

definition recover_last_commit_info :: "dag_state \<Rightarrow> (commit_ref \<times> commit_info) option" where
  "recover_last_commit_info ds = read_last_commit_info (ds_store ds)"

definition leader_schedule_from_store :: "rng \<Rightarrow> node_context \<Rightarrow> dag_state \<Rightarrow> panic + leader_schedule" where
  "leader_schedule_from_store g ctx ds =
     rbind (case recover_last_commit_info ds of
              None \<Rightarrow> Inr swap_table_default
            | Some (r, info) \<Rightarrow> swap_table_new g ctx (cr_index r) (info_scores info)) (\<lambda>t.
     rbind (scoring_subdags_count ds) (\<lambda>_.
     Inr (leader_schedule_new ctx t)))"

definition commits_until_leader_schedule_update :: "leader_schedule \<Rightarrow> dag_state \<Rightarrow> panic + nat" where
  "commits_until_leader_schedule_update sch ds =
     rbind (scoring_subdags_count ds) (\<lambda>n.
     rbind (rassert (n \<le> num_commits_per_schedule sch) TooManyUnscoredCommits) (\<lambda>_.
     rexpect UnexpectedState (checked_sub64 (num_commits_per_schedule sch) n)))"

definition update_leader_swap_table :: "leader_swap_table \<Rightarrow> leader_schedule \<Rightarrow> panic + leader_schedule" where
  "update_leader_swap_table t sch =
    (let old_range = scores_commit_range (table_scores (leader_table sch));
         new_range = scores_commit_range (table_scores t)
     in
     rbind (if old_range \<noteq> CommitRange 0 0
            then (if is_next_range old_range new_range
                  then rbind (is_equal_size old_range new_range) (\<lambda>eq. rassert eq SwapTableGap)
                  else Inl SwapTableGap)
            else Inr ()) (\<lambda>_.
     Inr (sch\<lparr>leader_table := t\<rparr>)))"

definition update_leader_schedule_v2 ::
  "rng \<Rightarrow> leader_schedule \<Rightarrow> dag_state \<Rightarrow> panic + leader_schedule \<times> dag_state" where
  "update_leader_schedule_v2 g sch ds =
     rbind (calculate_scoring_subdag_scores ds) (\<lambda>scores.
     rbind (scoring_subdag_commit_range ds) (\<lambda>last_commit_idx.
     rbind (add_commit_info scores (clear_scoring_subdag ds)) (\<lambda>ds.
     rbind (swap_table_new g (schedule_context sch) last_commit_idx scores) (\<lambda>t.
     rbind (update_leader_swap_table t sch) (\<lambda>sch.
     rbind (rmap (\<lambda>i. rexpect InvalidScoreIndex
              (to_authority_index (ctx_committee (schedule_context sch)) i))
              [0..<length (scores_per_authority scores)]) (\<lambda>_.
     Inr (sch, ds)))))))"

definition elect_leader_stake_based ::
  "rng \<Rightarrow> leader_schedule \<Rightarrow> round_number \<Rightarrow> nat \<Rightarrow> panic + authority_index" where
  "elect_leader_stake_based g sch r offset =
    (let c = ctx_committee (schedule_context sch) in
     rbind (rassert (offset < committee_size c) LeaderOffsetTooLarge) (\<lambda>_.
     let choices = map (\<lambda>(i, a). (i, a_stake a)) (indexed_authorities c) in
     rbind (rexpect LeaderChoiceFailed (choose_multiple_weighted g r choices (committee_size c))) (\<lambda>order.
     case drop offset (map fst order) of
       leader # _ \<Rightarrow> Inr leader
     | [] \<Rightarrow> Inl LeaderChoiceFailed)))"

definition elect_leader ::
  "rng \<Rightarrow> leader_schedule \<Rightarrow> round_number \<Rightarrow> nat \<Rightarrow> panic + authority_index" where
  "elect_leader g sch r leader_offset =
     rbind (elect_leader_stake_based g sch r leader_offset) (\<lambda>leader.
     rbind (swap_leader g (leader_table sch) leader r leader_offset) (\<lambda>swapped.
     Inr (case swapped of Some l \<Rightarrow> l | None \<Rightarrow> leader)))"

end
