(* ===== verification/Leader_Schedule_Correct.thy ===== *)
theory Leader_Schedule_Correct
  imports Leader_Schedule Dag_Correct
begin

section \<open>Properties of the leader schedule\<close>

text \<open>
  The nodes retrieved for a swap table are the longest prefix of the ranking within the budget of
  stake; from this follow the properties of the table, of the election, and the recovery of an
  updated schedule from storage.
\<close>

subsection \<open>Retrieving nodes up to a budget of stake\<close>

definition node_of :: "committee \<Rightarrow> authority_index \<Rightarrow> authority_index \<times> string \<times> stake" where
  "node_of c i = (i, hostname (authorities c ! i), stk c i)"

lemma node_of_authority:
  "is_valid_index c i \<Longrightarrow> committee_authority c i = Inr a \<Longrightarrow> (i, hostname a, a_stake a) = node_of c i"
  by (auto simp: node_of_def committee_authority_def stk_def is_valid_index_def committee_size_def
    split: if_splits)

text \<open>The nodes retrieved are the longest prefix whose stake stays within the budget.\<close>

lemma retrieve_nodes_prefix:
  fixes t :: nat
  assumes "committee_base c" "\<forall>x \<in> set xs. is_valid_index c (fst x)"
    and "distinct (map fst xs)" "finite S" "S \<inter> fst ` set xs = {}"
  defines "budget \<equiv> wrap64 (t * total_stake c) div 100"
  shows "\<exists>k \<le> length xs. retrieve_nodes c t (weight c S) xs = Inr (map (node_of c \<circ> fst) (take k xs))
    \<and> (0 < k \<longrightarrow> weight c (S \<union> fst ` set (take k xs)) \<le> budget)
    \<and> (k < length xs \<longrightarrow> budget < weight c (S \<union> fst ` set (take (Suc k) xs)))"
  using assms(2-5)
proof (induction xs arbitrary: S)
  case Nil
  then show ?case by simp
next
  case (Cons x xs)
  let ?S = "insert (fst x) S"
  have x: "is_valid_index c (fst x)" "fst x \<notin> S" using Cons.prems by auto
  obtain a where a: "committee_authority c (fst x) = Inr a"
    using committee_authority_valid [OF x(1)] by auto
  have w: "wrap64 (weight c S + stk c (fst x)) = weight c ?S"
    using weight_no_wrap [OF assms(1), of ?S] Cons.prems(3) x(2) by (simp add: add.commute)
  show ?case
  proof (cases "weight c ?S > budget")
    case True
    then show ?thesis
      using x w by (intro exI [of _ 0]) (simp add: budget_def)
  next
    case False
    have "\<exists>k \<le> length xs. retrieve_nodes c t (weight c ?S) xs = Inr (map (node_of c \<circ> fst) (take k xs))
      \<and> (0 < k \<longrightarrow> weight c (?S \<union> fst ` set (take k xs)) \<le> budget)
      \<and> (k < length xs \<longrightarrow> budget < weight c (?S \<union> fst ` set (take (Suc k) xs)))"
      by (rule Cons.IH) (use Cons.prems in auto)
    then obtain k where k: "k \<le> length xs"
      "retrieve_nodes c t (weight c ?S) xs = Inr (map (node_of c \<circ> fst) (take k xs))"
      "0 < k \<longrightarrow> weight c (?S \<union> fst ` set (take k xs)) \<le> budget"
      "k < length xs \<longrightarrow> budget < weight c (?S \<union> fst ` set (take (Suc k) xs))"
      by blast
    have "weight c (?S \<union> fst ` set (take k xs)) \<le> budget"
      using k(3) False by (cases "k = 0") auto
    moreover have "retrieve_nodes c t (weight c S) (x # xs) = Inr (map (node_of c \<circ> fst) (take (Suc k) (x # xs)))"
      using False k(2) x w a node_of_authority [OF x(1) a] by (simp add: budget_def)
    ultimately show ?thesis using k(1,4) by (intro exI [of _ "Suc k"]) auto
  qed
qed

lemma retrieve_first_nodes_prefix:
  assumes "committee_base c" "\<forall>x \<in> set xs. is_valid_index c (fst x)" "distinct (map fst xs)"
  shows "\<exists>k \<le> length xs. retrieve_first_nodes c xs t = Inr (map (node_of c \<circ> fst) (take k xs))
    \<and> weight c (fst ` set (take k xs)) \<le> wrap64 (t * total_stake c) div 100
    \<and> (k < length xs \<longrightarrow> wrap64 (t * total_stake c) div 100 < weight c (fst ` set (take (Suc k) xs)))"
proof -
  obtain k where k: "k \<le> length xs" "retrieve_first_nodes c xs t = Inr (map (node_of c \<circ> fst) (take k xs))"
    "0 < k \<longrightarrow> weight c (fst ` set (take k xs)) \<le> wrap64 (t * total_stake c) div 100"
    "k < length xs \<longrightarrow> wrap64 (t * total_stake c) div 100 < weight c (fst ` set (take (Suc k) xs))"
    using retrieve_nodes_prefix [OF assms, of "{}" t] unfolding retrieve_first_nodes_def by auto
  moreover have "weight c (fst ` set (take k xs)) \<le> wrap64 (t * total_stake c) div 100"
    using k(3) by (cases "k = 0") auto
  ultimately show ?thesis by blast
qed

subsection \<open>Building the table\<close>

definition good_set :: "leader_swap_table \<Rightarrow> authority_index set" where
  "good_set t = fst ` set (good_nodes t)"

definition bad_set :: "leader_swap_table \<Rightarrow> authority_index set" where
  "bad_set t = fset (fmdom (bad_nodes t))"

lemma authorities_by_score_eq:
  assumes "length (scores_per_authority rs) = committee_size c"
  shows "authorities_by_score c rs = Inr (enumerate 0 (scores_per_authority rs))"
proof -
  have "authorities_by_score c rs = Inr (map (\<lambda>x. x) (enumerate 0 (scores_per_authority rs)))"
    unfolding authorities_by_score_def
    using assms by (intro rmap_total) (auto simp: in_set_enumerate_eq to_authority_index_def committee_size_def)
  then show ?thesis by simp
qed

text \<open>The order in which the table ranks the authorities.\<close>

definition ranking :: "rng \<Rightarrow> commit_index \<Rightarrow> reputation_scores \<Rightarrow> (authority_index \<times> nat) list" where
  "ranking g i rs = sort_key (\<lambda>a. - int (snd a)) (shuffle_scores g i (enumerate 0 (scores_per_authority rs)))"

lemma ranking_props:
  assumes "rng_ok g" "length (scores_per_authority rs) = committee_size c"
  shows "set (ranking g i rs) = {(a, scores_per_authority rs ! a) | a. is_valid_index c a}"
    and "distinct (map fst (ranking g i rs))"
    and "length (ranking g i rs) = committee_size c"
    and "sorted_wrt (\<lambda>x y. snd y \<le> snd x) (ranking g i rs)"
    and "fst ` set (ranking g i rs) = members c"
proof -
  let ?e = "enumerate 0 (scores_per_authority rs)"
  have m: "mset (ranking g i rs) = mset ?e"
    using assms(1) by (simp add: ranking_def rng_ok_def)
  show s: "set (ranking g i rs) = {(a, scores_per_authority rs ! a) | a. is_valid_index c a}"
    unfolding mset_eq_setD [OF m] using assms(2) by (auto simp: in_set_enumerate_eq is_valid_index_def)
  have "mset (map fst (ranking g i rs)) = mset (map fst ?e)" using m by (simp only: mset_map)
  then show "distinct (map fst (ranking g i rs))"
    by (metis distinct_upt map_fst_enumerate mset_eq_imp_distinct_iff)
  show "length (ranking g i rs) = committee_size c"
    using mset_eq_length [OF m] assms(2) by simp
  have "sorted (map (\<lambda>a. - int (snd a)) (ranking g i rs))"
    unfolding ranking_def by (rule sorted_sort_key)
  then show "sorted_wrt (\<lambda>x y. snd y \<le> snd x) (ranking g i rs)"
    by (simp add: sorted_wrt_map)
  show "fst ` set (ranking g i rs) = members c"
    unfolding s by force
qed

lemma ranking_order:
  assumes "rng_ok g" "length (scores_per_authority rs) = committee_size c"
  shows "distinct (map fst (ranking g i rs))" "set (map fst (ranking g i rs)) = members c"
    and "sorted_wrt (\<lambda>a b. scores_per_authority rs ! b \<le> scores_per_authority rs ! a) (map fst (ranking g i rs))"
    and "sorted_wrt (\<lambda>a b. scores_per_authority rs ! a \<le> scores_per_authority rs ! b)
           (rev (map fst (ranking g i rs)))"
proof -
  note r = ranking_props [OF assms, of i]
  show "distinct (map fst (ranking g i rs))" "set (map fst (ranking g i rs)) = members c" using r by auto
  have "snd x = scores_per_authority rs ! fst x" if "x \<in> set (ranking g i rs)" for x using that r(1) by auto
  with r(4) show "sorted_wrt (\<lambda>a b. scores_per_authority rs ! b \<le> scores_per_authority rs ! a)
      (map fst (ranking g i rs))"
    unfolding sorted_wrt_map by (elim sorted_wrt_mono_rel [rotated]) simp
  then show "sorted_wrt (\<lambda>a b. scores_per_authority rs ! a \<le> scores_per_authority rs ! b)
      (rev (map fst (ranking g i rs)))"
    unfolding sorted_wrt_rev .
qed

lemma head_of_sorted:
  assumes "sorted_wrt R xs" "x \<in> set xs" "\<And>y. y \<in> set xs \<Longrightarrow> y \<noteq> x \<Longrightarrow> \<not> R y x"
  shows "take 1 xs = [x]"
  using assms by (cases xs) auto


text \<open>A prefix and a suffix of the ranking that weigh at most a third each do not meet.\<close>

lemma prefix_suffix_disjoint:
  assumes "committee_base c" "distinct xs" "set xs = members c"
    and "3 * weight c (set (take k xs)) \<le> total_stake c" "3 * weight c (set (take l (rev xs))) \<le> total_stake c"
  shows "set (take k xs) \<inter> set (take l (rev xs)) = {}"
proof (cases "k + l \<le> length xs")
  case True
  have "set (take k xs) \<inter> set (drop (length xs - l) xs) = {}"
    using True assms(2) by (intro set_take_disj_set_drop_if_distinct) auto
  then show ?thesis by (simp add: take_rev)
next
  case False
  have "set xs \<subseteq> set (take k xs) \<union> set (drop (length xs - l) xs)"
  proof
    fix x assume "x \<in> set xs"
    then have "x \<in> set (take k xs) \<union> set (drop k xs)" by (metis append_take_drop_id set_append)
    moreover have "set (drop k xs) \<subseteq> set (drop (length xs - l) xs)"
      using False by (intro set_drop_subset_set_drop) auto
    ultimately show "x \<in> set (take k xs) \<union> set (drop (length xs - l) xs)" by auto
  qed
  then have "weight c (members c) \<le> weight c (set (take k xs) \<union> set (take l (rev xs)))"
    unfolding assms(3) [symmetric] by (intro weight_mono) (auto simp: take_rev)
  also have "\<dots> \<le> weight c (set (take k xs)) + weight c (set (take l (rev xs)))"
    by (simp add: sum_Un_nat)
  finally show ?thesis
    using assms(1,4,5) committee_base_total [OF assms(1)] by (auto simp: committee_base_def)
qed

lemma sorted_wrt_take_rest:
  assumes "sorted_wrt R xs" "x \<in> set (take k xs)" "y \<in> set xs" "y \<notin> set (take k xs)"
  shows "R x y"
proof -
  have "sorted_wrt R (take k xs @ drop k xs)" using assms(1) by simp
  then have "\<forall>x \<in> set (take k xs). \<forall>y \<in> set (drop k xs). R x y" unfolding sorted_wrt_append by blast
  moreover have "y \<in> set (drop k xs)" using assms(3,4) by (metis Un_iff append_take_drop_id set_append)
  ultimately show ?thesis using assms(2) by blast
qed

lemma swap_table_new_inner_eq:
  fixes t :: nat and i :: commit_index
  assumes "committee_base c" "rng_ok g" "t \<le> 33" "ctx_committee ctx = c"
    and "length (scores_per_authority rs) = committee_size c"
  defines "budget \<equiv> wrap64 (t * total_stake c) div 100" and "order \<equiv> map fst (ranking g i rs)"
  shows "\<exists>k l table. swap_table_new_inner g ctx t i rs = Inr table \<and> table_scores table = rs
    \<and> good_nodes table = map (node_of c) (take k order)
    \<and> bad_nodes table = fmap_of_list (map (node_of c) (rev (take l (rev order))))
    \<and> weight c (set (take k order)) \<le> budget \<and> weight c (set (take l (rev order))) \<le> budget
    \<and> (k < committee_size c \<longrightarrow> budget < weight c (set (take (Suc k) order)))
    \<and> (l < committee_size c \<longrightarrow> budget < weight c (set (take (Suc l) (rev order))))"
proof -
  note r = ranking_props [OF assms(2,5), of i]
  let ?r = "ranking g i rs"
  have valid: "\<forall>x \<in> set ?r. is_valid_index c (fst x)" using r(1) by auto
  obtain k where k: "retrieve_first_nodes c ?r t = Inr (map (node_of c \<circ> fst) (take k ?r))"
    "weight c (fst ` set (take k ?r)) \<le> budget"
    "k < length ?r \<longrightarrow> budget < weight c (fst ` set (take (Suc k) ?r))"
    using retrieve_first_nodes_prefix [OF assms(1) valid r(2), of t] unfolding budget_def by blast
  obtain l where l: "retrieve_first_nodes c (rev ?r) t = Inr (map (node_of c \<circ> fst) (take l (rev ?r)))"
    "weight c (fst ` set (take l (rev ?r))) \<le> budget"
    "l < length ?r \<longrightarrow> budget < weight c (fst ` set (take (Suc l) (rev ?r)))"
    using retrieve_first_nodes_prefix [OF assms(1), of "rev ?r" t] valid r(2) unfolding budget_def
    by (auto simp: rev_map [symmetric])
  have ne: "scores_per_authority rs \<noteq> []"
    using assms(1,5) by (auto simp: committee_base_def committee_size_def)
  have "swap_table_new_inner g ctx t i rs = Inr \<lparr>good_nodes = map (node_of c \<circ> fst) (take k ?r),
      bad_nodes = fmap_of_list (rev (map (node_of c \<circ> fst) (take l (rev ?r)))), table_scores = rs\<rparr>"
    using assms(3-5) ne k(1) l(1) authorities_by_score_eq [OF assms(5)]
    by (simp add: swap_table_new_inner_def ranking_def Let_def)
  moreover have "fst ` set (take n ?r) = set (take n order)" "fst ` set (take n (rev ?r)) = set (take n (rev order))" for n
    by (simp_all add: order_def take_map rev_map)
  moreover have "map (node_of c \<circ> fst) (take k ?r) = map (node_of c) (take k order)"
    "rev (map (node_of c \<circ> fst) (take l (rev ?r))) = map (node_of c) (rev (take l (rev order)))"
    by (simp_all add: order_def take_map rev_map)
  ultimately show ?thesis
    using k(2,3) l(2,3) r(3) by (metis (no_types, lifting) leader_swap_table.select_convs)
qed

lemma budget_bound:
  assumes "t \<le> 33" "w \<le> wrap64 (t * n) div 100"
  shows "100 * w \<le> t * n" "3 * w \<le> n"
proof -
  have "wrap64 (t * n) \<le> t * n" by (simp add: wrap64_def)
  with assms(2) show 1: "100 * w \<le> t * n" by linarith
  have "t * n \<le> 33 * n" using assms(1) by simp
  with 1 show "3 * w \<le> n" by linarith
qed

lemma swap_table_sets:
  assumes "good_nodes t = map (node_of c) gs" "bad_nodes t = fmap_of_list (map (node_of c) bs)"
  shows "good_set t = set gs" "bad_set t = set bs"
  using assms by (auto simp: good_set_def bad_set_def node_of_def fmdom_fmap_of_list image_image fset_of_list.rep_eq)

text \<open>
  C18. Building a swap table from one score for each authority never panics when the threshold is at
  most 33. The good nodes and the bad nodes are disjoint, each hold at most the threshold's
  percentage of the total stake; no authority outside scores above a good node or below a bad node.
\<close>

theorem swap_table_correct:
  assumes "committee_wf (ctx_committee ctx)" "rng_ok g"
    and "length (scores_per_authority rs) = committee_size (ctx_committee ctx)"
    and "bad_nodes_stake_threshold (ctx_protocol_config ctx) \<le> 33"
  shows "\<exists>t. swap_table_new g ctx i rs = Inr t \<and> table_scores t = rs
    \<and> good_set t \<subseteq> members (ctx_committee ctx) \<and> bad_set t \<subseteq> members (ctx_committee ctx)
    \<and> good_set t \<inter> bad_set t = {}
    \<and> 100 * weight (ctx_committee ctx) (good_set t)
        \<le> bad_nodes_stake_threshold (ctx_protocol_config ctx) * total_stake (ctx_committee ctx)
    \<and> 100 * weight (ctx_committee ctx) (bad_set t)
        \<le> bad_nodes_stake_threshold (ctx_protocol_config ctx) * total_stake (ctx_committee ctx)
    \<and> (\<forall>a \<in> members (ctx_committee ctx). \<forall>x \<in> good_set t. a \<notin> good_set t
        \<longrightarrow> scores_per_authority rs ! a \<le> scores_per_authority rs ! x)
    \<and> (\<forall>a \<in> members (ctx_committee ctx). \<forall>x \<in> bad_set t. a \<notin> bad_set t
        \<longrightarrow> scores_per_authority rs ! x \<le> scores_per_authority rs ! a)"
proof -
  let ?c = "ctx_committee ctx" and ?t = "bad_nodes_stake_threshold (ctx_protocol_config ctx)"
  let ?s = "\<lambda>a. scores_per_authority rs ! a"
  have base: "committee_base ?c" using assms(1) by (rule committee_wf_base)
  define order where "order = map fst (ranking g i rs)"
  note o = ranking_order [OF assms(2,3), of i, folded order_def]
  obtain k l t where t: "swap_table_new g ctx i rs = Inr t" "table_scores t = rs"
    "good_nodes t = map (node_of ?c) (take k order)"
    "bad_nodes t = fmap_of_list (map (node_of ?c) (rev (take l (rev order))))"
    "weight ?c (set (take k order)) \<le> wrap64 (?t * total_stake ?c) div 100"
    "weight ?c (set (take l (rev order))) \<le> wrap64 (?t * total_stake ?c) div 100"
    using swap_table_new_inner_eq [OF base assms(2,4) refl assms(3), of i]
    unfolding swap_table_new_def order_def by blast
  note sets = swap_table_sets [OF t(3,4)]
  have "set (take k order) \<inter> set (take l (rev order)) = {}"
    using prefix_suffix_disjoint [OF base o(1,2)] budget_bound(2) [OF assms(4) t(5)] budget_bound(2) [OF assms(4) t(6)]
    by simp
  moreover have "?s a \<le> ?s x" if "a \<in> members ?c" "x \<in> set (take k order)" "a \<notin> set (take k order)" for a x
    using sorted_wrt_take_rest [OF o(3) that(2) _ that(3)] that(1) o(2) by simp
  moreover have "?s x \<le> ?s a" if "a \<in> members ?c" "x \<in> set (take l (rev order))" "a \<notin> set (take l (rev order))" for a x
    using sorted_wrt_take_rest [OF o(4) that(2) _ that(3)] that(1) o(2) by simp
  moreover have "set (take k order) \<subseteq> members ?c" "set (take l (rev order)) \<subseteq> members ?c"
    using o(2) set_take_subset [of k order] set_take_subset [of l "rev order"] by auto
  ultimately show ?thesis
    using t(1,2) budget_bound(1) [OF assms(4) t(5)] budget_bound(1) [OF assms(4) t(6)]
    by (intro exI [of _ t] conjI ballI impI) (simp_all add: sets)
qed

subsection \<open>Electing a leader\<close>

lemma stake_choices: "map fst (map (\<lambda>(i, a). (i, a_stake a)) (indexed_authorities c)) = [0..<committee_size c]"
  by (simp add: indexed_authorities_def committee_size_def comp_def case_prod_beta)

lemma stake_based_order:
  assumes "rng_ok g"
  shows "\<exists>order. mset order = mset [0..<committee_size (ctx_committee (schedule_context sch))]
    \<and> (\<forall>offset. elect_leader_stake_based g sch r offset =
         (if offset < committee_size (ctx_committee (schedule_context sch)) then Inr (order ! offset)
          else Inl LeaderOffsetTooLarge))"
proof -
  let ?c = "ctx_committee (schedule_context sch)"
  let ?xs = "map (\<lambda>(i, a). (i, a_stake a)) (indexed_authorities ?c)"
  have len: "length ?xs = committee_size ?c" by (simp add: indexed_authorities_def committee_size_def)
  have "\<exists>ys. choose_multiple_weighted g r ?xs (length ?xs) = Some ys \<and> mset ys = mset ?xs"
    using assms unfolding rng_ok_def by (elim conjE) (erule allE, erule allE)
  then obtain ys where ys: "choose_multiple_weighted g r ?xs (committee_size ?c) = Some ys" "mset ys = mset ?xs"
    unfolding len by (elim exE conjE)
  have m: "mset (map fst ys) = mset [0..<committee_size ?c]"
    using ys(2) stake_choices [of ?c] by (metis mset_map)
  then have "length (map fst ys) = committee_size ?c" by (metis size_mset length_upt minus_nat.diff_0)
  then have "elect_leader_stake_based g sch r offset = (if offset < committee_size ?c then Inr (map fst ys ! offset)
      else Inl LeaderOffsetTooLarge)" for offset
    using ys(1) by (auto simp: elect_leader_stake_based_def Let_def Cons_nth_drop_Suc [symmetric])
  with m show ?thesis by blast
qed

lemma elect_leader_eq:
  assumes "elect_leader_stake_based g sch r offset = Inr base"
  shows "elect_leader g sch r offset =
    (if base \<notin> bad_set (leader_table sch) then Inr base
     else if offset \<noteq> 0 then Inl MultiLeaderSwap
     else case choose_node g r 0 (good_nodes (leader_table sch)) of
            None \<Rightarrow> Inl NoGoodNodes | Some x \<Rightarrow> Inr (fst x))"
  using assms
  by (auto simp: elect_leader_def swap_leader_def bad_set_def fmlookup_dom_iff split: option.splits)

lemma elect_single_leader:
  assumes "rng_ok g" "committee_wf (ctx_committee (schedule_context sch))"
    and "good_set (leader_table sch) \<subseteq> members (ctx_committee (schedule_context sch))"
    and "good_set (leader_table sch) \<inter> bad_set (leader_table sch) = {}"
    and "bad_set (leader_table sch) = {} \<or> good_set (leader_table sch) \<noteq> {}"
  shows "\<exists>base leader. elect_leader_stake_based g sch r 0 = Inr base \<and> elect_leader g sch r 0 = Inr leader
      \<and> leader \<in> members (ctx_committee (schedule_context sch)) \<and> leader \<notin> bad_set (leader_table sch)
      \<and> (if base \<in> bad_set (leader_table sch) then leader \<in> good_set (leader_table sch) else leader = base)"
proof -
  let ?c = "ctx_committee (schedule_context sch)"
  obtain order where m: "mset order = mset [0..<committee_size ?c]"
    and e: "\<And>offset. elect_leader_stake_based g sch r offset =
         (if offset < committee_size ?c then Inr (order ! offset) else Inl LeaderOffsetTooLarge)"
    using stake_based_order [OF assms(1)] by metis
  have len: "length order = committee_size ?c" using m by (metis size_mset length_upt minus_nat.diff_0)
  have pos: "0 < committee_size ?c" using assms(2) by (rule committee_wf_size)
  have base: "elect_leader_stake_based g sch r 0 = Inr (order ! 0)" using e pos by simp
  have "order ! 0 \<in> set order" using len pos by simp
  then have mem: "order ! 0 \<in> members ?c"
    unfolding mset_eq_setD [OF m] by (simp add: is_valid_index_def)
  have "\<exists>leader. elect_leader g sch r 0 = Inr leader \<and> leader \<in> members ?c \<and> leader \<notin> bad_set (leader_table sch)
      \<and> (if order ! 0 \<in> bad_set (leader_table sch) then leader \<in> good_set (leader_table sch) else leader = order ! 0)"
  proof (cases "order ! 0 \<in> bad_set (leader_table sch)")
    case False
    then show ?thesis using mem elect_leader_eq [OF base] by auto
  next
    case True
    then have "good_nodes (leader_table sch) \<noteq> []" using assms(5) by (auto simp: good_set_def)
    then obtain x where x: "choose_node g r 0 (good_nodes (leader_table sch)) = Some x"
      "x \<in> set (good_nodes (leader_table sch))"
      using assms(1) unfolding rng_ok_def by (metis option.exhaust)
    then have "fst x \<in> good_set (leader_table sch)" by (auto simp: good_set_def)
    then show ?thesis using assms(3,4) True x(1) elect_leader_eq [OF base] by auto
  qed
  then show ?thesis using base by blast
qed

text \<open>
  C17. Election by a schedule whose good and bad nodes are disjoint members: with a good node
  available, or no bad one, the single leader of every round is elected, is a member that is not a
  bad node, and is the authority drawn by stake unless that one is bad, when it is a good node.
  Without bad nodes, different offsets of a round elect different members, and every member.
\<close>

theorem elect_leader_correct:
  assumes "rng_ok g" "committee_wf (ctx_committee (schedule_context sch))"
    and "good_set (leader_table sch) \<subseteq> members (ctx_committee (schedule_context sch))"
    and "good_set (leader_table sch) \<inter> bad_set (leader_table sch) = {}"
    and "bad_set (leader_table sch) = {} \<or> good_set (leader_table sch) \<noteq> {}"
  shows "(\<exists>base leader. elect_leader_stake_based g sch r 0 = Inr base \<and> elect_leader g sch r 0 = Inr leader
      \<and> leader \<in> members (ctx_committee (schedule_context sch)) \<and> leader \<notin> bad_set (leader_table sch)
      \<and> (if base \<in> bad_set (leader_table sch) then leader \<in> good_set (leader_table sch) else leader = base))
    \<and> (bad_set (leader_table sch) = {} \<longrightarrow>
        (\<exists>order. mset order = mset [0..<committee_size (ctx_committee (schedule_context sch))]
          \<and> map (elect_leader g sch r) [0..<committee_size (ctx_committee (schedule_context sch))]
              = map Inr order))"
proof -
  let ?c = "ctx_committee (schedule_context sch)"
  obtain order where m: "mset order = mset [0..<committee_size ?c]"
    and e: "\<And>offset. elect_leader_stake_based g sch r offset =
         (if offset < committee_size ?c then Inr (order ! offset) else Inl LeaderOffsetTooLarge)"
    using stake_based_order [OF assms(1)] by metis
  have len: "length order = committee_size ?c" using m by (metis size_mset length_upt minus_nat.diff_0)
  have "map (elect_leader g sch r) [0..<committee_size ?c] = map Inr order"
    if "bad_set (leader_table sch) = {}"
    using elect_leader_eq [of g sch r] e that len by (auto intro!: nth_equalityI)
  then show ?thesis using elect_single_leader [OF assms, of r] m by blast
qed

text \<open>
  C37. A top scorer that alone exceeds the threshold leaves no good node, while a lowest scorer within
  the threshold is a bad node: then every round that draws that authority by stake panics.
\<close>

theorem swap_without_good_nodes_panics:
  assumes "committee_wf (ctx_committee ctx)" "rng_ok g"
    and "length (scores_per_authority rs) = committee_size (ctx_committee ctx)"
    and "bad_nodes_stake_threshold (ctx_protocol_config ctx) \<le> 33"
    and "is_valid_index (ctx_committee ctx) best" "is_valid_index (ctx_committee ctx) worst"
    and "\<forall>a \<in> members (ctx_committee ctx) - {best}. scores_per_authority rs ! a < scores_per_authority rs ! best"
    and "\<forall>a \<in> members (ctx_committee ctx) - {worst}. scores_per_authority rs ! worst < scores_per_authority rs ! a"
    and "33 * total_stake (ctx_committee ctx) \<le> u64_max"
    and "bad_nodes_stake_threshold (ctx_protocol_config ctx) * total_stake (ctx_committee ctx)
      < 100 * stk (ctx_committee ctx) best"
    and "100 * stk (ctx_committee ctx) worst
      \<le> bad_nodes_stake_threshold (ctx_protocol_config ctx) * total_stake (ctx_committee ctx)"
  shows "\<exists>t. swap_table_new g ctx i rs = Inr t \<and> good_nodes t = [] \<and> worst \<in> bad_set t
    \<and> (\<forall>r. elect_leader_stake_based g (leader_schedule_new ctx t) r 0 = Inr worst
          \<longrightarrow> elect_leader g (leader_schedule_new ctx t) r 0 = Inl NoGoodNodes)"
proof -
  let ?c = "ctx_committee ctx" and ?t = "bad_nodes_stake_threshold (ctx_protocol_config ctx)"
  have base: "committee_base ?c" using assms(1) by (rule committee_wf_base)
  define order where "order = map fst (ranking g i rs)"
  note o = ranking_order [OF assms(2,3), of i, folded order_def]
  define budget where "budget = wrap64 (?t * total_stake ?c) div 100"
  obtain k l t where t: "swap_table_new g ctx i rs = Inr t" "table_scores t = rs"
    "good_nodes t = map (node_of ?c) (take k order)"
    "bad_nodes t = fmap_of_list (map (node_of ?c) (rev (take l (rev order))))"
    "weight ?c (set (take k order)) \<le> budget"
    "l < committee_size ?c \<longrightarrow> budget < weight ?c (set (take (Suc l) (rev order)))"
    using swap_table_new_inner_eq [OF base assms(2,4) refl assms(3), of i]
    unfolding swap_table_new_def order_def budget_def by blast
  have "?t * total_stake ?c \<le> 33 * total_stake ?c" using assms(4) by (rule mult_le_mono1)
  also have "\<dots> < 2 ^ 64" using assms(9) by (simp add: u64_max_def)
  finally have b: "budget = ?t * total_stake ?c div 100" by (simp add: budget_def)
  have best: "take 1 order = [best]"
    by (rule head_of_sorted [OF o(3)]) (use assms(5,7) o(2) in \<open>auto simp: not_le\<close>)
  have worst: "take 1 (rev order) = [worst]"
    by (rule head_of_sorted [OF o(4)]) (use assms(6,8) o(2) in \<open>auto simp: not_le\<close>)
  have "k = 0"
  proof (rule ccontr)
    assume "k \<noteq> 0"
    then have "set (take 1 order) \<subseteq> set (take k order)" by (intro set_take_subset_set_take) auto
    then have "weight ?c {best} \<le> weight ?c (set (take k order))"
      unfolding best by (intro weight_mono) auto
    with t(5) assms(10) show False by (simp add: b)
  qed
  moreover have "l \<noteq> 0"
  proof
    assume "l = 0"
    then have "budget < weight ?c {worst}" using t(6) worst committee_wf_size [OF assms(1)] by simp
    with assms(11) show False by (simp add: b)
  qed
  then have "set (take 1 (rev order)) \<subseteq> set (take l (rev order))" by (intro set_take_subset_set_take) auto
  then have "worst \<in> bad_set t" unfolding worst using swap_table_sets(2) [OF t(3,4)] by simp
  moreover have "choose_node g r 0 [] = None" for r using assms(2) by (simp add: rng_ok_def)
  ultimately show ?thesis
    using t(1,3) elect_leader_eq [of g "leader_schedule_new ctx t"]
    by (auto simp: leader_schedule_new_def)
qed

subsection \<open>Recovery of the schedule\<close>

lemma sorted_le_last: "sorted xs \<Longrightarrow> x \<in> set xs \<Longrightarrow> x \<le> last xs"
  by (cases xs rule: rev_cases) (auto simp: sorted_append)

lemma last_key_value_max:
  assumes "fmlookup m k = Some v" "\<And>k'. k' |\<in>| fmdom m \<Longrightarrow> k' \<le> k"
  shows "last_key_value m = Some (k, v)"
proof -
  have k: "k |\<in>| fmdom m" using assms(1) by (rule fmdomI)
  then have ne: "sorted_list_of_fset (fmdom m) \<noteq> []" by (metis fset_of_list_simps(1) sorted_list_of_fset_simps(2) fempty_iff)
  have "last (sorted_list_of_fset (fmdom m)) = k"
  proof (rule antisym)
    have "last (sorted_list_of_fset (fmdom m)) \<in> set (sorted_list_of_fset (fmdom m))" using ne by (rule last_in_set)
    then show "last (sorted_list_of_fset (fmdom m)) \<le> k" using assms(2) by simp
    show "k \<le> last (sorted_list_of_fset (fmdom m))"
      using k ne by (intro sorted_le_last) (auto simp: sorted_list_of_fset.rep_eq)
  qed
  then obtain ks where ks: "sorted_list_of_fset (fmdom m) = ks @ [k]"
    using ne append_butlast_last_id by metis
  show ?thesis
    unfolding last_key_value_def sorted_list_of_fmap_def ks using assms(1) by simp
qed

lemma write_blocks_infos [simp]: "ms_commit_info (fold write_block bs ms) = ms_commit_info ms"
  by (induction bs arbitrary: ms) (auto simp: write_block_def Let_def)

lemma write_commits_infos [simp]: "ms_commit_info (fold write_commit cs ms) = ms_commit_info ms"
  by (induction cs arbitrary: ms) (auto simp: write_commit_def)

lemma write_finalizeds_infos [simp]: "ms_commit_info (fold write_finalized fs ms) = ms_commit_info ms"
  by (induction fs arbitrary: ms) (auto simp: write_finalized_def split: prod.splits)

lemma write_infos_dom:
  "fmdom (ms_commit_info (fold write_commit_info xs ms)) =
     fmdom (ms_commit_info ms) |\<union>| fset_of_list (map (\<lambda>(r, _). (cr_index r, cr_digest r)) xs)"
  by (induction xs arbitrary: ms) (auto simp: write_commit_info_def)

lemma evict_authority_store: "evict_authority a ds = Inr ds' \<Longrightarrow>
    ds_store ds' = ds_store ds \<and> ds_scoring_subdag ds' = ds_scoring_subdag ds"
  by (auto simp: evict_authority_def rbind_eq_Inr Let_def)

lemma flush_store:
  assumes "flush ds = Inr ds'" "commit_info_to_write ds \<noteq> []"
  shows "ds_store ds' = store_write \<lparr>wb_blocks = blocks_to_write ds, wb_commits = commits_to_write ds,
      wb_commit_info = commit_info_to_write ds, wb_finalized_commits = finalized_commits_to_write ds\<rparr> (ds_store ds)
    \<and> ds_scoring_subdag ds' = ds_scoring_subdag ds"
proof -
  let ?ds = "ds\<lparr>blocks_to_write := [], commits_to_write := [], commit_info_to_write := [],
      finalized_commits_to_write := [], ds_store := store_write \<lparr>wb_blocks = blocks_to_write ds,
        wb_commits = commits_to_write ds, wb_commit_info = commit_info_to_write ds,
        wb_finalized_commits = finalized_commits_to_write ds\<rparr> (ds_store ds)\<rparr>"
  obtain ds1 where 1: "rfold (\<lambda>(a, _). evict_authority a) (indexed_authorities (ds_committee ds)) ?ds = Inr ds1"
    "ds' = ds1\<lparr>round_infos := dropWhile (\<lambda>info. ri_round info \<le> gc_round ds1) (round_infos ds1)\<rparr>"
    using assms by (auto simp: flush_def Let_def rbind_eq_Inr)
  have "ds_store ds1 = ds_store ?ds \<and> ds_scoring_subdag ds1 = ds_scoring_subdag ?ds"
    by (rule rfold_invariant [OF 1(1)]) (auto dest: evict_authority_store split: prod.splits)
  with 1(2) show ?thesis by simp
qed

lemma last_info_flushed:
  assumes "flush ds = Inr ds'" "commit_info_to_write ds = infos @ [(r, info)]"
    and "\<forall>k \<in> fset (fmdom (ms_commit_info (ds_store ds))). fst k < cr_index r"
    and "\<forall>x \<in> set infos. cr_index (fst x) < cr_index r"
  shows "recover_last_commit_info ds' = Some (r, info)"
proof -
  let ?m = "ms_commit_info (ds_store ds')" and ?k = "(cr_index r, cr_digest r)"
  have m: "?m = ms_commit_info (fold write_commit_info (infos @ [(r, info)])
      (fold write_commit (commits_to_write ds) (fold write_block (blocks_to_write ds) (ds_store ds))))"
    using flush_store [OF assms(1)] assms(2) by (simp add: store_write_def)
  have "fmlookup ?m ?k = Some info" unfolding m by (simp add: write_commit_info_def)
  moreover have "k' \<le> ?k" if "k' |\<in>| fmdom ?m" for k'
    using that assms(3,4) unfolding m write_infos_dom
    by (auto simp: less_eq_prod_def fset_of_list.rep_eq)
  ultimately have "last_key_value ?m = Some (?k, info)" by (rule last_key_value_max)
  then show ?thesis by (simp add: recover_last_commit_info_def read_last_commit_info_def)
qed

lemma distributed_votes_total:
  assumes "scoring_inv c sd"
  shows "\<exists>scores. distributed_votes_scores c sd = Inr scores \<and> length scores = committee_size c"
proof -
  have "\<forall>(v, agg) \<in> set (sorted_list_of_fmap (sd_votes sd)).
      br_author v < length (replicate (committee_size c) 0 :: nat list)"
    using assms by (auto simp: sorted_list_of_fmap_def fmlookup_dom_iff scoring_inv_def is_valid_index_def)
  from add_scores [OF this] show ?thesis by (auto simp: distributed_votes_scores_def)
qed

lemma update_leader_schedule_total:
  assumes "committee_wf (ds_committee ds)" "scoring_inv (ds_committee ds) (ds_scoring_subdag ds)" "rng_ok g"
    and "ctx_committee (schedule_context sch) = ds_committee ds"
    and "bad_nodes_stake_threshold (ctx_protocol_config (schedule_context sch)) \<le> 33"
    and "sd_commit_range (ds_scoring_subdag ds) = Some rng" "last_commit ds = Some commit"
    and "scores_commit_range (table_scores (leader_table sch)) = CommitRange 0 0
      \<or> is_next_range (scores_commit_range (table_scores (leader_table sch))) rng
        \<and> is_equal_size (scores_commit_range (table_scores (leader_table sch))) rng = Inr True"
  shows "\<exists>rs t. calculate_scoring_subdag_scores ds = Inr rs \<and> scores_commit_range rs = rng \<and> table_scores t = rs
    \<and> swap_table_new g (schedule_context sch) (range_end rng) rs = Inr t
    \<and> update_leader_schedule_v2 g sch ds = Inr (sch\<lparr>leader_table := t\<rparr>,
        (clear_scoring_subdag ds)\<lparr>commit_info_to_write := commit_info_to_write ds @
            [(commit_reference commit, \<lparr>committed_rounds = last_committed_rounds ds, info_scores = rs\<rparr>)]\<rparr>)"
proof -
  let ?c = "ds_committee ds" and ?sd = "ds_scoring_subdag ds"
  obtain scores where s: "distributed_votes_scores ?c ?sd = Inr scores" "length scores = committee_size ?c"
    using distributed_votes_total [OF assms(2)] by blast
  define rs where "rs = reputation_scores_new rng scores"
  have rs: "calculate_scoring_subdag_scores ds = Inr rs" "scores_commit_range rs = rng"
    "length (scores_per_authority rs) = committee_size ?c"
    using s assms(6)
    by (simp_all add: calculate_scoring_subdag_scores_def calculate_distributed_vote_scores_def rs_def reputation_scores_new_def)
  obtain t where t: "swap_table_new g (schedule_context sch) (range_end rng) rs = Inr t" "table_scores t = rs"
    using swap_table_new_inner_eq [OF committee_wf_base [OF assms(1)] assms(3,5,4) rs(3)]
    unfolding swap_table_new_def by blast
  have "update_leader_swap_table t sch = Inr (sch\<lparr>leader_table := t\<rparr>)"
    using assms(8) t(2) rs(2) by (auto simp: update_leader_swap_table_def Let_def)
  moreover have "rmap (\<lambda>i. rexpect InvalidScoreIndex (to_authority_index ?c i)) [0..<length (scores_per_authority rs)]
      = Inr (map (\<lambda>i. i) [0..<length (scores_per_authority rs)])"
    by (rule rmap_total) (auto simp: to_authority_index_def rs(3) committee_size_def)
  ultimately have "update_leader_schedule_v2 g sch ds = Inr (sch\<lparr>leader_table := t\<rparr>,
        (clear_scoring_subdag ds)\<lparr>commit_info_to_write := commit_info_to_write ds @
            [(commit_reference commit, \<lparr>committed_rounds = last_committed_rounds ds, info_scores = rs\<rparr>)]\<rparr>)"
    using rs(1) t(1) assms(4,6,7)
    by (simp add: update_leader_schedule_v2_def scoring_subdag_commit_range_def add_commit_info_def
      clear_scoring_subdag_def scoring_clear_empty)
  with rs t show ?thesis by blast
qed


subsection \<open>Witnesses\<close>

text \<open>A generator that rotates by the seed and chooses the first element.\<close>

definition demo_rng :: rng where
  "demo_rng = \<lparr>choose_multiple_weighted = \<lambda>seed xs n. Some (rotate seed xs),
     shuffle_scores = \<lambda>seed xs. xs,
     choose_node = \<lambda>r i xs. (case xs of [] \<Rightarrow> None | x # _ \<Rightarrow> Some x),
     shuffle_leaders = \<lambda>seed xs. xs\<rparr>"

lemma mset_rotate1: "mset (rotate1 xs) = mset xs"
  by (cases xs) auto

lemma mset_rotate: "mset (rotate n xs) = mset xs"
  by (induction n) (simp_all add: mset_rotate1)

lemma demo_rng_ok: "rng_ok demo_rng"
  by (auto simp: rng_ok_def demo_rng_def mset_rotate split: list.splits)

abbreviation demo_scores :: reputation_scores where
  "demo_scores \<equiv> reputation_scores_new (commit_range_new 1 1) [4, 1, 1, 3]"

theorem swap_table_correct_witness:
  "\<exists>t. swap_table_new demo_rng demo_context 1 demo_scores = Inr t \<and> good_set t \<inter> bad_set t = {}
     \<and> 100 * weight demo_committee (bad_set t) \<le> 120"
  using swap_table_correct [of demo_context demo_rng demo_scores 1] demo_rng_ok demo_committee_wf
  by (fastforce simp: reputation_scores_new_def demo_size demo_thresholds protocol_config_for_testing_def)

definition demo_table :: leader_swap_table where
  "demo_table = \<lparr>good_nodes = [(0, ''host'', 1)], bad_nodes = fmap_of_list [(2, (''host'', 1))],
     table_scores = demo_scores\<rparr>"

theorem elect_leader_correct_witness:
  "elect_leader_stake_based demo_rng (leader_schedule_new demo_context demo_table) 2 0 = Inr 2
   \<and> elect_leader demo_rng (leader_schedule_new demo_context demo_table) 2 0 = Inr 0"
proof -
  let ?s = "leader_schedule_new demo_context demo_table"
  have s: "ctx_committee (schedule_context ?s) = demo_committee" "good_set (leader_table ?s) = {0}"
    "bad_set (leader_table ?s) = {2}"
    by (auto simp: leader_schedule_new_def demo_table_def good_set_def bad_set_def)
  have base: "elect_leader_stake_based demo_rng ?s 2 0 = Inr 2"
    by (simp add: elect_leader_stake_based_def demo_rng_def leader_schedule_new_def committee_size_def Let_def
      indexed_authorities_def demo_committee_def numeral_eq_Suc)
  from elect_leader_correct [OF demo_rng_ok, of ?s 2] base show ?thesis
    by (simp add: s demo_committee_wf demo_size is_valid_index_def)
qed

definition demo_heavy_context :: node_context where
  "demo_heavy_context = demo_context\<lparr>ctx_committee := \<lparr>epoch = 0, authorities = map demo_authority [4, 2, 2, 2],
     total_stake = 10, quorum_threshold = 7, certification_threshold = 7, validity_threshold = 4\<rparr>\<rparr>"

theorem swap_without_good_nodes_panics_witness:
  "\<exists>t. swap_table_new demo_rng demo_heavy_context 1 (reputation_scores_new (commit_range_new 1 1) [4, 2, 3, 1]) = Inr t
     \<and> elect_leader demo_rng (leader_schedule_new demo_heavy_context t) 3 0 = Inl NoGoodNodes"
proof -
  let ?rs = "reputation_scores_new (commit_range_new 1 1) [4, 2, 3, 1]"
  let ?c = "ctx_committee demo_heavy_context"
  have c: "?c = \<lparr>epoch = 0, authorities = map demo_authority [4, 2, 2, 2],
     total_stake = 10, quorum_threshold = 7, certification_threshold = 7, validity_threshold = 4\<rparr>"
    by (simp add: demo_heavy_context_def)
  have cfg: "bad_nodes_stake_threshold (ctx_protocol_config demo_heavy_context) = 30"
    by (simp add: demo_heavy_context_def protocol_config_for_testing_def)
  have wf: "committee_wf ?c"
    by (simp add: c committee_wf_def committee_v2_def committee_base_def demo_authority_def committee_size_def
      u32_max_def u64_max_def)
  have sz: "committee_size ?c = 4" by (simp add: c committee_size_def)
  have mem: "members ?c = {0, 1, 2, 3}" by (auto simp: members_def sz)
  have stk: "stk ?c 0 = 4" "stk ?c 3 = 2" by (simp_all add: stk_def sz) (simp_all add: c demo_authority_def numeral_eq_Suc)
  have "\<exists>t. swap_table_new demo_rng demo_heavy_context 1 ?rs = Inr t \<and> good_nodes t = [] \<and> 3 \<in> bad_set t
    \<and> (\<forall>r. elect_leader_stake_based demo_rng (leader_schedule_new demo_heavy_context t) r 0 = Inr 3
          \<longrightarrow> elect_leader demo_rng (leader_schedule_new demo_heavy_context t) r 0 = Inl NoGoodNodes)"
    by (rule swap_without_good_nodes_panics [OF wf demo_rng_ok, where best = 0])
      (simp_all add: mem sz stk cfg is_valid_index_def reputation_scores_new_def u64_max_def insert_Diff_if,
       simp_all add: c)
  moreover have "elect_leader_stake_based demo_rng (leader_schedule_new demo_heavy_context t) 3 0 = Inr 3" for t
    by (simp add: elect_leader_stake_based_def leader_schedule_new_def sz Let_def demo_rng_def)
      (simp add: c indexed_authorities_def numeral_eq_Suc)
  ultimately show ?thesis by blast
qed

definition demo_scored_dag :: dag_state where
  "demo_scored_dag = demo_dag\<lparr>last_commit := Some demo_commit, ds_scoring_subdag := demo_scoring\<rparr>"


end
