(* ===== verification/Base_Committer.thy ===== *)
theory Base_Committer
  imports Leader_Schedule
begin

section \<open>The base committer\<close>

text \<open>
  Models \<open>consensus/core/src/base_committer.rs\<close>: waves, votes, certificates, and the direct and
  indirect decision rules for the leader of a slot. The committer reads the \<open>DagState\<close> and the
  \<open>LeaderSchedule\<close>, which are arguments here.

  The recursion of \<open>find_supported_block\<close> and the walk of \<open>ancestors_at_round\<close> need not end on a
  malformed DAG, so the functions that use them return \<open>(panic + 'a) option\<close>, where \<open>None\<close> stands for
  not returning.
\<close>

subsection \<open>Computations that may panic or not return\<close>

type_synonym 'a run = "(panic + 'a) option"

definition run_bind :: "'a run \<Rightarrow> ('a \<Rightarrow> 'b run) \<Rightarrow> 'b run" where
  "run_bind x f = (case x of None \<Rightarrow> None | Some (Inl e) \<Rightarrow> Some (Inl e) | Some (Inr a) \<Rightarrow> f a)"

definition run_return :: "'a \<Rightarrow> 'a run" where
  "run_return a = Some (Inr a)"

text \<open>
  Loops over a list: with early return of the first \<open>Some\<close>, with state and a stop flag, and the
  fallible \<open>filter\<close> and \<open>any\<close>.
\<close>

primrec run_find_map :: "('a \<Rightarrow> 'b option run) \<Rightarrow> 'a list \<Rightarrow> 'b option run" where
  "run_find_map f [] = run_return None"
| "run_find_map f (x # xs) = run_bind (f x) (\<lambda>y.
     case y of Some z \<Rightarrow> run_return (Some z) | None \<Rightarrow> run_find_map f xs)"

primrec run_until :: "('a \<Rightarrow> 's \<Rightarrow> (bool \<times> 's) run) \<Rightarrow> 'a list \<Rightarrow> 's \<Rightarrow> (bool \<times> 's) run" where
  "run_until f [] s = run_return (False, s)"
| "run_until f (x # xs) s = run_bind (f x s) (\<lambda>(stop, s).
     if stop then run_return (True, s) else run_until f xs s)"

primrec run_filter :: "('a \<Rightarrow> bool run) \<Rightarrow> 'a list \<Rightarrow> 'a list run" where
  "run_filter f [] = run_return []"
| "run_filter f (x # xs) = run_bind (f x) (\<lambda>keep.
     run_bind (run_filter f xs) (\<lambda>ys. run_return (if keep then x # ys else ys)))"

lemma run_bind_simps [simp]:
  "run_bind None f = None"
  "run_bind (Some (Inl e)) f = Some (Inl e)"
  "run_bind (Some (Inr a)) f = f a"
  "run_bind (run_return a) f = f a"
  by (simp_all add: run_bind_def run_return_def)

lemma run_bind_mono [partial_function_mono]:
  fixes f :: "('k \<Rightarrow> 'v option) \<Rightarrow> 'a run"
  assumes "mono_option f" "\<And>y. mono_option (\<lambda>g. h y g)"
  shows "mono_option (\<lambda>g. run_bind (f g) (\<lambda>y. h y g))"
proof (rule monotoneI)
  fix x y :: "'k \<Rightarrow> 'v option" assume xy: "option.le_fun x y"
  have 1: "option_ord (f x) (f y)" using assms(1) xy by (rule monotoneD [of _ _ _ x y])
  have 2: "option_ord (h a x) (h a y)" for a using assms(2) xy by (rule monotoneD [of _ _ _ x y])
  show "option_ord (run_bind (f x) (\<lambda>a. h a x)) (run_bind (f y) (\<lambda>a. h a y))"
  proof (cases "f x = None")
    case True
    then show ?thesis by (simp add: flat_ord_def)
  next
    case False
    then have "f x = f y" using 1 by (auto simp: flat_ord_def)
    then show ?thesis
      using 2 by (cases "f y") (auto simp: flat_ord_def run_bind_def split: sum.split)
  qed
qed

lemma run_find_map_mono [partial_function_mono]:
  assumes "\<And>x. mono_option (\<lambda>g. f x g)"
  shows "mono_option (\<lambda>g. run_find_map (\<lambda>x. f x g) xs)"
proof (induction xs)
  case Nil
  show ?case by (simp add: option.const_mono)
next
  case (Cons x xs)
  have "mono_option (\<lambda>g. case y of Some z \<Rightarrow> run_return (Some z) | None \<Rightarrow> run_find_map (\<lambda>x. f x g) xs)" for y
    using Cons by (cases y) (simp_all add: option.const_mono)
  then show ?case unfolding run_find_map.simps by (intro run_bind_mono assms)
qed

subsection \<open>Waves\<close>

record base_committer_options =
  wave_length :: round_number
  leader_offset :: nat
  round_offset :: round_number

definition base_committer_options_default :: base_committer_options where
  "base_committer_options_default = \<lparr>wave_length = default_wave_length, leader_offset = 0, round_offset = 0\<rparr>"

definition leader_round :: "base_committer_options \<Rightarrow> wavenumber \<Rightarrow> round_number" where
  "leader_round opts wave = wrap32 (wave * wave_length opts + round_offset opts)"

definition decision_round :: "base_committer_options \<Rightarrow> wavenumber \<Rightarrow> round_number" where
  "decision_round opts wave = wrap32 (wave * wave_length opts + wave_length opts - 1 + round_offset opts)"

text \<open>The wave length is at least 3 (\<open>MINIMUM_WAVE_LENGTH\<close>), so the division does not fail.\<close>

definition wave_number :: "base_committer_options \<Rightarrow> round_number \<Rightarrow> wavenumber" where
  "wave_number opts r = (r - round_offset opts) div wave_length opts"

definition committer_elect_leader ::
  "rng \<Rightarrow> leader_schedule \<Rightarrow> base_committer_options \<Rightarrow> round_number \<Rightarrow> panic + slot option" where
  "committer_elect_leader g sch opts r =
    (if leader_round opts (wave_number opts r) \<noteq> r then Inr None
     else rbind (elect_leader g sch r (leader_offset opts)) (\<lambda>a. Inr (Some (Slot r a))))"

subsection \<open>Votes and certificates\<close>

partial_function (option) find_supported_block ::
  "dag_state \<Rightarrow> slot \<Rightarrow> verified_block \<Rightarrow> block_ref option run" where
  "find_supported_block ds leader_slot from =
    (if vb_round from < slot_round leader_slot then run_return None
     else run_find_map (\<lambda>ancestor.
       if slot_of_ref ancestor = leader_slot then run_return (Some ancestor)
       else if br_round ancestor \<le> slot_round leader_slot then run_return None
       else case get_block ds ancestor of
              None \<Rightarrow> Some (Inl BlockMissingInDag)
            | Some b \<Rightarrow> find_supported_block ds leader_slot b)
       (vb_ancestors from))"

definition is_vote :: "dag_state \<Rightarrow> verified_block \<Rightarrow> verified_block \<Rightarrow> bool run" where
  "is_vote ds potential_vote leader_block =
     run_bind (find_supported_block ds (slot_of_ref (reference leader_block)) potential_vote) (\<lambda>support.
     run_return (support = Some (reference leader_block)))"

text \<open>
  The body of the loop of \<open>is_certificate\<close>, on the cache of votes and the aggregator; the flag says
  that the loop returns \<open>true\<close>.
\<close>

type_synonym vote_cache = "(block_ref, bool) fmap"

definition certificate_step ::
  "dag_state \<Rightarrow> verified_block \<Rightarrow> block_ref \<Rightarrow> vote_cache \<times> stake_aggregator
     \<Rightarrow> (bool \<times> vote_cache \<times> stake_aggregator) run" where
  "certificate_step ds leader_block r = (\<lambda>(all_votes, agg).
     run_bind (case fmlookup all_votes r of
         Some v \<Rightarrow> run_return (v, all_votes)
       | None \<Rightarrow>
           run_bind (case get_block ds r of
               Some potential_vote \<Rightarrow> is_vote ds potential_vote leader_block
             | None \<Rightarrow> Some (rbind (rassert (br_round r \<le> gc_round ds) BlockMissingInDag) (\<lambda>_. Inr False))) (\<lambda>v.
           run_return (v, fmupd r v all_votes))) (\<lambda>(v, all_votes).
     if v
     then run_bind (Some (aggregator_add quorum_is_threshold (br_author r) (ds_committee ds) agg)) (\<lambda>(reached, agg).
          run_return (reached, all_votes, agg))
     else run_return (False, all_votes, agg)))"

definition is_certificate ::
  "dag_state \<Rightarrow> verified_block \<Rightarrow> verified_block \<Rightarrow> vote_cache \<Rightarrow> (bool \<times> vote_cache) run" where
  "is_certificate ds potential_certificate leader_block all_votes =
     run_bind (run_until (certificate_step ds leader_block) (vb_ancestors potential_certificate)
                 (all_votes, aggregator_new)) (\<lambda>(found, all_votes, _).
     run_return (found, all_votes))"

subsection \<open>Decisions\<close>

definition decide_leader_from_anchor ::
  "dag_state \<Rightarrow> base_committer_options \<Rightarrow> verified_block \<Rightarrow> slot \<Rightarrow> leader_status run" where
  "decide_leader_from_anchor ds opts anchor leader_slot =
    (let leader_blocks = get_uncommitted_blocks_at_slot ds leader_slot;
         decision = decision_round opts (wave_number opts (slot_round leader_slot))
     in
     run_bind (ancestors_at_round ds anchor decision) (\<lambda>potential_certificates.
     run_bind (run_filter (\<lambda>leader_block.
         run_bind (run_until (\<lambda>potential_certificate all_votes.
             is_certificate ds potential_certificate leader_block all_votes)
           potential_certificates fmempty) (\<lambda>(found, _). run_return found)) leader_blocks) (\<lambda>certified.
     if length certified > 1 then Some (Inl TwoCertifiedLeaders)
     else run_return (case rev certified of b # _ \<Rightarrow> Commit b | [] \<Rightarrow> Skip leader_slot))))"

definition blame_step ::
  "committee \<Rightarrow> authority_index \<Rightarrow> verified_block \<Rightarrow> stake_aggregator \<Rightarrow> (bool \<times> stake_aggregator) run" where
  "blame_step c leader voting_block agg =
    (if \<forall>a \<in> set (vb_ancestors voting_block). br_author a \<noteq> leader
     then Some (aggregator_add quorum_is_threshold (br_author (reference voting_block)) c agg)
     else run_return (False, agg))"

definition enough_leader_blame :: "dag_state \<Rightarrow> round_number \<Rightarrow> authority_index \<Rightarrow> bool run" where
  "enough_leader_blame ds voting_round leader =
     run_bind (Some (get_uncommitted_blocks_at_round ds voting_round)) (\<lambda>voting_blocks.
     run_bind (run_until (blame_step (ds_committee ds) leader) voting_blocks aggregator_new) (\<lambda>(found, _).
     run_return found))"

definition support_step ::
  "dag_state \<Rightarrow> verified_block \<Rightarrow> verified_block \<Rightarrow> vote_cache \<times> stake_aggregator
     \<Rightarrow> (bool \<times> vote_cache \<times> stake_aggregator) run" where
  "support_step ds leader_block decision_block = (\<lambda>(all_votes, agg).
     run_bind (is_certificate ds decision_block leader_block all_votes) (\<lambda>(cert, all_votes).
     if cert
     then run_bind (Some (aggregator_add quorum_is_threshold (br_author (reference decision_block))
              (ds_committee ds) agg)) (\<lambda>(reached, agg).
          run_return (reached, all_votes, agg))
     else run_return (False, all_votes, agg)))"

definition enough_leader_support :: "dag_state \<Rightarrow> round_number \<Rightarrow> verified_block \<Rightarrow> bool run" where
  "enough_leader_support ds decision leader_block =
     run_bind (Some (get_uncommitted_blocks_at_round ds decision)) (\<lambda>decision_blocks.
     run_bind (Some (rmap (\<lambda>b. committee_stake (ds_committee ds) (vb_author b)) decision_blocks)) (\<lambda>stakes.
     if \<not> reached_quorum (ds_committee ds) (wrap64 (sum_list stakes)) then run_return False
     else run_bind (run_until (support_step ds leader_block) decision_blocks (fmempty, aggregator_new))
            (\<lambda>(found, _). run_return found)))"

definition base_try_direct_decide ::
  "dag_state \<Rightarrow> base_committer_options \<Rightarrow> slot \<Rightarrow> leader_status run" where
  "base_try_direct_decide ds opts leader =
     run_bind (enough_leader_blame ds (wrap32 (slot_round leader + 1)) (slot_authority leader)) (\<lambda>blamed.
     if blamed then run_return (Skip leader)
     else
       let decision = decision_round opts (wave_number opts (slot_round leader)) in
       run_bind (run_filter (enough_leader_support ds decision) (get_uncommitted_blocks_at_slot ds leader)) (\<lambda>supported.
       if length supported > 1 then Some (Inl TwoCertifiedLeaders)
       else run_return (case rev supported of b # _ \<Rightarrow> Commit b | [] \<Rightarrow> Undecided leader)))"

text \<open>The loop of \<open>try_indirect_decide\<close> over the anchors.\<close>

fun decide_from_anchors ::
  "dag_state \<Rightarrow> base_committer_options \<Rightarrow> slot \<Rightarrow> leader_status list \<Rightarrow> leader_status run" where
  "decide_from_anchors ds opts leader_slot [] = run_return (Undecided leader_slot)"
| "decide_from_anchors ds opts leader_slot (Commit anchor # anchors) =
     decide_leader_from_anchor ds opts anchor leader_slot"
| "decide_from_anchors ds opts leader_slot (Skip _ # anchors) = decide_from_anchors ds opts leader_slot anchors"
| "decide_from_anchors ds opts leader_slot (Undecided _ # anchors) = run_return (Undecided leader_slot)"

definition base_try_indirect_decide ::
  "dag_state \<Rightarrow> base_committer_options \<Rightarrow> slot \<Rightarrow> leader_status list \<Rightarrow> leader_status run" where
  "base_try_indirect_decide ds opts leader_slot leaders =
     decide_from_anchors ds opts leader_slot
       (filter (\<lambda>x. wrap32 (slot_round leader_slot + wave_length opts) \<le> leader_status_round x) leaders)"

end
