(* ===== verification/Universal_Committer.thy ===== *)
theory Universal_Committer
  imports Base_Committer
begin

section \<open>The universal committer\<close>

text \<open>
  Models \<open>consensus/core/src/universal_committer.rs\<close>: the collection of base committers built for
  pipelining and for several leaders in a round, and the decision of the longest prefix of leader
  slots. The context of the committer is that of the \<open>DagState\<close> it reads.
\<close>

subsection \<open>Building the committers\<close>

record universal_committer_builder =
  builder_wave_length :: round_number
  number_of_leaders :: nat
  pipeline :: bool

definition builder_new :: universal_committer_builder where
  "builder_new = \<lparr>builder_wave_length = default_wave_length, number_of_leaders = 1, pipeline = False\<rparr>"

definition with_number_of_leaders :: "nat \<Rightarrow> universal_committer_builder \<Rightarrow> universal_committer_builder" where
  "with_number_of_leaders n b = b\<lparr>number_of_leaders := n\<rparr>"

definition with_pipeline :: "bool \<Rightarrow> universal_committer_builder \<Rightarrow> universal_committer_builder" where
  "with_pipeline p b = b\<lparr>pipeline := p\<rparr>"

definition universal_build :: "universal_committer_builder \<Rightarrow> base_committer_options list" where
  "universal_build b =
    (let pipeline_stages = (if pipeline b then builder_wave_length b else 1) in
     concat (map (\<lambda>ro. map (\<lambda>lo. \<lparr>wave_length = builder_wave_length b, leader_offset = lo, round_offset = ro\<rparr>)
                   [0..<number_of_leaders b])
       [0..<pipeline_stages]))"

subsection \<open>Deciding\<close>

text \<open>The rules applied to one slot, given the statuses of the later slots.\<close>

definition decide_slot ::
  "dag_state \<Rightarrow> base_committer_options \<Rightarrow> slot \<Rightarrow> leader_status list \<Rightarrow> (leader_status \<times> decision) run" where
  "decide_slot ds opts s leaders =
     run_bind (base_try_direct_decide ds opts s) (\<lambda>status.
     if is_decided status then run_return (status, Direct)
     else run_bind (base_try_indirect_decide ds opts s leaders) (\<lambda>status. run_return (status, Indirect)))"

text \<open>The body of the loop over rounds and committers; the flag says that the outer loop is left.\<close>

definition try_decide_step ::
  "rng \<Rightarrow> leader_schedule \<Rightarrow> dag_state \<Rightarrow> slot \<Rightarrow> round_number \<times> base_committer_options
     \<Rightarrow> (leader_status \<times> decision) list \<Rightarrow> (bool \<times> (leader_status \<times> decision) list) run" where
  "try_decide_step g sch ds last_decided = (\<lambda>(r, opts) leaders.
     run_bind (Some (committer_elect_leader g sch opts r)) (\<lambda>elected.
     case elected of
       None \<Rightarrow> run_return (False, leaders)
     | Some s \<Rightarrow>
         if s = last_decided then run_return (True, leaders)
         else run_bind (decide_slot ds opts s (map fst leaders)) (\<lambda>x. run_return (False, x # leaders))))"

text \<open>The longest prefix of decided leaders; the metrics look up the authority.\<close>

primrec decided_prefix ::
  "committee \<Rightarrow> (leader_status \<times> decision) list \<Rightarrow> panic + decided_leader list" where
  "decided_prefix c [] = Inr []"
| "decided_prefix c (x # xs) =
    (if leader_status_round (fst x) = genesis_round then decided_prefix c xs
     else case into_decided_leader (fst x) (snd x = Direct) of
            None \<Rightarrow> Inr []
          | Some d \<Rightarrow> rbind (committee_authority c (slot_authority (decided_leader_slot d))) (\<lambda>_.
                      rbind (decided_prefix c xs) (\<lambda>rest. Inr (d # rest))))"

definition first_round_to_decide :: "protocol_config \<Rightarrow> slot \<Rightarrow> round_number" where
  "first_round_to_decide cfg last_decided =
    (if num_leaders_per_round cfg = Some 1 then wrap32 (slot_round last_decided + 1)
     else slot_round last_decided)"

definition universal_try_decide ::
  "rng \<Rightarrow> leader_schedule \<Rightarrow> base_committer_options list \<Rightarrow> dag_state \<Rightarrow> slot \<Rightarrow> decided_leader list run" where
  "universal_try_decide g sch committers ds last_decided =
    (let first_round = first_round_to_decide (ds_config ds) last_decided;
         rounds = rev [first_round..<Suc (highest_accepted_round ds - 2)]
     in
     run_bind (run_until (try_decide_step g sch ds last_decided)
       (concat (map (\<lambda>r. map (\<lambda>opts. (r, opts)) (rev committers)) rounds)) []) (\<lambda>(_, leaders).
     Some (decided_prefix (ds_committee ds) leaders)))"

definition get_leaders ::
  "rng \<Rightarrow> leader_schedule \<Rightarrow> base_committer_options list \<Rightarrow> round_number \<Rightarrow> panic + authority_index list" where
  "get_leaders g sch committers r =
     rbind (rmap (\<lambda>opts. committer_elect_leader g sch opts r) committers) (\<lambda>elected.
     Inr (map slot_authority (List.map_filter id elected)))"

end
