(* ===== verification/Commit_Votes.thy ===== *)
theory Commit_Votes
  imports Base_Committer Block_Verifier Dag_Inv
begin

section \<open>Votes, certificates and the direct rule\<close>

text \<open>
  What the votes and certificates of \<open>base_committer.rs\<close> mean over the blocks that correct nodes
  accept: a node's view is a part of one universe of verified blocks in which a correct authority
  has one block in a round. The memoised vote search, the certificate check and the two counting
  loops of the direct rule are characterised by sets of authorities.
\<close>

subsection \<open>Loops\<close>

lemma run_return_eq [simp]:
  "run_return a = run_return b \<longleftrightarrow> a = b"
  "run_return a \<noteq> None" "run_return a \<noteq> Some (Inl e)"
  "run_return a = Some (Inr b) \<longleftrightarrow> a = b"
  by (auto simp: run_return_def)

lemma run_bind_return [simp]: "run_bind x run_return = x"
  by (auto simp: run_bind_def run_return_def split: option.split sum.split)

lemma run_find_map_return:
  assumes "\<And>x. x \<in> set xs \<Longrightarrow> f x = run_return (if P x then Some x else None)"
  shows "run_find_map f xs = run_return (find P xs)"
  using assms by (induction xs) auto

lemma run_filter_return:
  assumes "\<And>x. x \<in> set xs \<Longrightarrow> f x = run_return (P x)"
  shows "run_filter f xs = run_return (filter P xs)"
  using assms by (induction xs) auto

text \<open>A loop that adds the authors of the elements with \<open>P\<close> and stops when they are a quorum.\<close>

lemma run_until_quorum:
  fixes V :: "'s \<Rightarrow> authority_index set"
  assumes step: "\<And>x s. x \<in> set xs \<Longrightarrow> I s \<Longrightarrow>
      \<exists>s'. I s' \<and> V s' = (if P x then insert (au x) (V s) else V s)
        \<and> f x s = run_return (P x \<and> q \<le> weight c (insert (au x) (V s)), s')"
    and "I s" "\<not> q \<le> weight c (V s)" "\<And>s. I s \<Longrightarrow> finite (V s)"
  shows "\<exists>s'. run_until f xs s = run_return (q \<le> weight c (V s \<union> au ` {x \<in> set xs. P x}), s') \<and> I s'"
  using assms(1-3)
proof (induction xs arbitrary: s)
  case Nil
  then show ?case by simp
next
  case (Cons x xs)
  obtain s1 where 1: "I s1" "V s1 = (if P x then insert (au x) (V s) else V s)"
    "f x s = run_return (P x \<and> q \<le> weight c (insert (au x) (V s)), s1)"
    using Cons.prems(1) [of x s] Cons.prems(2) by auto
  have all: "V s \<union> au ` {y \<in> set (x # xs). P y} = V s1 \<union> au ` {y \<in> set xs. P y}"
    using 1(2) by auto
  show ?case
  proof (cases "q \<le> weight c (V s1)")
    case True
    have "weight c (V s1) \<le> weight c (V s1 \<union> au ` {y \<in> set xs. P y})"
      using assms(4) [OF 1(1)] by (intro weight_mono) auto
    moreover have "P x" using True Cons.prems(3) 1(2) by (auto split: if_splits)
    ultimately show ?thesis using True 1 unfolding all by simp
  next
    case False
    obtain s2 where "run_until f xs s1 = run_return (q \<le> weight c (V s1 \<union> au ` {y \<in> set xs. P y}), s2)" "I s2"
      using Cons.IH [OF _ 1(1) False] Cons.prems(1) by auto
    moreover have "\<not> (P x \<and> q \<le> weight c (insert (au x) (V s)))" using False 1(2) by (auto split: if_splits)
    ultimately show ?thesis using 1(3) unfolding all by auto
  qed
qed

lemma quorum_positive:
  assumes "committee_wf c"
  shows "0 < quorum_threshold c"
proof -
  have "0 < total_stake c" using committee_wf_base [OF assms] by (simp add: committee_base_def)
  then show ?thesis using assms by (auto simp: committee_wf_def dest!: committee_v2_bounds(1) committee_v3_bounds(1))
qed

text \<open>One more vote for an aggregator of quorums.\<close>

lemma run_add_vote:
  assumes "committee_base c" "aggregator_inv c agg" "is_valid_index c a"
  shows "\<exists>agg'. aggregator_inv c agg' \<and> fset (votes agg') = insert a (fset (votes agg))
    \<and> Some (aggregator_add quorum_is_threshold a c agg)
        = run_return (quorum_threshold c \<le> weight c (insert a (fset (votes agg))), agg')"
  using quorum_votes.aggregator_add_ok [OF assms]
  by (auto simp: run_return_def quorum_threshold_of_def)

subsection \<open>Views\<close>

text \<open>What the block verifier establishes of the links of a block after genesis.\<close>

definition linked_block :: "committee \<Rightarrow> verified_block \<Rightarrow> bool" where
  "linked_block c b \<longleftrightarrow>
     is_valid_index c (vb_author b) \<and> distinct (map br_author (vb_ancestors b))
     \<and> (\<forall>a \<in> set (vb_ancestors b). is_valid_index c (br_author a) \<and> br_round a < vb_round b)
     \<and> quorum_threshold c \<le> weight c (parent_authors (vb_round b) (vb_ancestors b))"

lemma valid_block_linked:
  "valid_block cr v sb \<Longrightarrow> linked_block (bv_committee v) (new_verified cr sb serialized)"
  by (auto simp: valid_block_def valid_ancestors_def linked_block_def new_verified_def Let_def)

text \<open>
  The blocks \<open>U\<close> that the correct nodes ever accept, under a set \<open>byz\<close> of faulty authorities lighter
  than the validity threshold: references identify blocks, blocks are verified, and a correct
  authority produces one block in a round.
\<close>

definition block_universe ::
  "committee \<Rightarrow> authority_index set \<Rightarrow> (block_ref \<Rightarrow> verified_block option) \<Rightarrow> bool" where
  "block_universe c byz U \<longleftrightarrow>
     committee_wf c \<and> byz \<subseteq> members c \<and> weight c byz < validity_threshold c
     \<and> (\<forall>r b. U r = Some b \<longrightarrow> reference b = r
          \<and> (if br_round r = 0 then vb_ancestors b = [] else linked_block c b))
     \<and> (\<forall>r r'. U r \<noteq> None \<longrightarrow> U r' \<noteq> None \<longrightarrow> br_round r = br_round r' \<longrightarrow> br_author r = br_author r'
          \<longrightarrow> br_author r \<notin> byz \<longrightarrow> r = r')"

text \<open>
  The state of a correct node holds some of these blocks, with the ancestors above the GC round of
  each, and keeps those above the GC round in its cache.
\<close>

definition view_of :: "(block_ref \<Rightarrow> verified_block option) \<Rightarrow> dag_state \<Rightarrow> bool" where
  "view_of U ds \<longleftrightarrow> dag_inv ds
     \<and> (\<forall>r b. get_block ds r = Some b \<longrightarrow> U r = Some b)
     \<and> (\<forall>r b a. get_block ds r = Some b \<longrightarrow> a \<in> set (vb_ancestors b) \<longrightarrow> gc_round ds < br_round a
          \<longrightarrow> get_block ds a \<noteq> None)
     \<and> (\<forall>r b. get_block ds r = Some b \<longrightarrow> gc_round ds < br_round r \<longrightarrow> cached_block ds r = Some b)
     \<and> (\<forall>r. (\<Sum>b \<leftarrow> map (\<lambda>(_, bi). bi_block bi) (fmap_range (\<lambda>k. br_round k = r) (recent_blocks ds)).
            stk (ds_committee ds) (vb_author b)) \<le> u64_max)"

lemma universeD:
  assumes "block_universe c byz U" "U r = Some b"
  shows "reference b = r" "vb_round b = br_round r" "vb_author b = br_author r"
    "0 < br_round r \<Longrightarrow> linked_block c b" "br_round r = 0 \<Longrightarrow> vb_ancestors b = []"
    "\<And>a. a \<in> set (vb_ancestors b) \<Longrightarrow> br_round a < br_round r \<and> is_valid_index c (br_author a)"
proof -
  have b: "reference b = r \<and> (if br_round r = 0 then vb_ancestors b = [] else linked_block c b)"
    using assms unfolding block_universe_def by blast
  show r: "reference b = r" "0 < br_round r \<Longrightarrow> linked_block c b" "br_round r = 0 \<Longrightarrow> vb_ancestors b = []"
    using b by auto
  show "\<And>a. a \<in> set (vb_ancestors b) \<Longrightarrow> br_round a < br_round r \<and> is_valid_index c (br_author a)"
    using b by (auto simp: linked_block_def split: if_splits)
  show "vb_round b = br_round r" "vb_author b = br_author r" using r(1) by auto
qed

lemma viewD:
  assumes "view_of U ds"
  shows "dag_inv ds" "\<And>r b. get_block ds r = Some b \<Longrightarrow> U r = Some b"
    "\<And>r b a. get_block ds r = Some b \<Longrightarrow> a \<in> set (vb_ancestors b) \<Longrightarrow> gc_round ds < br_round a \<Longrightarrow> get_block ds a = U a"
    "\<And>r b. get_block ds r = Some b \<Longrightarrow> gc_round ds < br_round r \<Longrightarrow> cached_block ds r = Some b"
proof -
  show "dag_inv ds" "\<And>r b. get_block ds r = Some b \<Longrightarrow> U r = Some b"
    "\<And>r b. get_block ds r = Some b \<Longrightarrow> gc_round ds < br_round r \<Longrightarrow> cached_block ds r = Some b"
    using assms by (auto simp: view_of_def)
  fix r b a assume "get_block ds r = Some b" "a \<in> set (vb_ancestors b)" "gc_round ds < br_round a"
  then have "get_block ds a \<noteq> None" using assms unfolding view_of_def by blast
  then show "get_block ds a = U a" using assms unfolding view_of_def by fastforce
qed

text \<open>The cached blocks of a round and of a slot.\<close>

lemma cached_get:
  assumes "view_of U ds" "cached_block ds r = Some b"
  shows "get_block ds r = Some b" "U r = Some b"
proof -
  have "0 < br_round r" using viewD(1) [OF assms(1)] assms(2) by (auto simp: dag_inv_def cache_inv_def)
  then show "get_block ds r = Some b" using assms(2) by (simp add: get_block_eq)
  then show "U r = Some b" by (rule viewD(2) [OF assms(1)])
qed

lemma round_range: "BlockRef r 0 digest_min \<le> k \<and> k < BlockRef (r + 1) 0 digest_min \<longleftrightarrow> br_round k = r"
  by (auto simp: less_eq_block_ref_def less_block_ref_iff digest_min_def)

lemma cached_range_blocks:
  assumes "view_of U ds"
  shows "set (map (\<lambda>(_, bi). bi_block bi) (fmap_range P (recent_blocks ds)))
      = {b. cached_block ds (reference b) = Some b \<and> P (reference b)}"
    and "distinct (map (\<lambda>(_, bi). bi_block bi) (fmap_range P (recent_blocks ds)))"
proof -
  let ?xs = "fmap_range P (recent_blocks ds)"
  have key: "reference (bi_block bi) = k" if "(k, bi) \<in> set ?xs" for k bi
    using that viewD(1) [OF assms] by (auto simp: dag_inv_def cache_inv_def cached_block_def)
  show "set (map (\<lambda>(_, bi). bi_block bi) ?xs) = {b. cached_block ds (reference b) = Some b \<and> P (reference b)}"
  proof (intro equalityI subsetI)
    fix b assume "b \<in> set (map (\<lambda>(_, bi). bi_block bi) ?xs)"
    then obtain k bi where k: "(k, bi) \<in> set ?xs" "b = bi_block bi" by auto
    then show "b \<in> {b. cached_block ds (reference b) = Some b \<and> P (reference b)}"
      using key [OF k(1)] by (auto simp: cached_block_def)
  next
    fix b assume "b \<in> {b. cached_block ds (reference b) = Some b \<and> P (reference b)}"
    then obtain bi where "(reference b, bi) \<in> set ?xs" "bi_block bi = b"
      by (auto simp: cached_block_Some)
    then show "b \<in> set (map (\<lambda>(_, bi). bi_block bi) ?xs)" by force
  qed
  have "map reference (map (\<lambda>(_, bi). bi_block bi) ?xs) = map fst ?xs"
    using key by (auto simp: comp_def)
  moreover have "distinct (map fst ?xs)"
    using fmap_range_sorted [of P "recent_blocks ds"] by (simp add: strict_sorted_iff)
  ultimately show "distinct (map (\<lambda>(_, bi). bi_block bi) ?xs)"
    by (metis distinct_map)
qed

lemma blocks_at_round:
  assumes "view_of U ds" "last_commit_round ds < r"
  obtains bs where "get_uncommitted_blocks_at_round ds r = Inr bs"
    "set bs = {b. cached_block ds (reference b) = Some b \<and> vb_round b = r}"
    "(\<Sum>b \<leftarrow> bs. stk (ds_committee ds) (vb_author b)) \<le> u64_max"
proof -
  let ?bs = "map (\<lambda>(_, bi). bi_block bi) (fmap_range (\<lambda>k. br_round k = r) (recent_blocks ds))"
  have "get_uncommitted_blocks_at_round ds r = Inr ?bs"
    using assms(2) unfolding get_uncommitted_blocks_at_round_def round_range by simp
  moreover have "set ?bs = {b. cached_block ds (reference b) = Some b \<and> vb_round b = r}"
    unfolding cached_range_blocks(1) [OF assms(1)] by simp
  moreover have "(\<Sum>b \<leftarrow> ?bs. stk (ds_committee ds) (vb_author b)) \<le> u64_max"
    using assms(1) unfolding view_of_def by blast
  ultimately show thesis by (rule that)
qed

lemma blocks_at_slot:
  assumes "view_of U ds"
  shows "set (get_uncommitted_blocks_at_slot ds s) = {b. cached_block ds (reference b) = Some b \<and> slot_of_ref (reference b) = s}"
    and "distinct (get_uncommitted_blocks_at_slot ds s)"
proof -
  have "slot_refs s = (\<lambda>k. slot_of_ref k = s)"
    by (cases s) (auto simp: fun_eq_iff slot_refs_def block_ref_slot_range slot_of_ref_def)
  then have "get_uncommitted_blocks_at_slot ds s = map (\<lambda>(_, bi). bi_block bi) (fmap_range (\<lambda>k. slot_of_ref k = s) (recent_blocks ds))"
    unfolding get_uncommitted_blocks_at_slot_def by simp
  then show "set (get_uncommitted_blocks_at_slot ds s) = {b. cached_block ds (reference b) = Some b \<and> slot_of_ref (reference b) = s}"
    "distinct (get_uncommitted_blocks_at_slot ds s)"
    using cached_range_blocks [OF assms] by simp_all
qed

subsection \<open>Votes, certificates and blames\<close>

text \<open>Whether a reference is a vote for the leader block, and a block a certificate.\<close>

definition votes_for :: "(block_ref \<Rightarrow> verified_block option) \<Rightarrow> verified_block \<Rightarrow> block_ref \<Rightarrow> bool" where
  "votes_for U L r \<longleftrightarrow> (\<exists>v. U r = Some v \<and> reference L \<in> set (vb_ancestors v))"

definition certifies ::
  "committee \<Rightarrow> (block_ref \<Rightarrow> verified_block option) \<Rightarrow> verified_block \<Rightarrow> verified_block \<Rightarrow> bool" where
  "certifies c U L b \<longleftrightarrow> quorum_threshold c \<le> weight c (br_author ` {a \<in> set (vb_ancestors b). votes_for U L a})"

lemma distinct_ancestor:
  assumes "linked_block c b" "a \<in> set (vb_ancestors b)" "a' \<in> set (vb_ancestors b)" "br_author a = br_author a'"
  shows "a = a'"
  using assms by (auto simp: linked_block_def distinct_map inj_on_def)

lemma find_slot_ancestor:
  assumes "linked_block c b" "slot_of_ref r = s"
  shows "find (\<lambda>a. slot_of_ref a = s) (vb_ancestors b) = Some r \<longleftrightarrow> r \<in> set (vb_ancestors b)"
proof
  assume "find (\<lambda>a. slot_of_ref a = s) (vb_ancestors b) = Some r"
  then show "r \<in> set (vb_ancestors b)" by (auto simp: find_Some_iff)
next
  assume r: "r \<in> set (vb_ancestors b)"
  then obtain r' where f: "find (\<lambda>a. slot_of_ref a = s) (vb_ancestors b) = Some r'"
    using assms(2) by (cases "find (\<lambda>a. slot_of_ref a = s) (vb_ancestors b)") (auto simp: find_None_iff)
  then have "r' \<in> set (vb_ancestors b)" "slot_of_ref r' = s" by (auto simp: find_Some_iff)
  with r assms have "r' = r" by (intro distinct_ancestor [OF assms(1)]) (auto simp: slot_of_ref_def)
  with f show "find (\<lambda>a. slot_of_ref a = s) (vb_ancestors b) = Some r" by simp
qed

lemma is_vote_eq:
  assumes "linked_block c b" "vb_round b \<le> vb_round L + 1"
  shows "is_vote ds b L = run_return (reference L \<in> set (vb_ancestors b))"
proof -
  let ?s = "slot_of_ref (reference L)"
  have s: "slot_round ?s = vb_round L" by (simp add: slot_of_ref_def)
  have low: "br_round a \<le> vb_round L" if "a \<in> set (vb_ancestors b)" for a
    using that assms by (fastforce simp: linked_block_def)
  have "find_supported_block ds ?s b = run_return (if vb_round b < vb_round L then None
      else find (\<lambda>a. slot_of_ref a = ?s) (vb_ancestors b))"
    unfolding find_supported_block.simps [of ds ?s b] s
    by (auto intro!: run_find_map_return simp: low s)
  moreover have "reference L \<notin> set (vb_ancestors b)" if "vb_round b < vb_round L"
    using that assms(1) by (fastforce simp: linked_block_def)
  ultimately show ?thesis
    using find_slot_ancestor [OF assms(1) refl, of "reference L"] by (auto simp: is_vote_def)
qed

definition votes_sound :: "(block_ref \<Rightarrow> verified_block option) \<Rightarrow> verified_block \<Rightarrow> vote_cache \<Rightarrow> bool" where
  "votes_sound U L cache \<longleftrightarrow> (\<forall>r v. fmlookup cache r = Some v \<longrightarrow> v = votes_for U L r)"

text \<open>The context of a decision on a slot of round \<open>R\<close> by a correct node.\<close>

definition deciding ::
  "committee \<Rightarrow> authority_index set \<Rightarrow> (block_ref \<Rightarrow> verified_block option) \<Rightarrow> dag_state \<Rightarrow> round_number \<Rightarrow> bool" where
  "deciding c byz U ds R \<longleftrightarrow> block_universe c byz U \<and> view_of U ds \<and> ds_committee ds = c
     \<and> last_commit_round ds \<le> R \<and> gc_round ds < R \<and> R + 3 < 2 ^ 32"

lemma decidingD:
  assumes "deciding c byz U ds R"
  shows "block_universe c byz U" "view_of U ds" "ds_committee ds = c" "last_commit_round ds \<le> R" "gc_round ds < R"
    "R + 3 < 2 ^ 32" "committee_wf c" "committee_base c" "0 < R"
  using assms committee_wf_base by (auto simp: deciding_def block_universe_def)

lemma vote_lookup:
  assumes "deciding c byz U ds (vb_round L)" "get_block ds r = Some b" "br_round r \<le> vb_round L + 2"
    and "a \<in> set (vb_ancestors b)"
  shows "(case get_block ds a of
      Some potential_vote \<Rightarrow> is_vote ds potential_vote L
    | None \<Rightarrow> Some (rbind (rassert (br_round a \<le> gc_round ds) BlockMissingInDag) (\<lambda>_. Inr False)))
    = run_return (votes_for U L a)"
proof -
  note d = decidingD [OF assms(1)]
  have Ub: "U r = Some b" using viewD(2) [OF d(2) assms(2)] .
  have low: "br_round a \<le> vb_round L + 1" using universeD(6) [OF d(1) Ub assms(4)] assms(3) by simp
  show ?thesis
  proof (cases "get_block ds a")
    case None
    then have gc: "br_round a \<le> gc_round ds"
      using d(2) assms(2,4) unfolding view_of_def by (meson not_le)
    have "\<not> votes_for U L a"
    proof
      assume "votes_for U L a"
      then obtain v where v: "U a = Some v" "reference L \<in> set (vb_ancestors v)" by (auto simp: votes_for_def)
      from universeD(6) [OF d(1) v] gc d(5) show False by simp
    qed
    then show ?thesis using None gc by (simp add: run_return_def)
  next
    case (Some v)
    have Uv: "U a = Some v" using viewD(2) [OF d(2) Some] .
    have "is_vote ds v L = run_return (reference L \<in> set (vb_ancestors v))"
    proof (cases "br_round a = 0")
      case True
      then have "vb_round v < vb_round L" using universeD(2) [OF d(1) Uv] d(9) by simp
      then have "find_supported_block ds (slot_of_ref (reference L)) v = run_return None"
        by (subst find_supported_block.simps) (simp add: slot_of_ref_def)
      then show ?thesis using universeD(5) [OF d(1) Uv True] by (simp add: is_vote_def)
    next
      case False
      then show ?thesis
        using universeD(2,4) [OF d(1) Uv] low by (intro is_vote_eq [of c]) auto
    qed
    then show ?thesis using Some Uv by (auto simp: votes_for_def)
  qed
qed

lemma certificate_step_ok:
  assumes "deciding c byz U ds (vb_round L)" "get_block ds r = Some b" "br_round r \<le> vb_round L + 2"
    and "a \<in> set (vb_ancestors b)" "votes_sound U L cache" "aggregator_inv c agg"
  shows "\<exists>cache' agg'. votes_sound U L cache' \<and> aggregator_inv c agg'
    \<and> fset (votes agg') = (if votes_for U L a then insert (br_author a) (fset (votes agg)) else fset (votes agg))
    \<and> certificate_step ds L a (cache, agg) = run_return (votes_for U L a
        \<and> quorum_threshold c \<le> weight c (insert (br_author a) (fset (votes agg))), cache', agg')"
proof -
  note d = decidingD [OF assms(1)]
  have "is_valid_index c (br_author a)"
    using universeD(6) [OF d(1) viewD(2) [OF d(2) assms(2)] assms(4)] by simp
  from run_add_vote [OF d(8) assms(6) this] obtain agg' where agg: "aggregator_inv c agg'"
    "fset (votes agg') = insert (br_author a) (fset (votes agg))"
    "Some (aggregator_add quorum_is_threshold (br_author a) c agg)
      = run_return (quorum_threshold c \<le> weight c (insert (br_author a) (fset (votes agg))), agg')"
    by blast
  define cache' where "cache' = (if fmlookup cache a = None then fmupd a (votes_for U L a) cache else cache)"
  have "votes_sound U L cache'" using assms(5) by (auto simp: cache'_def votes_sound_def)
  moreover have "(case fmlookup cache a of
         Some v \<Rightarrow> run_return (v, cache)
       | None \<Rightarrow>
           run_bind (case get_block ds a of
               Some potential_vote \<Rightarrow> is_vote ds potential_vote L
             | None \<Rightarrow> Some (rbind (rassert (br_round a \<le> gc_round ds) BlockMissingInDag) (\<lambda>_. Inr False))) (\<lambda>v.
           run_return (v, fmupd a v cache))) = run_return (votes_for U L a, cache')"
    unfolding vote_lookup [OF assms(1-4)]
    using assms(5) by (auto simp: cache'_def votes_sound_def split: option.split)
  ultimately show ?thesis
    using agg assms(6) d(3)
    by (intro exI [of _ cache'] exI [of _ "if votes_for U L a then agg' else agg"])
      (simp add: certificate_step_def)
qed

lemma is_certificate_eq:
  assumes "deciding c byz U ds (vb_round L)" "get_block ds (reference b) = Some b" "vb_round b \<le> vb_round L + 2"
    and "votes_sound U L cache"
  shows "\<exists>cache'. is_certificate ds b L cache = run_return (certifies c U L b, cache') \<and> votes_sound U L cache'"
proof -
  note d = decidingD [OF assms(1)]
  let ?I = "\<lambda>(cache, agg). votes_sound U L cache \<and> aggregator_inv c agg"
  let ?V = "\<lambda>(cache, agg). fset (votes agg)"
  have "0 < quorum_threshold c" using d(7) by (rule quorum_positive)
  have "\<exists>s'. run_until (certificate_step ds L) (vb_ancestors b) (cache, aggregator_new) =
      run_return (quorum_threshold c \<le> weight c (?V (cache, aggregator_new)
        \<union> br_author ` {a \<in> set (vb_ancestors b). votes_for U L a}), s') \<and> ?I s'"
  proof (rule run_until_quorum)
    fix a s assume a: "a \<in> set (vb_ancestors b)" and s: "?I s"
    obtain cache1 agg1 where s1: "s = (cache1, agg1)" by (cases s)
    from certificate_step_ok [OF assms(1,2) _ a, of cache1 agg1] s assms(3)
    show "\<exists>s'. ?I s' \<and> ?V s' = (if votes_for U L a then insert (br_author a) (?V s) else ?V s)
        \<and> certificate_step ds L a s = run_return (votes_for U L a
          \<and> quorum_threshold c \<le> weight c (insert (br_author a) (?V s)), s')"
      unfolding s1 by auto
  qed (use assms(4) \<open>0 < quorum_threshold c\<close> in auto)
  then show ?thesis
    by (auto simp: is_certificate_def certifies_def)
qed

subsection \<open>The direct rule\<close>

text \<open>The authors that blame a slot, and those that certify a leader block, in the blocks of a node.\<close>

definition blamers :: "dag_state \<Rightarrow> slot \<Rightarrow> authority_index set" where
  "blamers ds s = vb_author ` {b. cached_block ds (reference b) = Some b \<and> vb_round b = slot_round s + 1
     \<and> (\<forall>a \<in> set (vb_ancestors b). br_author a \<noteq> slot_authority s)}"

definition certifiers ::
  "committee \<Rightarrow> (block_ref \<Rightarrow> verified_block option) \<Rightarrow> dag_state \<Rightarrow> verified_block \<Rightarrow> authority_index set" where
  "certifiers c U ds L = vb_author ` {b. cached_block ds (reference b) = Some b \<and> vb_round b = vb_round L + 2
     \<and> certifies c U L b}"

lemma cached_author:
  assumes "deciding c byz U ds R" "cached_block ds r = Some b"
  shows "is_valid_index c (vb_author b)" "get_block ds r = Some b" "U r = Some b" "reference b = r"
proof -
  note d = decidingD [OF assms(1)]
  show g: "get_block ds r = Some b" "U r = Some b" using cached_get [OF d(2) assms(2)] by auto
  have "0 < br_round r" using viewD(1) [OF d(2)] assms(2) by (auto simp: dag_inv_def cache_inv_def)
  then show "is_valid_index c (vb_author b)" using universeD(4) [OF d(1) g(2)] by (simp add: linked_block_def)
  show "reference b = r" by (rule universeD(1) [OF d(1) g(2)])
qed

lemma enough_leader_blame_eq:
  assumes "deciding c byz U ds (slot_round s)"
  shows "enough_leader_blame ds (slot_round s + 1) (slot_authority s)
    = run_return (quorum_threshold c \<le> weight c (blamers ds s))"
proof -
  note d = decidingD [OF assms]
  have "last_commit_round ds < slot_round s + 1" using d(4) by simp
  then obtain bs where bs: "get_uncommitted_blocks_at_round ds (slot_round s + 1) = Inr bs"
    "set bs = {b. cached_block ds (reference b) = Some b \<and> vb_round b = slot_round s + 1}"
    by (rule blocks_at_round [OF d(2)])
  let ?P = "\<lambda>b. \<forall>a \<in> set (vb_ancestors b). br_author a \<noteq> slot_authority s"
  have "\<exists>agg. run_until (blame_step c (slot_authority s)) bs aggregator_new =
      run_return (quorum_threshold c \<le> weight c (fset (votes aggregator_new) \<union> vb_author ` {b \<in> set bs. ?P b}), agg)
      \<and> aggregator_inv c agg"
  proof (rule run_until_quorum [where V = "\<lambda>agg. fset (votes agg)" and I = "aggregator_inv c"])
    fix b agg assume b: "b \<in> set bs" and agg: "aggregator_inv c agg"
    have "is_valid_index c (vb_author b)" using cached_author(1) [OF assms] b bs(2) by blast
    from run_add_vote [OF d(8) agg this] agg
    show "\<exists>agg'. aggregator_inv c agg'
        \<and> fset (votes agg') = (if ?P b then insert (vb_author b) (fset (votes agg)) else fset (votes agg))
        \<and> blame_step c (slot_authority s) b agg = run_return (?P b
          \<and> quorum_threshold c \<le> weight c (insert (vb_author b) (fset (votes agg))), agg')"
      by (cases "?P b") (auto simp: blame_step_def)
  qed (use quorum_positive [OF d(7)] in auto)
  moreover have "vb_author ` {b \<in> set bs. ?P b} = blamers ds s" unfolding bs(2) blamers_def by auto
  ultimately show ?thesis
    using bs(1) d(3) by (auto simp: enough_leader_blame_def)
qed

lemma weight_authors_le:
  "weight c (au ` {x \<in> set xs. P x}) \<le> (\<Sum>x \<leftarrow> xs. stk c (au x))"
proof (induction xs)
  case (Cons x xs)
  have "au ` {y \<in> set (x # xs). P y} \<subseteq> insert (au x) (au ` {y \<in> set xs. P y})" by auto
  then have "weight c (au ` {y \<in> set (x # xs). P y}) \<le> weight c (insert (au x) (au ` {y \<in> set xs. P y}))"
    by (intro weight_mono) auto
  also have "\<dots> \<le> stk c (au x) + weight c (au ` {y \<in> set xs. P y})"
    by (simp add: sum.insert_if)
  finally show ?case using Cons by simp
qed simp

lemma enough_leader_support_eq:
  assumes "deciding c byz U ds (vb_round L)"
  shows "enough_leader_support ds (vb_round L + 2) L = run_return (quorum_threshold c \<le> weight c (certifiers c U ds L))"
proof -
  note d = decidingD [OF assms]
  have "last_commit_round ds < vb_round L + 2" using d(4) by simp
  then obtain bs where bs: "get_uncommitted_blocks_at_round ds (vb_round L + 2) = Inr bs"
    "set bs = {b. cached_block ds (reference b) = Some b \<and> vb_round b = vb_round L + 2}"
    "(\<Sum>b \<leftarrow> bs. stk c (vb_author b)) \<le> u64_max"
    using d(3) by (elim blocks_at_round [OF d(2)]) simp
  let ?I = "\<lambda>(cache, agg). votes_sound U L cache \<and> aggregator_inv c agg"
  let ?V = "\<lambda>(cache, agg). fset (votes agg)"
  have b: "is_valid_index c (vb_author b)" "get_block ds (reference b) = Some b" "vb_round b \<le> vb_round L + 2"
    if "b \<in> set bs" for b
    using cached_author [OF assms] that bs(2) by auto
  have stakes: "rmap (\<lambda>b. committee_stake c (vb_author b)) bs = Inr (map (\<lambda>b. stk c (vb_author b)) bs)"
    by (rule rmap_total) (simp add: b(1))
  have "\<exists>s'. run_until (support_step ds L) bs (fmempty, aggregator_new) = run_return (quorum_threshold c
      \<le> weight c (?V (fmempty :: vote_cache, aggregator_new) \<union> vb_author ` {b \<in> set bs. certifies c U L b}), s') \<and> ?I s'"
  proof (rule run_until_quorum)
    fix x s assume x: "x \<in> set bs" and s: "?I s"
    obtain cache1 agg1 where s1: "s = (cache1, agg1)" by (cases s)
    have i: "votes_sound U L cache1" "aggregator_inv c agg1" using s s1 by auto
    obtain cache2 where 2: "is_certificate ds x L cache1 = run_return (certifies c U L x, cache2)" "votes_sound U L cache2"
      using is_certificate_eq [OF assms b(2,3) [OF x] i(1)] by auto
    from run_add_vote [OF d(8) i(2) b(1) [OF x]] i 2
    show "\<exists>s'. ?I s' \<and> ?V s' = (if certifies c U L x then insert (vb_author x) (?V s) else ?V s)
        \<and> support_step ds L x s = run_return (certifies c U L x
          \<and> quorum_threshold c \<le> weight c (insert (vb_author x) (?V s)), s')"
      unfolding s1 using d(3) by (cases "certifies c U L x") (auto simp: support_step_def)
  qed (use quorum_positive [OF d(7)] in \<open>auto simp: votes_sound_def\<close>)
  moreover have cs: "vb_author ` {b \<in> set bs. certifies c U L b} = certifiers c U ds L"
    unfolding bs(2) certifiers_def by auto
  moreover have "\<not> quorum_threshold c \<le> weight c (certifiers c U ds L)"
    if "\<not> quorum_threshold c \<le> (\<Sum>b \<leftarrow> bs. stk c (vb_author b))"
    using that weight_authors_le [of c vb_author bs "certifies c U L"] unfolding cs by linarith
  moreover have "wrap64 (\<Sum>b \<leftarrow> bs. stk c (vb_author b)) = (\<Sum>b \<leftarrow> bs. stk c (vb_author b))"
    using bs(3) by (simp add: u64_max_def)
  ultimately show ?thesis
    using bs(1) stakes d(3) by (auto simp: enough_leader_support_def reached_quorum_def)
qed

subsection \<open>Quorums of correct authorities\<close>

text \<open>A vote for a block of round \<open>R\<close> among the ancestors of a block of round \<open>R + 2\<close> is in the round between.\<close>

lemma vote_round:
  assumes "block_universe c byz U" "U r = Some b" "br_round r \<le> vb_round L + 2" "a \<in> set (vb_ancestors b)"
    and "U a = Some v" "reference L \<in> set (vb_ancestors v)"
  shows "br_round a = vb_round L + 1"
  using universeD(6) [OF assms(1,2,4)] universeD(6) [OF assms(1,5,6)] assms(3) by simp

lemma voters_members:
  assumes "block_universe c byz U" "U r = Some b"
  shows "br_author ` {a \<in> set (vb_ancestors b). P a} \<subseteq> members c"
  using universeD(6) [OF assms] by auto

lemma quorums_meet:
  assumes "block_universe c byz U" "A \<subseteq> members c" "B \<subseteq> members c"
    and "quorum_threshold c \<le> weight c A" "quorum_threshold c \<le> weight c B"
  shows "\<exists>p. p \<in> A \<and> p \<in> B \<and> p \<notin> byz"
proof -
  have "\<exists>p \<in> A \<inter> B. p \<notin> byz"
    using assms by (intro bft.quorums_share_correct [of c]) (auto simp: block_universe_def)
  then show ?thesis by blast
qed

lemma same_ref:
  assumes "block_universe c byz U" "U r = Some b" "U r' = Some b'" "br_round r = br_round r'"
    and "br_author r = br_author r'" "br_author r \<notin> byz"
  shows "r = r'"
  using assms unfolding block_universe_def by blast

text \<open>Two blocks of the same slot are not both certified.\<close>

lemma certified_unique:
  assumes "block_universe c byz U" "U r = Some b" "br_round r \<le> vb_round L + 2" "certifies c U L b"
    and "U r' = Some b'" "br_round r' \<le> vb_round L' + 2" "certifies c U L' b'"
    and "slot_of_ref (reference L) = slot_of_ref (reference L')"
  shows "reference L = reference L'"
proof -
  obtain p where p: "p \<in> br_author ` {a \<in> set (vb_ancestors b). votes_for U L a}"
    "p \<in> br_author ` {a \<in> set (vb_ancestors b'). votes_for U L' a}" "p \<notin> byz"
    using quorums_meet [OF assms(1) voters_members [OF assms(1,2)] voters_members [OF assms(1,5)]
        assms(4,7) [unfolded certifies_def]] by (elim exE conjE)
  obtain a v where a: "a \<in> set (vb_ancestors b)" "U a = Some v" "reference L \<in> set (vb_ancestors v)" "br_author a = p"
    using p(1) by (auto simp: votes_for_def)
  obtain a' v' where a': "a' \<in> set (vb_ancestors b')" "U a' = Some v'" "reference L' \<in> set (vb_ancestors v')" "br_author a' = p"
    using p(2) by (auto simp: votes_for_def)
  have LL: "vb_round L = vb_round L'" "vb_author L = vb_author L'" using assms(8) by (auto simp: slot_of_ref_def)
  have "br_round a = br_round a'"
    using vote_round [OF assms(1-3) a(1-3)] vote_round [OF assms(1,5,6) a'(1-3)] LL by simp
  then have "a = a'" using same_ref [OF assms(1) a(2) a'(2)] a(4) a'(4) p(3) by simp
  then have v: "v = v'" using a(2) a'(2) by simp
  have "0 < br_round a" using vote_round [OF assms(1-3) a(1-3)] by simp
  then have "linked_block c v" by (rule universeD(4) [OF assms(1) a(2)])
  then show ?thesis using a(3) a'(3) v LL by (intro distinct_ancestor [of c v]) auto
qed

text \<open>A slot blamed by a quorum has no certified block.\<close>

lemma blamed_not_certified:
  assumes "deciding c byz U ds (slot_round s)" "quorum_threshold c \<le> weight c (blamers ds s)"
    and "U r = Some b" "br_round r \<le> vb_round L + 2" "slot_of_ref (reference L) = s"
  shows "\<not> certifies c U L b"
proof
  assume cert: "certifies c U L b"
  note d = decidingD [OF assms(1)]
  have bm: "blamers ds s \<subseteq> members c" using cached_author(1) [OF assms(1)] by (auto simp: blamers_def)
  obtain p where p: "p \<in> blamers ds s" "p \<in> br_author ` {a \<in> set (vb_ancestors b). votes_for U L a}" "p \<notin> byz"
    using quorums_meet [OF d(1) bm voters_members [OF d(1) assms(3)] assms(2) cert [unfolded certifies_def]]
    by (elim exE conjE)
  obtain a v where a: "a \<in> set (vb_ancestors b)" "U a = Some v" "reference L \<in> set (vb_ancestors v)" "br_author a = p"
    using p(2) by (auto simp: votes_for_def)
  obtain x where x: "cached_block ds (reference x) = Some x" "vb_round x = slot_round s + 1"
    "\<forall>a \<in> set (vb_ancestors x). br_author a \<noteq> slot_authority s" "vb_author x = p"
    using p(1) by (auto simp: blamers_def)
  have L: "vb_round L = slot_round s" "vb_author L = slot_authority s" using assms(5) by (auto simp: slot_of_ref_def)
  have "br_round a = br_round (reference x)"
    using vote_round [OF d(1) assms(3,4) a(1-3)] x(2) L by simp
  then have "a = reference x"
    using same_ref [OF d(1) a(2) cached_author(3) [OF assms(1) x(1)]] a(4) x(4) p(3) by simp
  then have "v = x" using a(2) cached_author(3) [OF assms(1) x(1)] by simp
  then show False using a(3) x(3) L by force
qed

subsection \<open>The direct rule as a whole\<close>

definition supported ::
  "committee \<Rightarrow> (block_ref \<Rightarrow> verified_block option) \<Rightarrow> dag_state \<Rightarrow> slot \<Rightarrow> verified_block \<Rightarrow> bool" where
  "supported c U ds s L \<longleftrightarrow> cached_block ds (reference L) = Some L \<and> slot_of_ref (reference L) = s
     \<and> quorum_threshold c \<le> weight c (certifiers c U ds L)"

lemma supported_certified:
  assumes "deciding c byz U ds (slot_round s)" "supported c U ds s L"
  obtains b where "cached_block ds (reference b) = Some b" "vb_round b = slot_round s + 2" "certifies c U L b"
    "U (reference b) = Some b"
proof -
  have "certifiers c U ds L \<noteq> {}"
    using assms quorum_positive [OF decidingD(7) [OF assms(1)]] by (auto simp: supported_def)
  then obtain b where b: "cached_block ds (reference b) = Some b" "vb_round b = vb_round L + 2" "certifies c U L b"
    by (auto simp: certifiers_def)
  have r: "vb_round L = slot_round s" using assms(2) by (auto simp: supported_def slot_of_ref_def)
  show thesis by (rule that [OF b(1) _ b(3) cached_author(3) [OF assms(1) b(1)]]) (simp add: b(2) r)
qed

lemma supported_unique:
  assumes "deciding c byz U ds (slot_round s)" "supported c U ds s L"
    and "deciding c byz U ds' (slot_round s)" "supported c U ds' s L'"
  shows "L = L'"
proof -
  note d = decidingD [OF assms(1)]
  obtain b where b: "vb_round b = slot_round s + 2" "certifies c U L b" "U (reference b) = Some b"
    by (rule supported_certified [OF assms(1,2)])
  obtain b' where b': "vb_round b' = slot_round s + 2" "certifies c U L' b'" "U (reference b') = Some b'"
    by (rule supported_certified [OF assms(3,4)])
  have L: "slot_of_ref (reference L) = s" "U (reference L) = Some L" "slot_of_ref (reference L') = s" "U (reference L') = Some L'"
    using assms cached_author(3) [OF assms(1)] cached_author(3) [OF assms(3)] by (auto simp: supported_def)
  then have r: "vb_round L = slot_round s" "vb_round L' = slot_round s" by (auto simp: slot_of_ref_def)
  have "reference L = reference L'"
    by (rule certified_unique [OF d(1) b(3) _ b(2) b'(3) _ b'(2)]) (use b b' L r in auto)
  with L(2) have "U (reference L') = Some L" by (simp only:)
  then show ?thesis using L(4) by simp
qed

lemma at_most_one:
  assumes "distinct xs" "\<And>x y. x \<in> set xs \<Longrightarrow> y \<in> set xs \<Longrightarrow> x = y"
  shows "xs = [] \<or> (\<exists>x. xs = [x])"
proof (cases xs)
  case (Cons x ys)
  have "ys = []"
  proof (cases ys)
    case (Cons y zs)
    then have "x = y" using assms(2) [of x y] \<open>xs = x # ys\<close> by simp
    then show ?thesis using assms(1) Cons \<open>xs = x # ys\<close> by simp
  qed simp
  then show ?thesis using Cons by simp
qed simp

text \<open>The decision of the direct rule: blamed by a quorum, supported by a quorum of certificates, or neither.\<close>

lemma direct_decide_cases:
  assumes "deciding c byz U ds (slot_round s)"
    and "decision_round opts (wave_number opts (slot_round s)) = slot_round s + 2"
  shows "\<exists>st. base_try_direct_decide ds opts s = run_return st
    \<and> (st = Skip s \<and> quorum_threshold c \<le> weight c (blamers ds s)
       \<or> (\<exists>L. st = Commit L \<and> supported c U ds s L)
       \<or> st = Undecided s \<and> \<not> quorum_threshold c \<le> weight c (blamers ds s) \<and> (\<nexists>L. supported c U ds s L))"
proof -
  note d = decidingD [OF assms(1)]
  let ?bs = "get_uncommitted_blocks_at_slot ds s"
  have w: "wrap32 (slot_round s + 1) = slot_round s + 1" using d(6) by simp
  have blame: "enough_leader_blame ds (wrap32 (slot_round s + 1)) (slot_authority s)
      = run_return (quorum_threshold c \<le> weight c (blamers ds s))"
    unfolding w by (rule enough_leader_blame_eq [OF assms(1)])
  have "enough_leader_support ds (slot_round s + 2) L = run_return (quorum_threshold c \<le> weight c (certifiers c U ds L))"
    if "L \<in> set ?bs" for L
  proof -
    have "vb_round L = slot_round s" using that blocks_at_slot(1) [OF d(2)] by (auto simp: slot_of_ref_def)
    then show ?thesis using enough_leader_support_eq [of c byz U ds L] assms(1) by simp
  qed
  then have supp: "run_filter (enough_leader_support ds (slot_round s + 2)) ?bs
      = run_return (filter (\<lambda>L. quorum_threshold c \<le> weight c (certifiers c U ds L)) ?bs)"
    by (rule run_filter_return)
  let ?xs = "filter (\<lambda>L. quorum_threshold c \<le> weight c (certifiers c U ds L)) ?bs"
  have xs: "L \<in> set ?xs \<longleftrightarrow> supported c U ds s L" for L
    using blocks_at_slot(1) [OF d(2), of s] by (auto simp: supported_def)
  have "?xs = [] \<or> (\<exists>L. ?xs = [L])"
    using blocks_at_slot(2) [OF d(2), of s] supported_unique [OF assms(1) _ assms(1)] unfolding xs
    by (intro at_most_one) (auto simp: xs [symmetric])
  then show ?thesis
  proof (elim disjE exE)
    assume e: "?xs = []"
    then have "\<nexists>L. supported c U ds s L" using xs by (metis list.set(1) empty_iff)
    then show ?thesis
      unfolding base_try_direct_decide_def blame assms(2) Let_def supp e by simp
  next
    fix L assume e: "?xs = [L]"
    then have "supported c U ds s L" using xs [of L] by simp
    then show ?thesis
      unfolding base_try_direct_decide_def blame assms(2) Let_def supp e by auto
  qed
qed

end
