(* ===== verification/Demo_Rounds.thy ===== *)
theory Demo_Rounds
  imports Commit_Votes Dag_Correct
begin

section \<open>Example rounds\<close>

text \<open>
  The input of the witnesses on the commit rule: a node that has accepted the blocks of authorities
  1, 2 and 3 of a number of rounds, each with the blocks of the round before as ancestors, while
  authority 0 is silent.
\<close>

definition demo_block :: "round_number \<Rightarrow> authority_index \<Rightarrow> verified_block" where
  "demo_block r a = demo_vb r a 0 r (map (\<lambda>p. BlockRef (r - 1) p 0) (a # filter (\<lambda>p. p \<noteq> a) [1, 2, 3]))"

definition demo_push :: "verified_block \<Rightarrow> dag_state \<Rightarrow> dag_state" where
  "demo_push b ds = (insert_cached b ds)\<lparr>blocks_to_write := blocks_to_write ds @ [b],
     highest_accepted_round := max (highest_accepted_round ds) (vb_round b)\<rparr>"

primrec demo_rounds :: "nat \<Rightarrow> dag_state" where
  "demo_rounds 0 = demo_dag"
| "demo_rounds (Suc n) = demo_push (demo_block (Suc n) 3) (demo_push (demo_block (Suc n) 2)
     (demo_push (demo_block (Suc n) 1) (demo_rounds n)))"

lemma demo_block_simps [simp]:
  "vb_round (demo_block r a) = r" "vb_author (demo_block r a) = a" "reference (demo_block r a) = BlockRef r a 0"
  "vb_digest (demo_block r a) = 0"
  "vb_ancestors (demo_block r a) = map (\<lambda>p. BlockRef (r - 1) p 0) (a # filter (\<lambda>p. p \<noteq> a) [1, 2, 3])"
  by (simp_all add: demo_block_def)

lemma demo_push_simps [simp]:
  "ds_context (demo_push b ds) = ds_context ds" "genesis (demo_push b ds) = genesis ds"
  "ds_store (demo_push b ds) = ds_store ds" "last_commit (demo_push b ds) = last_commit ds"
  "cached_block (demo_push b ds) = (cached_block ds)(reference b := Some b)"
  "highest_accepted_round (demo_push b ds) = max (highest_accepted_round ds) (vb_round b)"
  "recent_blocks (demo_push b ds) = fmupd (reference b) (block_info_new b) (recent_blocks ds)"
  by (simp_all add: demo_push_def cached_block_def fun_eq_iff insert_cached_def block_info_new_def)

lemma demo_push_inv:
  assumes "dag_inv ds" "is_valid_index (ds_committee ds) (vb_author b)" "0 < vb_round b"
    and "get_block ds (reference b) = None"
  shows "dag_inv (demo_push b ds)"
proof -
  have c: "cache_inv ds" "genesis_inv ds" "store_inv ds" using assms(1) by (simp_all add: dag_inv_def)
  have i: "cache_inv (insert_cached b ds)" by (rule insert_cached_inv [OF c(1) assms(2,3)])
  have "store_inv ((insert_cached b ds)\<lparr>blocks_to_write := blocks_to_write ds @ [b]\<rparr>)"
    by (rule insert_cached_store_inv [OF c(1,3) assms(4,3)])
  then have "store_inv (demo_push b ds)"
    by (simp add: demo_push_def store_inv_def cached_block_def)
  moreover have "cache_inv (demo_push b ds)"
    by (rule cache_inv_transfer [OF i]) (simp_all add: demo_push_def cache_inv_simps [OF c(1)])
  moreover have "genesis_inv (demo_push b ds)" by (rule genesis_inv_transfer [OF c(2)]) simp_all
  ultimately show ?thesis by (simp add: dag_inv_def)
qed

lemma demo_rounds_simps [simp]:
  "ds_context (demo_rounds n) = demo_context" "ds_store (demo_rounds n) = mem_store_new"
  "genesis (demo_rounds n) = genesis demo_dag" "last_commit (demo_rounds n) = None"
  "highest_accepted_round (demo_rounds n) = n" "last_commit_round (demo_rounds n) = 0"
  "gc_round (demo_rounds n) = 0"
proof (induction n)
  case 0
  case 5
  then show ?case by (simp add: demo_dag_def)
qed (simp_all add: last_commit_round_def gc_round_def calculate_gc_round_def)

definition demo_ref :: "nat \<Rightarrow> block_ref \<Rightarrow> bool" where
  "demo_ref n r \<longleftrightarrow> 0 < br_round r \<and> br_round r \<le> n \<and> br_author r \<in> {1, 2, 3} \<and> br_digest r = 0"

lemma demo_rounds_cached:
  "cached_block (demo_rounds n) r = (if demo_ref n r then Some (demo_block (br_round r) (br_author r)) else None)"
proof (induction n)
  case (Suc n)
  obtain k a d where r: "r = BlockRef k a d" by (cases r)
  have "demo_ref (Suc n) r \<longleftrightarrow> demo_ref n r \<or> k = Suc n \<and> a \<in> {1, 2, 3} \<and> d = 0"
    by (auto simp: demo_ref_def r)
  moreover have "k = Suc n \<Longrightarrow> \<not> demo_ref n r" by (simp add: demo_ref_def r)
  ultimately show ?case
    unfolding demo_rounds.simps demo_push_simps fun_upd_apply Suc.IH demo_block_simps unfolding r
    by (simp split: if_split)
qed (auto simp: demo_ref_def)

lemma demo_rounds_get:
  "get_block (demo_rounds n) r =
    (if br_round r = 0 then if br_author r < 4 \<and> br_digest r = 0 then Some (demo_vb 0 (br_author r) 0 0 []) else None
     else if demo_ref n r then Some (demo_block (br_round r) (br_author r)) else None)"
proof -
  have "fmlookup (genesis demo_dag) r = (if br_author r < 4 \<and> br_digest r = 0 then Some (demo_vb 0 (br_author r) 0 0 []) else None)"
    if "br_round r = 0"
    using that by (cases r) (auto simp: demo_dag_def fmlookup_of_list)
  then show ?thesis
    by (simp add: get_block_eq demo_rounds_cached read_block_def mem_store_new_def)
qed

lemma demo_rounds_inv: "dag_inv (demo_rounds n)"
proof (induction n)
  case 0
  then show ?case by (simp add: demo_dag_inv)
next
  case (Suc n)
  have get: "get_block (demo_push b ds) r = (if r = reference b then Some b else get_block ds r)" if "0 < vb_round b" for b ds r
    using that by (auto simp: get_block_eq reference_def split: option.split)
  have none: "get_block (demo_rounds n) (BlockRef (Suc n) a 0) = None" for a
    by (simp add: demo_rounds_get demo_ref_def)
  show ?case
    unfolding demo_rounds.simps
    by (intro demo_push_inv Suc.IH) (simp_all add: get none)
qed

lemma demo_block_linked:
  assumes "0 < r" "a \<in> {1, 2, 3}"
  shows "linked_block demo_committee (demo_block r a)"
proof -
  have p: "parent_authors r (vb_ancestors (demo_block r a)) = {1, 2, 3}"
  proof -
    have "{x \<in> set (vb_ancestors (demo_block r a)). br_round x + 1 = r} = set (vb_ancestors (demo_block r a))"
      using assms(1) by auto
    then have "parent_authors r (vb_ancestors (demo_block r a)) = set (a # filter (\<lambda>p. p \<noteq> a) [1, 2, 3])"
      by (simp only: parent_authors_def demo_block_simps set_map image_image block_ref.sel image_ident)
    then show ?thesis using assms(2) by auto
  qed
  have "is_valid_index demo_committee a" "distinct (map br_author (vb_ancestors (demo_block r a)))"
    "\<forall>x \<in> set (vb_ancestors (demo_block r a)). is_valid_index demo_committee (br_author x) \<and> br_round x < r"
    using assms by auto
  moreover have "quorum_threshold demo_committee \<le> weight demo_committee {1, 2, 3}"
    by (simp add: demo_thresholds demo_stk)
  ultimately show ?thesis unfolding linked_block_def demo_block_simps(1,2) p by blast
qed

lemma demo_universe: "block_universe demo_committee {} (get_block (demo_rounds n))"
  unfolding block_universe_def
proof (intro conjI allI impI)
  fix r b assume b: "get_block (demo_rounds n) r = Some b"
  show "reference b = r" by (rule get_block_reference [OF demo_rounds_inv b])
  show "if br_round r = 0 then vb_ancestors b = [] else linked_block demo_committee b"
  proof (cases "br_round r = 0")
    case True
    then show ?thesis using b by (auto simp: demo_rounds_get split: if_splits)
  next
    case False
    then have "demo_ref n r" "b = demo_block (br_round r) (br_author r)"
      using b by (auto simp: demo_rounds_get split: if_splits)
    then show ?thesis using False demo_block_linked by (simp add: demo_ref_def)
  qed
next
  fix r r' assume "get_block (demo_rounds n) r \<noteq> None" "get_block (demo_rounds n) r' \<noteq> None"
    "br_round r = br_round r'" "br_author r = br_author r'"
  then show "r = r'"
    by (cases r; cases r') (auto simp: demo_rounds_get demo_ref_def split: if_splits)
qed (simp_all add: demo_committee_wf demo_thresholds)

lemma demo_rounds_few:
  "(\<Sum>b \<leftarrow> map (\<lambda>(_, bi). bi_block bi) (fmap_range P (recent_blocks (demo_rounds n))). stk demo_committee (vb_author b)) \<le> 3 * n"
proof -
  have f: "fcard (fmdom (recent_blocks (demo_rounds n))) \<le> 3 * n"
  proof (induction n)
    case (Suc n)
    have "fcard (finsert a (finsert b (finsert c S))) \<le> fcard S + 3" for a b c :: block_ref and S
      by (simp add: fcard_finsert_if)
    from order_trans [OF this] Suc.IH show ?case by simp
  qed simp
  have l: "length (fmap_range P (recent_blocks (demo_rounds n))) \<le> 3 * n"
  proof -
    have "length (sorted_list_of_fset F) = fcard F" for F :: "block_ref fset"
      by (simp add: fcard.rep_eq sorted_list_of_fset.rep_eq)
    then have "length (fmap_range P m) \<le> fcard (fmdom m)" for m :: "(block_ref, block_info) fmap"
      unfolding fmap_range_def using length_filter_le [of _ "sorted_list_of_fmap m"]
      by (simp add: sorted_list_of_fmap_def)
    from order_trans [OF this f] show ?thesis .
  qed
  have small: "(\<Sum>x \<leftarrow> xs. stk demo_committee (f x)) \<le> length xs" for f and xs :: "verified_block list"
    by (induction xs) (auto simp: demo_stk)
  show ?thesis by (rule order_trans [OF small]) (use l in simp)
qed

lemma demo_view:
  assumes "m \<le> n" "n < 2 ^ 32"
  shows "view_of (get_block (demo_rounds n)) (demo_rounds m)"
  unfolding view_of_def
proof (intro conjI allI impI)
  fix r b assume b: "get_block (demo_rounds m) r = Some b"
  show "get_block (demo_rounds n) r = Some b"
    using b assms(1) by (auto simp: demo_rounds_get demo_ref_def split: if_splits)
  show "cached_block (demo_rounds m) r = Some b" if "gc_round (demo_rounds m) < br_round r"
    using b that by (auto simp: demo_rounds_get demo_rounds_cached split: if_splits)
  fix a assume "a \<in> set (vb_ancestors b)" "gc_round (demo_rounds m) < br_round a"
  then show "get_block (demo_rounds m) a \<noteq> None"
    using b by (auto simp: demo_rounds_get demo_ref_def split: if_splits)
next
  fix r
  show "(\<Sum>b \<leftarrow> map (\<lambda>(_, bi). bi_block bi) (fmap_range (\<lambda>k. br_round k = r) (recent_blocks (demo_rounds m))).
      stk (ds_committee (demo_rounds m)) (vb_author b)) \<le> u64_max"
    using order_trans [OF demo_rounds_few [of "\<lambda>k. br_round k = r" m], of u64_max] assms
    by (simp add: u64_max_def)
qed (rule demo_rounds_inv)

end
