(* ===== verification/Commit_Rule.thy ===== *)
theory Commit_Rule
  imports Commit_Votes Demo_Rounds
begin

section \<open>The indirect rule, and agreement of the two rules\<close>

text \<open>
  The walk of \<open>DagState::ancestors_at_round\<close> ends and returns a round of the causal history; the
  indirect rule commits the block of a slot that is certified in the history of the anchor. The
  rules of two nodes never contradict each other on a slot.
\<close>

subsection \<open>The walk to an earlier round\<close>

text \<open>The order of references is well-founded, so that replacing the last one by earlier ones ends.\<close>

lemma wf_block_ref: "wf {(a, b :: block_ref). a < b}"
proof (rule wf_subset)
  show "wf (inv_image (less_than <*lex*> less_than <*lex*> less_than)
      (\<lambda>r. (br_round r, br_author r, unat (br_digest r))))"
    by (intro wf_inv_image wf_lex_prod wf_less_than)
  show "{(a, b :: block_ref). a < b} \<subseteq> inv_image (less_than <*lex*> less_than <*lex*> less_than)
      (\<lambda>r. (br_round r, br_author r, unat (br_digest r)))"
    by (auto simp: less_block_ref_iff word_less_nat_alt)
qed

definition links :: "(block_ref \<Rightarrow> verified_block option) \<Rightarrow> block_ref \<Rightarrow> block_ref set" where
  "links f r = (case f r of Some b \<Rightarrow> set (vb_ancestors b) | None \<Rightarrow> {})"

abbreviation from_round :: "round_number \<Rightarrow> block_ref set" where
  "from_round e \<equiv> {r. e \<le> br_round r}"

text \<open>The references of round \<open>e\<close> that are linked from a set of references through later blocks.\<close>

definition linked_at :: "(block_ref \<Rightarrow> verified_block option) \<Rightarrow> round_number \<Rightarrow> block_ref set \<Rightarrow> block_ref set" where
  "linked_at f e S = {r \<in> reach (links f) (from_round e) S. br_round r = e}"

text \<open>Every block on the way is there, and links to earlier rounds.\<close>

definition walkable :: "(block_ref \<Rightarrow> verified_block option) \<Rightarrow> round_number \<Rightarrow> block_ref set \<Rightarrow> bool" where
  "walkable f e S \<longleftrightarrow> (\<forall>r \<in> reach (links f) (from_round e) S.
     f r \<noteq> None \<and> (\<forall>a \<in> links f r. br_round a < br_round r))"

lemma reach_replace:
  assumes "m \<in> S" "m \<in> U"
  shows "reach succ U (succ m \<union> (S - {m})) \<subseteq> reach succ U S"
    and "reach succ U S \<subseteq> insert m (reach succ U (succ m \<union> (S - {m})))"
proof -
  have m: "m \<in> reach succ U S" using assms by (rule reach_start)
  have "x \<in> reach succ U S" if "x \<in> reach succ U (succ m \<union> (S - {m}))" for x
    using that by induction (auto intro: reach_start reach_step reach_step [OF m])
  then show "reach succ U (succ m \<union> (S - {m})) \<subseteq> reach succ U S" by blast
  have "x = m \<or> x \<in> reach succ U (succ m \<union> (S - {m}))" if "x \<in> reach succ U S" for x
    using that by induction (auto intro: reach_start reach_step)
  then show "reach succ U S \<subseteq> insert m (reach succ U (succ m \<union> (S - {m})))" by blast
qed

lemma linked_at_low:
  assumes "walkable f e S" "\<And>r. r \<in> S \<Longrightarrow> br_round r \<le> e"
  shows "linked_at f e S = {r \<in> S. br_round r = e}"
proof -
  have "r \<in> S \<and> br_round r = e" if "r \<in> reach (links f) (from_round e) S" for r
    using that
  proof induction
    case (reach_start r)
    then show ?case using assms(2) [of r] by auto
  next
    case (reach_step r a)
    then have "br_round a < br_round r" using assms(1) unfolding walkable_def by blast
    then show ?case using reach_step by simp
  qed
  moreover have "r \<in> reach (links f) (from_round e) S" if "r \<in> S" "br_round r = e" for r
    using that by (auto intro: reach_start)
  ultimately show ?thesis unfolding linked_at_def by blast
qed

lemma ancestors_walk_empty: "fset_last l = None \<Longrightarrow> ancestors_walk ds e l = Some (Inr l)"
  by (subst ancestors_walk.simps) simp

lemma ancestors_walk_ok:
  assumes "walkable (get_block ds) e (fset linked)"
  shows "\<exists>linked'. ancestors_walk ds e linked = Some (Inr linked') \<and> (\<forall>r. r |\<in>| linked' \<longrightarrow> br_round r \<le> e)
    \<and> {r. r |\<in>| linked' \<and> br_round r = e} = linked_at (get_block ds) e (fset linked)"
proof -
  have stop: "\<exists>linked'. Some (Inr linked :: panic + _) = Some (Inr linked') \<and> (\<forall>r. r |\<in>| linked' \<longrightarrow> br_round r \<le> e)
      \<and> {r. r |\<in>| linked' \<and> br_round r = e} = linked_at (get_block ds) e (fset linked)"
    if "walkable (get_block ds) e (fset linked)" "\<And>r. r |\<in>| linked \<Longrightarrow> br_round r \<le> e" for linked
    using that linked_at_low [OF that(1)] by auto
  have main: "\<exists>linked'. ancestors_walk ds e linked = Some (Inr linked') \<and> (\<forall>r. r |\<in>| linked' \<longrightarrow> br_round r \<le> e)
      \<and> {r. r |\<in>| linked' \<and> br_round r = e} = linked_at (get_block ds) e (fset linked)"
    if "fset_last linked = Some m" "walkable (get_block ds) e (fset linked)" for linked m
    using that
  proof (induction m arbitrary: linked rule: wf_induct_rule [OF wf_block_ref])
    case (1 m)
    have m: "m |\<in>| linked" "\<And>r. r |\<in>| linked \<Longrightarrow> r \<le> m" using 1(2) by (auto simp: fset_last_Some)
    show ?case
    proof (cases "br_round m \<le> e")
      case True
      then have "br_round r \<le> e" if "r |\<in>| linked" for r
        using block_ref_le_round [OF m(2) [OF that]] by simp
      then show ?thesis using stop [OF 1(3)] True 1(2) by (subst ancestors_walk.simps) simp
    next
      case False
      then have mU: "m \<in> fset linked" "m \<in> from_round e" using m(1) by auto
      then have "m \<in> reach (links (get_block ds)) (from_round e) (fset linked)" by (rule reach_start)
      then obtain b where b: "get_block ds m = Some b" "\<forall>a \<in> set (vb_ancestors b). br_round a < br_round m"
        using 1(3) by (auto simp: walkable_def links_def)
      let ?l = "fset_of_list (vb_ancestors b) |\<union>| (linked |-| {|m|})"
      have fl: "fset ?l = links (get_block ds) m \<union> (fset linked - {m})"
        using b(1) by (simp add: links_def fset_of_list.rep_eq)
      note rr = reach_replace [OF mU, of "links (get_block ds)", folded fl]
      have w: "walkable (get_block ds) e (fset ?l)" using 1(3) rr(1) unfolding walkable_def by blast
      have same: "linked_at (get_block ds) e (fset ?l) = linked_at (get_block ds) e (fset linked)"
        using rr False unfolding linked_at_def by auto
      have less: "x < m" if "x |\<in>| ?l" for x
      proof (cases "x \<in> set (vb_ancestors b)")
        case True
        then show ?thesis using b(2) by (intro block_ref_round_less) blast
      next
        case False
        then have "x |\<in>| linked" "x \<noteq> m" using that by (auto simp: fset_of_list.rep_eq)
        then show ?thesis using m(2) by (simp add: order.not_eq_order_implies_strict)
      qed
      have step: "ancestors_walk ds e linked = ancestors_walk ds e ?l"
        using False b(1) 1(2) by (subst ancestors_walk.simps) simp
      show ?thesis
      proof (cases "fset_last ?l")
        case None
        then have "x |\<notin>| ?l" for x by (metis fset_last_None fempty_iff)
        then show ?thesis
          using stop [OF w] unfolding step same [symmetric] ancestors_walk_empty [OF None] by blast
      next
        case (Some m')
        then have "m' < m" by (intro less) (simp add: fset_last_Some)
        with 1(1) [of m' ?l] Some w show ?thesis unfolding step same [symmetric] by blast
      qed
    qed
  qed
  show ?thesis
  proof (cases "fset_last linked")
    case None
    then have "x |\<notin>| linked" for x by (metis fset_last_None fempty_iff)
    then show ?thesis using stop [OF assms] unfolding ancestors_walk_empty [OF None] by blast
  next
    case (Some m)
    then show ?thesis using main assms by blast
  qed
qed

lemma ancestors_at_round_eq:
  assumes "walkable (get_block ds) e (set (vb_ancestors A))"
  shows "\<exists>rs. ancestors_at_round ds A e = run_return (map (\<lambda>r. the (get_block ds r)) rs)
    \<and> sorted_wrt (<) rs \<and> set rs = linked_at (get_block ds) e (set (vb_ancestors A))"
proof -
  have f: "fset (fset_of_list (vb_ancestors A)) = set (vb_ancestors A)" by (simp add: fset_of_list.rep_eq)
  obtain l where l: "ancestors_walk ds e (fset_of_list (vb_ancestors A)) = Some (Inr l)"
    "\<forall>r. r |\<in>| l \<longrightarrow> br_round r \<le> e" "{r. r |\<in>| l \<and> br_round r = e} = linked_at (get_block ds) e (set (vb_ancestors A))"
    using ancestors_walk_ok [of ds e "fset_of_list (vb_ancestors A)"] assms unfolding f by auto
  let ?rs = "fset_range (\<lambda>r. BlockRef e 0 digest_min \<le> r) l"
  have "BlockRef e 0 digest_min \<le> r \<longleftrightarrow> br_round r = e" if "r |\<in>| l" for r
    using l(2) that by (auto simp: less_eq_block_ref_def digest_min_def dest!: spec [of _ r])
  then have rs: "set ?rs = linked_at (get_block ds) e (set (vb_ancestors A))" unfolding l(3) [symmetric] by auto
  have "rexpect BlockMissingInDag (get_block ds r) = Inr (the (get_block ds r))" if "r \<in> set ?rs" for r
  proof -
    have "get_block ds r \<noteq> None" using that assms unfolding rs walkable_def linked_at_def by blast
    then show ?thesis by auto
  qed
  then have "rmap (\<lambda>r. rexpect BlockMissingInDag (get_block ds r)) ?rs = Inr (map (\<lambda>r. the (get_block ds r)) ?rs)"
    by (rule rmap_total)
  then show ?thesis using l(1) rs fset_range_sorted [of _ l]
    by (intro exI [of _ ?rs]) (simp add: ancestors_at_round_def run_return_def)
qed

subsection \<open>Causal history in a view\<close>

abbreviation history :: "(block_ref \<Rightarrow> verified_block option) \<Rightarrow> round_number \<Rightarrow> verified_block \<Rightarrow> block_ref set" where
  "history U e A \<equiv> linked_at U e (set (vb_ancestors A))"

lemma reach_view:
  assumes "view_of U ds" "get_block ds r0 = Some A" "gc_round ds < e"
  shows "r \<in> reach (links (get_block ds)) (from_round e) (set (vb_ancestors A))
      \<Longrightarrow> get_block ds r = U r \<and> get_block ds r \<noteq> None \<and> r \<in> reach (links U) (from_round e) (set (vb_ancestors A))"
    and "r \<in> reach (links U) (from_round e) (set (vb_ancestors A))
      \<Longrightarrow> get_block ds r = U r \<and> get_block ds r \<noteq> None \<and> r \<in> reach (links (get_block ds)) (from_round e) (set (vb_ancestors A))"
proof -
  have there: "get_block ds a = U a \<and> get_block ds a \<noteq> None"
    if "get_block ds x = Some b" "a \<in> set (vb_ancestors b)" "e \<le> br_round a" for x b a
  proof
    have gc: "gc_round ds < br_round a" using assms(3) that(3) by simp
    show "get_block ds a = U a" by (rule viewD(3) [OF assms(1) that(1,2) gc])
    show "get_block ds a \<noteq> None" using assms(1) that(1,2) gc unfolding view_of_def by blast
  qed
  show "r \<in> reach (links (get_block ds)) (from_round e) (set (vb_ancestors A))
      \<Longrightarrow> get_block ds r = U r \<and> get_block ds r \<noteq> None \<and> r \<in> reach (links U) (from_round e) (set (vb_ancestors A))"
  proof (induction rule: reach.induct)
    case (reach_start r)
    have "e \<le> br_round r" using reach_start(2) by simp
    from there [OF assms(2) reach_start(1) this] reach.reach_start [OF reach_start] show ?case by blast
  next
    case (reach_step r a)
    then obtain b where b: "get_block ds r = Some b" "U r = Some b" "a \<in> set (vb_ancestors b)"
      by (auto simp: links_def split: option.splits)
    have "a \<in> links U r" using b by (simp add: links_def)
    from reach.reach_step [OF conjunct2 [OF conjunct2 [OF reach_step.IH]] this reach_step.hyps(3)]
    have "a \<in> reach (links U) (from_round e) (set (vb_ancestors A))" .
    moreover have "e \<le> br_round a" using reach_step.hyps(3) by simp
    ultimately show ?case using there [OF b(1,3)] by blast
  qed
  show "r \<in> reach (links U) (from_round e) (set (vb_ancestors A))
      \<Longrightarrow> get_block ds r = U r \<and> get_block ds r \<noteq> None \<and> r \<in> reach (links (get_block ds)) (from_round e) (set (vb_ancestors A))"
  proof (induction rule: reach.induct)
    case (reach_start r)
    have "e \<le> br_round r" using reach_start(2) by simp
    from there [OF assms(2) reach_start(1) this] reach.reach_start [OF reach_start] show ?case by blast
  next
    case (reach_step r a)
    then obtain b where b: "get_block ds r = Some b" "U r = Some b" "a \<in> set (vb_ancestors b)"
      by (auto simp: links_def split: option.splits)
    have "a \<in> links (get_block ds) r" using b by (simp add: links_def)
    from reach.reach_step [OF conjunct2 [OF conjunct2 [OF reach_step.IH]] this reach_step.hyps(3)]
    have "a \<in> reach (links (get_block ds)) (from_round e) (set (vb_ancestors A))" .
    moreover have "e \<le> br_round a" using reach_step.hyps(3) by simp
    ultimately show ?case using there [OF b(1,3)] by blast
  qed
qed

lemma history_view:
  assumes "view_of U ds" "get_block ds r0 = Some A" "gc_round ds < e"
  shows "linked_at (get_block ds) e (set (vb_ancestors A)) = history U e A"
    and "r \<in> history U e A \<Longrightarrow> get_block ds r = U r \<and> U r \<noteq> None"
proof -
  show "linked_at (get_block ds) e (set (vb_ancestors A)) = history U e A"
    using reach_view [OF assms] unfolding linked_at_def by blast
  assume "r \<in> history U e A"
  then have "get_block ds r = U r \<and> get_block ds r \<noteq> None"
    using reach_view(2) [OF assms] unfolding linked_at_def by blast
  then show "get_block ds r = U r \<and> U r \<noteq> None" by metis
qed

lemma view_walkable:
  assumes "block_universe c byz U" "view_of U ds" "get_block ds r0 = Some A" "gc_round ds < e"
  shows "walkable (get_block ds) e (set (vb_ancestors A))"
  unfolding walkable_def
proof (intro ballI conjI)
  fix r assume r: "r \<in> reach (links (get_block ds)) (from_round e) (set (vb_ancestors A))"
  obtain b where b: "get_block ds r = Some b" "U r = Some b"
    using reach_view(1) [OF assms(2-4) r] by (metis option.exhaust)
  show "get_block ds r \<noteq> None" using b(1) by simp
  fix a assume "a \<in> links (get_block ds) r"
  then show "br_round a < br_round r" using b universeD(6) [OF assms(1) b(2)] by (auto simp: links_def)
qed

lemma ancestors_at_round_view:
  assumes "block_universe c byz U" "view_of U ds" "get_block ds (reference A) = Some A" "gc_round ds < e"
  shows "\<exists>bs. ancestors_at_round ds A e = run_return bs \<and> sorted_wrt (<) (map reference bs)
    \<and> reference ` set bs = history U e A \<and> (\<forall>b \<in> set bs. U (reference b) = Some b)"
proof -
  obtain rs where rs: "ancestors_at_round ds A e = run_return (map (\<lambda>r. the (get_block ds r)) rs)"
    "sorted_wrt (<) rs" "set rs = history U e A"
    using ancestors_at_round_eq [OF view_walkable [OF assms]] unfolding history_view(1) [OF assms(2-4)] by blast
  have r: "reference (the (get_block ds r)) = r \<and> U r = Some (the (get_block ds r))" if "r \<in> set rs" for r
    using history_view(2) [OF assms(2-4)] that universeD(1) [OF assms(1)] unfolding rs(3) by fastforce
  have refs: "map reference (map (\<lambda>r. the (get_block ds r)) rs) = rs" using r by (simp add: map_idI)
  have "reference ` set (map (\<lambda>r. the (get_block ds r)) rs) = set rs"
    unfolding set_map [symmetric] refs ..
  then show ?thesis
    using rs r refs by (intro exI [of _ "map (\<lambda>r. the (get_block ds r)) rs"]) auto
qed

text \<open>
  C20. The walk of \<open>ancestors_at_round\<close> ends in every state of a correct node: from a block of the
  node down to a round above the GC round it returns, each once and in order, exactly the blocks of
  that round in the causal history of the block.
\<close>

theorem ancestors_at_round_correct:
  assumes "block_universe c byz U" "view_of U ds" "get_block ds (reference A) = Some A" "gc_round ds < e"
  shows "\<exists>bs. ancestors_at_round ds A e = Some (Inr bs) \<and> sorted_wrt (<) (map reference bs)
    \<and> reference ` set bs = history U e A \<and> (\<forall>b \<in> set bs. U (reference b) = Some b)"
  using ancestors_at_round_view [OF assms] by (simp add: run_return_def)

subsection \<open>The indirect rule\<close>

definition certified_by ::
  "committee \<Rightarrow> (block_ref \<Rightarrow> verified_block option) \<Rightarrow> verified_block \<Rightarrow> verified_block \<Rightarrow> bool" where
  "certified_by c U A L \<longleftrightarrow> U (reference L) = Some L
     \<and> (\<exists>b. reference b \<in> history U (vb_round L + 2) A \<and> U (reference b) = Some b \<and> certifies c U L b)"

lemma certified_by_unique:
  assumes "block_universe c byz U" "certified_by c U A L" "certified_by c U A' L'"
    and "slot_of_ref (reference L) = slot_of_ref (reference L')"
  shows "L = L'"
proof -
  obtain b where b: "reference b \<in> history U (vb_round L + 2) A" "U (reference b) = Some b" "certifies c U L b"
    using assms(2) by (auto simp: certified_by_def)
  obtain b' where b': "reference b' \<in> history U (vb_round L' + 2) A'" "U (reference b') = Some b'" "certifies c U L' b'"
    using assms(3) by (auto simp: certified_by_def)
  have r: "br_round (reference b) \<le> vb_round L + 2" "br_round (reference b') \<le> vb_round L' + 2"
    using b(1) b'(1) by (simp_all add: linked_at_def)
  have "reference L = reference L'"
    by (rule certified_unique [OF assms(1) b(2) r(1) b(3) b'(2) r(2) b'(3) assms(4)])
  moreover have "U (reference L) = Some L" "U (reference L') = Some L'" using assms(2,3) by (auto simp: certified_by_def)
  ultimately show ?thesis by (metis option.inject)
qed

text \<open>A certified leader block is in the cache of every node that has the certificate.\<close>

lemma certified_cached:
  assumes "deciding c byz U ds (vb_round L)" "get_block ds (reference A) = Some A" "certified_by c U A L"
  shows "cached_block ds (reference L) = Some L"
proof -
  note d = decidingD [OF assms(1)]
  obtain b where b: "reference b \<in> history U (vb_round L + 2) A" "U (reference b) = Some b" "certifies c U L b"
    using assms(3) by (auto simp: certified_by_def)
  have gb: "get_block ds (reference b) = Some b"
    using history_view(2) [OF d(2) assms(2) _ b(1)] b(2) d(5) by simp
  have "{a \<in> set (vb_ancestors b). votes_for U L a} \<noteq> {}"
  proof
    assume e: "{a \<in> set (vb_ancestors b). votes_for U L a} = {}"
    have "\<not> certifies c U L b" using quorum_positive [OF d(7)] unfolding certifies_def e by simp
    then show False using b(3) by simp
  qed
  then obtain a v where a: "a \<in> set (vb_ancestors b)" "U a = Some v" "reference L \<in> set (vb_ancestors v)"
    by (auto simp: votes_for_def)
  have "br_round (reference b) \<le> vb_round L + 2" using b(1) by (simp add: linked_at_def)
  from vote_round [OF d(1) b(2) this a] have "gc_round ds < br_round a" using d(5) by simp
  then have gv: "get_block ds a = Some v" using viewD(3) [OF d(2) gb a(1)] a(2) by simp
  have gc: "gc_round ds < br_round (reference L)" using d(5) by simp
  then have "get_block ds (reference L) = Some L"
    using viewD(3) [OF d(2) gv a(3)] assms(3) by (simp add: certified_by_def)
  then show ?thesis using viewD(4) [OF d(2) _ gc] by simp
qed

lemma decide_from_anchor_eq:
  assumes "deciding c byz U ds (slot_round s)" "get_block ds (reference A) = Some A"
    and "decision_round opts (wave_number opts (slot_round s)) = slot_round s + 2"
  shows "\<exists>st. decide_leader_from_anchor ds opts A s = run_return st
    \<and> ((\<exists>L. st = Commit L \<and> slot_of_ref (reference L) = s \<and> certified_by c U A L)
       \<or> st = Skip s \<and> (\<nexists>L. slot_of_ref (reference L) = s \<and> certified_by c U A L))"
proof -
  note d = decidingD [OF assms(1)]
  let ?e = "slot_round s + 2" and ?ls = "get_uncommitted_blocks_at_slot ds s"
  have gc: "gc_round ds < ?e" using d(5) by simp
  obtain bs where bs: "ancestors_at_round ds A ?e = run_return bs" "reference ` set bs = history U ?e A"
    "\<forall>b \<in> set bs. U (reference b) = Some b"
    using ancestors_at_round_view [OF d(1,2) assms(2) gc] by blast
  have ls: "set ?ls = {b. cached_block ds (reference b) = Some b \<and> slot_of_ref (reference b) = s}"
    by (rule blocks_at_slot(1) [OF d(2)])
  have cert: "certified_by c U A L \<longleftrightarrow> (\<exists>b \<in> set bs. certifies c U L b)" if "L \<in> set ?ls" for L
  proof -
    have L: "vb_round L = slot_round s" "U (reference L) = Some L"
      using that cached_author(3) [OF assms(1)] unfolding ls by (auto simp: slot_of_ref_def)
    show ?thesis
    proof
      assume "certified_by c U A L"
      then obtain b where b: "reference b \<in> history U ?e A" "U (reference b) = Some b" "certifies c U L b"
        using L(1) by (auto simp: certified_by_def)
      then obtain b' where "b' \<in> set bs" "reference b' = reference b" using bs(2) by (metis imageE)
      then have "b' = b" using bs(3) b(2) by (metis option.inject)
      then show "\<exists>b \<in> set bs. certifies c U L b" using \<open>b' \<in> set bs\<close> b(3) by auto
    next
      assume "\<exists>b \<in> set bs. certifies c U L b"
      then show "certified_by c U A L" using bs(2,3) L by (auto simp: certified_by_def)
    qed
  qed
  have filt: "run_bind (run_until (\<lambda>b all_votes. is_certificate ds b L all_votes) bs fmempty) (\<lambda>(found, _). run_return found)
      = run_return (certified_by c U A L)" if "L \<in> set ?ls" for L
  proof -
    have L: "deciding c byz U ds (vb_round L)"
      using that assms(1) unfolding ls by (auto simp: slot_of_ref_def)
    have b: "get_block ds (reference b) = Some b" "vb_round b \<le> vb_round L + 2" if "b \<in> set bs" for b
    proof -
      have h: "reference b \<in> history U ?e A" using that bs(2) by blast
      then show "get_block ds (reference b) = Some b"
        using history_view(2) [OF d(2) assms(2) gc h] bs(3) that by simp
      show "vb_round b \<le> vb_round L + 2"
        using h \<open>L \<in> set ?ls\<close> unfolding ls by (auto simp: linked_at_def slot_of_ref_def)
    qed
    have "\<exists>cache'. run_until (\<lambda>b all_votes. is_certificate ds b L all_votes) xs cache
        = run_return (\<exists>b \<in> set xs. certifies c U L b, cache')"
      if "set xs \<subseteq> set bs" "votes_sound U L cache" for xs cache
      using that
    proof (induction xs arbitrary: cache)
      case (Cons x xs)
      have x: "x \<in> set bs" using Cons.prems(1) by simp
      obtain cache1 where "is_certificate ds x L cache = run_return (certifies c U L x, cache1)" "votes_sound U L cache1"
        using is_certificate_eq [OF L b [OF x] Cons.prems(2)] by (elim exE conjE)
      with Cons.IH [of cache1] Cons.prems(1) show ?case by auto
    qed simp
    from this [of bs fmempty] show ?thesis using cert [OF that] by (auto simp: votes_sound_def)
  qed
  let ?xs = "filter (certified_by c U A) ?ls"
  have run: "run_filter (\<lambda>L. run_bind (run_until (\<lambda>b all_votes. is_certificate ds b L all_votes) bs fmempty)
      (\<lambda>(found, _). run_return found)) ?ls = run_return ?xs"
    by (rule run_filter_return [OF filt])
  have xs: "L \<in> set ?xs \<longleftrightarrow> slot_of_ref (reference L) = s \<and> certified_by c U A L" for L
  proof -
    have "cached_block ds (reference L) = Some L" if "slot_of_ref (reference L) = s" "certified_by c U A L"
      using that assms(1) by (intro certified_cached [OF _ assms(2)]) (auto simp: slot_of_ref_def)
    then show ?thesis using ls by auto
  qed
  have one: "?xs = [] \<or> (\<exists>L. ?xs = [L])"
  proof (rule at_most_one)
    show "distinct ?xs" using blocks_at_slot(2) [OF d(2), of s] by simp
    show "x = y" if "x \<in> set ?xs" "y \<in> set ?xs" for x y
      using that certified_by_unique [OF d(1)] unfolding xs by metis
  qed
  then show ?thesis
  proof (elim disjE exE)
    assume e: "?xs = []"
    then have "\<nexists>L. slot_of_ref (reference L) = s \<and> certified_by c U A L" using xs by (metis list.set(1) empty_iff)
    then show ?thesis
      unfolding decide_leader_from_anchor_def Let_def assms(3) bs(1) run_bind_simps run e by simp
  next
    fix L assume e: "?xs = [L]"
    then have "slot_of_ref (reference L) = s \<and> certified_by c U A L" using xs [of L] by simp
    then show ?thesis
      unfolding decide_leader_from_anchor_def Let_def assms(3) bs(1) run_bind_simps run e by simp
  qed
qed

subsection \<open>The two rules agree\<close>

lemma reach_from_link:
  assumes "a \<in> reach succ U S"
  shows "reach succ U (succ a) \<subseteq> reach succ U S"
proof
  fix x assume "x \<in> reach succ U (succ a)"
  then show "x \<in> reach succ U S" by induction (use assms in \<open>auto intro: reach_step\<close>)
qed

text \<open>
  A leader supported by a quorum of certificates at one node is certified in the history of every
  later block of another node: the quorum of parents one round after the certificates meets it.
\<close>

lemma supported_reaches:
  assumes "deciding c byz U ds1 (slot_round s)" "supported c U ds1 s L" "deciding c byz U ds2 (slot_round s)"
    and "get_block ds2 r = Some x" "slot_round s + 3 \<le> br_round r"
  shows "\<exists>b. reference b \<in> history U (slot_round s + 2) x \<and> U (reference b) = Some b \<and> certifies c U L b"
  using assms(4,5)
proof (induction "br_round r" arbitrary: r x rule: less_induct)
  case less
  note d = decidingD [OF assms(3)]
  have Ux: "U r = Some x" using viewD(2) [OF d(2) less.prems(1)] .
  have linked: "linked_block c x" using universeD(4) [OF d(1) Ux] less.prems(2) by simp
  have rx: "vb_round x = br_round r" by (rule universeD(2) [OF d(1) Ux])
  let ?P = "parent_authors (vb_round x) (vb_ancestors x)"
  have q: "quorum_threshold c \<le> weight c ?P" using linked by (simp add: linked_block_def)
  have mem: "?P \<subseteq> members c" using universeD(6) [OF d(1) Ux] by (auto simp: parent_authors_def)
  have anc: "get_block ds2 a = U a \<and> U a \<noteq> None" if "a \<in> set (vb_ancestors x)" "gc_round ds2 < br_round a" for a
  proof -
    have "get_block ds2 a \<noteq> None" using d(2) less.prems(1) that unfolding view_of_def by blast
    then show ?thesis using viewD(3) [OF d(2) less.prems(1) that] by metis
  qed
  show ?case
  proof (cases "br_round r = slot_round s + 3")
    case True
    have cm: "certifiers c U ds1 L \<subseteq> members c"
      using cached_author(1) [OF assms(1)] by (auto simp: certifiers_def)
    have cq: "quorum_threshold c \<le> weight c (certifiers c U ds1 L)" using assms(2) by (simp add: supported_def)
    obtain p where p: "p \<in> ?P" "p \<in> certifiers c U ds1 L" "p \<notin> byz"
      using quorums_meet [OF d(1) mem cm q cq] by (elim exE conjE)
    have L: "vb_round L = slot_round s" using assms(2) by (auto simp: supported_def slot_of_ref_def)
    obtain a where a: "a \<in> set (vb_ancestors x)" "br_round a + 1 = vb_round x" "br_author a = p"
      using p(1) by (auto simp: parent_authors_def)
    obtain b where b: "cached_block ds1 (reference b) = Some b" "vb_round b = slot_round s + 2" "certifies c U L b"
      "vb_author b = p"
      using p(2) L by (auto simp: certifiers_def)
    have Ub: "U (reference b) = Some b" by (rule cached_author(3) [OF assms(1) b(1)])
    have ar: "br_round a = slot_round s + 2" using a(2) rx True by simp
    then obtain v where v: "U a = Some v" using anc [OF a(1)] d(5) by auto
    have "a = reference b" by (rule same_ref [OF d(1) v Ub]) (use ar b a p in auto)
    then have "reference b \<in> history U (slot_round s + 2) x"
      using a(1) ar by (auto simp: linked_at_def intro: reach_start)
    then show ?thesis using Ub b(3) by blast
  next
    case False
    have "?P \<noteq> {}" using q quorum_positive [OF d(7)] by auto
    then obtain a where a: "a \<in> set (vb_ancestors x)" "br_round a + 1 = br_round r"
      using rx by (auto simp: parent_authors_def)
    have ar: "slot_round s + 3 \<le> br_round a" using a(2) False less.prems(2) by simp
    then obtain y where y: "get_block ds2 a = Some y" "U a = Some y" using anc [OF a(1)] d(5) by auto
    obtain b where b: "reference b \<in> history U (slot_round s + 2) y" "U (reference b) = Some b" "certifies c U L b"
      using less.hyps [OF _ y(1) ar] a(2) by auto
    have "a \<in> reach (links U) (from_round (slot_round s + 2)) (set (vb_ancestors x))"
      using a(1) ar by (intro reach_start) auto
    from reach_from_link [OF this] have "history U (slot_round s + 2) y \<subseteq> history U (slot_round s + 2) x"
      using y(2) by (auto simp: linked_at_def links_def)
    then show ?thesis using b by blast
  qed
qed

lemma supported_certified_by:
  assumes "deciding c byz U ds1 (slot_round s)" "supported c U ds1 s L" "deciding c byz U ds2 (slot_round s)"
    and "get_block ds2 (reference A) = Some A" "slot_round s + 3 \<le> vb_round A"
  shows "certified_by c U A L"
proof -
  have L: "vb_round L = slot_round s" "U (reference L) = Some L"
    using assms(2) cached_author(3) [OF assms(1)] by (auto simp: supported_def slot_of_ref_def)
  have "slot_round s + 3 \<le> br_round (reference A)" using assms(5) by simp
  from supported_reaches [OF assms(1-4) this] show ?thesis using L by (simp add: certified_by_def)
qed

text \<open>How a node decides a slot: blamed or supported directly, or from an anchor.\<close>

definition decided_as ::
  "committee \<Rightarrow> (block_ref \<Rightarrow> verified_block option) \<Rightarrow> dag_state \<Rightarrow> slot \<Rightarrow> verified_block option \<Rightarrow> leader_status \<Rightarrow> bool" where
  "decided_as c U ds s anchor st \<longleftrightarrow>
     st = Skip s \<and> quorum_threshold c \<le> weight c (blamers ds s)
     \<or> (\<exists>L. st = Commit L \<and> supported c U ds s L)
     \<or> (\<exists>A. anchor = Some A \<and> ((\<exists>L. st = Commit L \<and> slot_of_ref (reference L) = s \<and> certified_by c U A L)
          \<or> st = Skip s \<and> (\<nexists>L. slot_of_ref (reference L) = s \<and> certified_by c U A L)))"

lemma blamed_not_certified_by:
  assumes "deciding c byz U ds (slot_round s)" "quorum_threshold c \<le> weight c (blamers ds s)"
    and "slot_of_ref (reference L) = s"
  shows "\<not> certified_by c U A L"
proof
  assume "certified_by c U A L"
  then obtain b where b: "reference b \<in> history U (vb_round L + 2) A" "U (reference b) = Some b" "certifies c U L b"
    by (auto simp: certified_by_def)
  then have "br_round (reference b) \<le> vb_round L + 2" by (simp add: linked_at_def)
  from blamed_not_certified [OF assms(1,2) b(2) this assms(3)] b(3) show False by simp
qed

lemma blamed_not_supported:
  assumes "deciding c byz U ds (slot_round s)" "quorum_threshold c \<le> weight c (blamers ds s)"
    and "deciding c byz U ds' (slot_round s)"
  shows "\<not> supported c U ds' s L"
proof
  assume L: "supported c U ds' s L"
  then have s: "slot_of_ref (reference L) = s" "vb_round L = slot_round s" by (auto simp: supported_def slot_of_ref_def)
  obtain b where b: "vb_round b = slot_round s + 2" "certifies c U L b" "U (reference b) = Some b"
    by (rule supported_certified [OF assms(3) L])
  have "br_round (reference b) \<le> vb_round L + 2" using b(1) s(2) by simp
  from blamed_not_certified [OF assms(1,2) b(3) this s(1)] b(2) show False by simp
qed

lemma decided_agree:
  assumes "deciding c byz U ds1 (slot_round s)" "deciding c byz U ds2 (slot_round s)"
    and "decided_as c U ds1 s a1 st1" "decided_as c U ds2 s a2 st2"
    and "\<And>A. a1 = Some A \<Longrightarrow> get_block ds1 (reference A) = Some A \<and> slot_round s + 3 \<le> vb_round A"
    and "\<And>A. a2 = Some A \<Longrightarrow> get_block ds2 (reference A) = Some A \<and> slot_round s + 3 \<le> vb_round A"
    and "\<And>A1 A2. a1 = Some A1 \<Longrightarrow> a2 = Some A2 \<Longrightarrow> A1 = A2"
  shows "st1 = st2"
proof -
  note d = decidingD [OF assms(1)]
  have ind: "(case st of Commit L \<Rightarrow> supported c U ds s L | Skip s' \<Rightarrow> s' = s \<and> quorum_threshold c \<le> weight c (blamers ds s)
      | Undecided _ \<Rightarrow> False) \<or>
     (\<exists>A. a = Some A \<and> (case st of Commit L \<Rightarrow> slot_of_ref (reference L) = s \<and> certified_by c U A L
        | Skip s' \<Rightarrow> s' = s \<and> (\<forall>L. slot_of_ref (reference L) = s \<longrightarrow> \<not> certified_by c U A L) | Undecided _ \<Rightarrow> False))"
    if "decided_as c U ds s a st" for ds a st
    using that by (auto simp: decided_as_def)
  have slot: "slot_of_ref (reference L) = s" if "supported c U ds s L" for ds L using that by (simp add: supported_def)
  have anchored: "st = st'"
    if "deciding c byz U ds (slot_round s)" "deciding c byz U ds' (slot_round s)"
      "(case st of Commit L \<Rightarrow> supported c U ds s L | Skip s' \<Rightarrow> s' = s \<and> quorum_threshold c \<le> weight c (blamers ds s)
        | Undecided _ \<Rightarrow> False)"
      "get_block ds' (reference A) = Some A" "slot_round s + 3 \<le> vb_round A"
      "(case st' of Commit L \<Rightarrow> slot_of_ref (reference L) = s \<and> certified_by c U A L
        | Skip s' \<Rightarrow> s' = s \<and> (\<forall>L. slot_of_ref (reference L) = s \<longrightarrow> \<not> certified_by c U A L) | Undecided _ \<Rightarrow> False)"
    for ds ds' st st' A
  proof (cases st)
    case (Commit L)
    then have L: "supported c U ds s L" using that(3) by simp
    have cert: "certified_by c U A L" by (rule supported_certified_by [OF that(1) L that(2,4,5)])
    show ?thesis
    proof (cases st')
      case (Commit L')
      then have L': "slot_of_ref (reference L') = s" "certified_by c U A L'" using that(6) by auto
      have "L = L'" by (rule certified_by_unique [OF d(1) cert L'(2)]) (simp add: slot [OF L] L'(1))
      then show ?thesis using \<open>st = Commit L\<close> Commit by simp
    next
      case (Skip x)
      then show ?thesis using that(6) cert slot [OF L] by auto
    qed (use that(6) in auto)
  next
    case (Skip x)
    then have "x = s" "quorum_threshold c \<le> weight c (blamers ds s)" using that(3) by auto
    then show ?thesis
      using Skip that(6) blamed_not_certified_by [OF that(1)] by (cases st') auto
  qed (use that(3) in auto)
  from ind [OF assms(3)] ind [OF assms(4)] show ?thesis
  proof (elim disjE exE conjE, goal_cases)
    case 1
    then show ?case
      using supported_unique [OF assms(1) _ assms(2)] blamed_not_supported [OF assms(1) _ assms(2)]
        blamed_not_supported [OF assms(2) _ assms(1)]
      by (cases st1; cases st2) auto
  next
    case (2 A)
    then show ?case using anchored [OF assms(1,2), of st1 A st2] assms(6) by blast
  next
    case (3 A)
    then show ?case using anchored [OF assms(2,1), of st2 A st1] assms(5) by metis
  next
    case (4 A1 A2)
    then have "A1 = A2" using assms(7) by blast
    then show ?case
      using 4 certified_by_unique [OF d(1), of A2 _ A2] by (cases st1; cases st2) auto
  qed
qed

subsection \<open>The direct rule as a count\<close>

text \<open>
  C9. The direct rule decides by counting authorities: it skips the slot exactly when a quorum of
  authorities has blocks in the next round without any block of the leader among their ancestors,
  commits a block exactly when a quorum of authorities has certificates for it two rounds later,
  and leaves the slot undecided exactly when neither holds; it always returns.
\<close>

theorem direct_rule_correct:
  assumes "deciding c byz U ds (slot_round s)"
    and "decision_round opts (wave_number opts (slot_round s)) = slot_round s + 2"
  shows "\<exists>st. base_try_direct_decide ds opts s = Some (Inr st)
    \<and> (st = Skip s \<longleftrightarrow> quorum_threshold c \<le> weight c (blamers ds s))
    \<and> (\<forall>L. st = Commit L \<longleftrightarrow> supported c U ds s L)
    \<and> (st = Undecided s \<longleftrightarrow> weight c (blamers ds s) < quorum_threshold c \<and> (\<nexists>L. supported c U ds s L))"
proof -
  have "\<not> supported c U ds s L" if "quorum_threshold c \<le> weight c (blamers ds s)" for L
    using blamed_not_supported [OF assms(1) that assms(1)] by blast
  moreover have "L = L'" if "supported c U ds s L" "supported c U ds s L'" for L L'
    by (rule supported_unique [OF assms(1) that(1) assms(1) that(2)])
  ultimately show ?thesis
    using direct_decide_cases [OF assms] unfolding run_return_def
    by (elim exE conjE disjE) (auto simp: not_less)
qed

subsection \<open>Witnesses\<close>

theorem ancestors_at_round_correct_witness:
  "\<exists>bs. ancestors_at_round (demo_rounds 4) (demo_block 4 2) 2 = Some (Inr bs) \<and> sorted_wrt (<) (map reference bs)
    \<and> reference ` set bs = history (get_block (demo_rounds 4)) 2 (demo_block 4 2)"
  using ancestors_at_round_correct [OF demo_universe demo_view [of 4 4], of "demo_block 4 2" 2]
  by (fastforce simp: demo_rounds_get demo_ref_def)

theorem direct_rule_correct_witness:
  "base_try_direct_decide (demo_rounds 5) base_committer_options_default (Slot 3 0) = Some (Inr (Skip (Slot 3 0)))"
proof -
  have d: "deciding demo_committee {} (get_block (demo_rounds 5)) (demo_rounds 5) (slot_round (Slot 3 0))"
    unfolding deciding_def by (intro conjI demo_universe demo_view) simp_all
  have w: "decision_round base_committer_options_default (wave_number base_committer_options_default (slot_round (Slot 3 0)))
      = slot_round (Slot 3 0) + 2"
    by (simp add: decision_round_def wave_number_def base_committer_options_default_def default_wave_length_def
      minimum_wave_length_def)
  have "a \<in> blamers (demo_rounds 5) (Slot 3 0)" if "a \<in> {1, 2, 3}" for a
    unfolding blamers_def
    by (rule image_eqI [of _ _ "demo_block 4 a"]) (use that in \<open>auto simp: demo_rounds_cached demo_ref_def\<close>)
  moreover have "blamers (demo_rounds 5) (Slot 3 0) \<subseteq> members demo_committee"
    using cached_author(1) [OF d] by (auto simp: blamers_def)
  ultimately have "weight demo_committee {1, 2, 3} \<le> weight demo_committee (blamers (demo_rounds 5) (Slot 3 0))"
    by (intro weight_mono) (auto intro: finite_subset [of _ "members demo_committee"])
  then have "quorum_threshold demo_committee \<le> weight demo_committee (blamers (demo_rounds 5) (Slot 3 0))"
    by (simp add: demo_thresholds demo_stk)
  then show ?thesis using direct_rule_correct [OF d w] by blast
qed

end
