(* ===== verification/Universal_Committer_Correct.thy ===== *)
theory Universal_Committer_Correct
  imports Universal_Committer Commit_Rule Leader_Schedule_Correct "HOL-Library.Sublist"
begin

section \<open>Correctness of the universal committer\<close>

text \<open>
  The waves of the pipelined committers, the anchors of the indirect rule, and agreement: the
  sequences of leaders that two correct nodes decide are prefixes of each other.
\<close>

subsection \<open>Waves\<close>

lemma wave_round:
  assumes "round_offset opts < wave_length opts" "r + wave_length opts < 2 ^ 32"
  shows "leader_round opts (wave_number opts r) = r \<longleftrightarrow> r mod wave_length opts = round_offset opts"
    and "leader_round opts (wave_number opts r) = r \<Longrightarrow>
      decision_round opts (wave_number opts r) = r + wave_length opts - 1"
proof -
  let ?w = "wave_length opts" and ?o = "round_offset opts"
  let ?q = "(r - ?o) div ?w"
  have q: "?q * ?w \<le> r - ?o" by simp
  have lr: "leader_round opts (wave_number opts r) = ?q * ?w + ?o"
    using q assms unfolding leader_round_def wave_number_def by (intro wrap32_id) linarith
  show 1: "leader_round opts (wave_number opts r) = r \<longleftrightarrow> r mod ?w = ?o"
  proof (cases "?o \<le> r")
    case True
    have "?q * ?w + (r - ?o) mod ?w = r - ?o" by simp
    then have "?q * ?w + ?o = r \<longleftrightarrow> (r - ?o) mod ?w = 0" using True by linarith
    also have "\<dots> \<longleftrightarrow> r mod ?w = ?o"
      using True assms(1) by (metis mod_eq_dvd_iff_nat mod_less dvd_eq_mod_eq_0)
    finally show ?thesis unfolding lr .
  next
    case False
    then show ?thesis using assms(1) unfolding lr by simp
  qed
  assume "leader_round opts (wave_number opts r) = r"
  then have "?q * ?w + ?o = r" unfolding lr .
  then have "?q * ?w + ?w - 1 + ?o = r + ?w - 1" using assms(1) by linarith
  then show "decision_round opts (wave_number opts r) = r + ?w - 1"
    using assms(2) unfolding decision_round_def wave_number_def by simp
qed

lemma universal_build_set:
  "set (universal_build b) = {\<lparr>wave_length = builder_wave_length b, leader_offset = lo, round_offset = ro\<rparr> | lo ro.
     lo < number_of_leaders b \<and> ro < (if pipeline b then builder_wave_length b else 1)}"
  by (auto simp: universal_build_def Let_def)

subsection \<open>Anchors\<close>

definition is_skip :: "leader_status \<Rightarrow> bool" where
  "is_skip st \<longleftrightarrow> (\<exists>s. st = Skip s)"

definition anchor_of :: "round_number \<Rightarrow> leader_status list \<Rightarrow> verified_block option" where
  "anchor_of r sts = (case dropWhile is_skip (filter (\<lambda>x. r \<le> leader_status_round x) sts) of
     Commit A # _ \<Rightarrow> Some A | _ \<Rightarrow> None)"

lemma anchor_of_simps [simp]:
  "anchor_of r [] = None"
  "anchor_of r (x # xs) = (if r \<le> leader_status_round x
     then (case x of Commit A \<Rightarrow> Some A | Skip s \<Rightarrow> anchor_of r xs | Undecided s \<Rightarrow> None)
     else anchor_of r xs)"
  by (auto simp: anchor_of_def is_skip_def split: leader_status.split)

lemma anchor_of_member:
  "anchor_of r xs = Some A \<Longrightarrow> Commit A \<in> set xs \<and> r \<le> vb_round A"
  by (induction xs) (auto split: if_splits leader_status.splits)

lemma decide_from_anchors_eq:
  "decide_from_anchors ds opts s (filter (\<lambda>x. r \<le> leader_status_round x) sts) =
     (case anchor_of r sts of None \<Rightarrow> run_return (Undecided s) | Some A \<Rightarrow> decide_leader_from_anchor ds opts A s)"
  by (induction sts) (auto split: leader_status.split)

text \<open>Statuses of the same slots at two nodes: equal when both are decided.\<close>

definition agree_status :: "leader_status \<Rightarrow> leader_status \<Rightarrow> bool" where
  "agree_status x y \<longleftrightarrow> leader_status_round x = leader_status_round y \<and> (is_decided x \<longrightarrow> is_decided y \<longrightarrow> x = y)"

lemma anchors_agree:
  assumes "list_all2 agree_status xs (take (length xs) ys)" "anchor_of r xs = Some A" "anchor_of r ys = Some B"
  shows "A = B"
  using assms
proof (induction xs arbitrary: ys)
  case (Cons x xs)
  then obtain y ys' where y: "ys = y # ys'" "agree_status x y" "list_all2 agree_status xs (take (length xs) ys')"
    by (cases ys) auto
  show ?case
  proof (cases "r \<le> leader_status_round x")
    case True
    then have "r \<le> leader_status_round y" using y(2) by (simp add: agree_status_def)
    then show ?thesis
      using Cons.IH [OF y(3)] Cons.prems(2,3) True y(1,2)
      by (cases x; cases y) (auto simp: agree_status_def)
  next
    case False
    then have "\<not> r \<le> leader_status_round y" using y(2) by (simp add: agree_status_def)
    then show ?thesis using Cons.IH [OF y(3)] Cons.prems(2,3) False y(1) by simp
  qed
qed simp

subsection \<open>Deciding one slot\<close>

text \<open>A slot of a base committer with waves of three rounds.\<close>

definition wave_slot :: "base_committer_options \<times> slot \<Rightarrow> bool" where
  "wave_slot = (\<lambda>(opts, s). wave_length opts = 3
     \<and> decision_round opts (wave_number opts (slot_round s)) = slot_round s + 2)"

lemma decide_slot_cases:
  assumes "deciding c byz U ds (slot_round s)" "wave_slot (opts, s)"
    and "\<And>A. Commit A \<in> set sts \<Longrightarrow> get_block ds (reference A) = Some A"
  shows "\<exists>st dec. decide_slot ds opts s sts = run_return (st, dec)
    \<and> (decided_as c U ds s (anchor_of (slot_round s + 3) sts) st \<or> st = Undecided s)"
proof -
  have w: "wave_length opts = 3" "decision_round opts (wave_number opts (slot_round s)) = slot_round s + 2"
    using assms(2) by (auto simp: wave_slot_def)
  have wr: "wrap32 (slot_round s + wave_length opts) = slot_round s + 3"
    using decidingD(6) [OF assms(1)] w(1) by simp
  have ind: "\<exists>st. base_try_indirect_decide ds opts s sts = run_return st
      \<and> (decided_as c U ds s (anchor_of (slot_round s + 3) sts) st \<or> st = Undecided s)"
  proof (cases "anchor_of (slot_round s + 3) sts")
    case None
    then show ?thesis unfolding base_try_indirect_decide_def wr decide_from_anchors_eq by simp
  next
    case (Some A)
    then have "get_block ds (reference A) = Some A" using anchor_of_member assms(3) by blast
    from decide_from_anchor_eq [OF assms(1) this w(2)] Some show ?thesis
      unfolding base_try_indirect_decide_def wr decide_from_anchors_eq by (auto simp: decided_as_def)
  qed
  from direct_decide_cases [OF assms(1) w(2)] obtain st where st: "base_try_direct_decide ds opts s = run_return st"
    "st = Skip s \<and> quorum_threshold c \<le> weight c (blamers ds s) \<or> (\<exists>L. st = Commit L \<and> supported c U ds s L)
       \<or> st = Undecided s"
    by blast
  from st(2) show ?thesis
  proof (elim disjE)
    assume "st = Undecided s"
    then show ?thesis using st(1) ind by (auto simp: decide_slot_def)
  next
    assume s: "st = Skip s \<and> quorum_threshold c \<le> weight c (blamers ds s)"
    then have "decided_as c U ds s (anchor_of (slot_round s + 3) sts) st" by (simp add: decided_as_def)
    then show ?thesis using st(1) s by (simp add: decide_slot_def)
  next
    assume s: "\<exists>L. st = Commit L \<and> supported c U ds s L"
    then have "decided_as c U ds s (anchor_of (slot_round s + 3) sts) st" by (simp add: decided_as_def)
    then show ?thesis using st(1) s by (auto simp: decide_slot_def)
  qed
qed

lemma decided_as_slot:
  assumes "decided_as c U ds s a st \<or> st = Undecided s"
  shows "leader_status_round st = slot_round s" "is_decided st \<longleftrightarrow> decided_as c U ds s a st"
  using assms by (auto simp: decided_as_def supported_def slot_of_ref_def)

lemma decided_as_cached:
  assumes "deciding c byz U ds (slot_round s)" "decided_as c U ds s a (Commit L)"
    and "\<And>A. a = Some A \<Longrightarrow> get_block ds (reference A) = Some A"
  shows "get_block ds (reference L) = Some L"
proof -
  have "supported c U ds s L \<or> (\<exists>A. a = Some A \<and> slot_of_ref (reference L) = s \<and> certified_by c U A L)"
    using assms(2) by (auto simp: decided_as_def)
  then have "cached_block ds (reference L) = Some L"
  proof (elim disjE exE conjE)
    fix A assume A: "a = Some A" "slot_of_ref (reference L) = s" "certified_by c U A L"
    then have "deciding c byz U ds (vb_round L)" using assms(1) by (auto simp: slot_of_ref_def)
    then show ?thesis using assms(3) [OF A(1)] A(3) by (rule certified_cached)
  qed (simp add: supported_def)
  then show ?thesis by (rule cached_author(2) [OF assms(1)])
qed

subsection \<open>Deciding a sequence of slots\<close>

text \<open>
  The slots of a run in the order of rounds, and what the run decides: each slot is decided with the
  statuses of the slots after it.
\<close>

inductive decisions ::
  "dag_state \<Rightarrow> (base_committer_options \<times> slot) list \<Rightarrow> (leader_status \<times> decision) list \<Rightarrow> bool"
  for ds :: dag_state where
  decisions_Nil: "decisions ds [] []"
| decisions_Cons: "decisions ds vs xs \<Longrightarrow> decide_slot ds opts s (map fst xs) = run_return x
    \<Longrightarrow> decisions ds ((opts, s) # vs) (x # xs)"

inductive_cases decisions_NilE: "decisions ds [] xs"
inductive_cases decisions_ConsE: "decisions ds (v # vs) xs"

lemma decisions_length: "decisions ds vs xs \<Longrightarrow> length xs = length vs"
  by (induction rule: decisions.induct) auto

definition decidable_slots ::
  "committee \<Rightarrow> authority_index set \<Rightarrow> (block_ref \<Rightarrow> verified_block option) \<Rightarrow> dag_state
     \<Rightarrow> (base_committer_options \<times> slot) list \<Rightarrow> bool" where
  "decidable_slots c byz U ds vs \<longleftrightarrow> (\<forall>v \<in> set vs. wave_slot v \<and> deciding c byz U ds (slot_round (snd v)))"

lemma decisions_commits:
  assumes "decisions ds vs xs" "decidable_slots c byz U ds vs" "Commit A \<in> fst ` set xs"
  shows "get_block ds (reference A) = Some A"
  using assms
proof (induction arbitrary: A rule: decisions.induct)
  case (decisions_Cons vs xs opts s x)
  have v: "wave_slot (opts, s)" "deciding c byz U ds (slot_round s)" "decidable_slots c byz U ds vs"
    using decisions_Cons.prems(1) by (auto simp: decidable_slots_def)
  have IH: "get_block ds (reference B) = Some B" if "Commit B \<in> set (map fst xs)" for B
    using decisions_Cons.IH [OF v(3)] that by auto
  obtain st dec where st: "decide_slot ds opts s (map fst xs) = run_return (st, dec)"
    "decided_as c U ds s (anchor_of (slot_round s + 3) (map fst xs)) st \<or> st = Undecided s"
    using decide_slot_cases [OF v(2,1) IH] by blast
  show ?case
  proof (cases "Commit A \<in> fst ` set xs")
    case True
    then show ?thesis using IH by simp
  next
    case False
    then have "st = Commit A" using decisions_Cons.prems(2) decisions_Cons.hyps(2) st(1) by auto
    then have "decided_as c U ds s (anchor_of (slot_round s + 3) (map fst xs)) (Commit A)" using st(2) by simp
    then show ?thesis by (rule decided_as_cached [OF v(2)]) (use IH anchor_of_member in blast)
  qed
qed simp

lemma decisions_decide:
  assumes "decisions ds vs xs" "decidable_slots c byz U ds ((opts, s) # vs)"
  shows "\<exists>st dec. decide_slot ds opts s (map fst xs) = run_return (st, dec)
    \<and> (decided_as c U ds s (anchor_of (slot_round s + 3) (map fst xs)) st \<or> st = Undecided s)"
proof (rule decide_slot_cases [where byz = byz])
  have v: "decidable_slots c byz U ds vs" using assms(2) by (simp add: decidable_slots_def)
  show "get_block ds (reference A) = Some A" if "Commit A \<in> set (map fst xs)" for A
    using decisions_commits [OF assms(1) v] that by simp
qed (use assms(2) in \<open>simp_all add: decidable_slots_def\<close>)

lemma decisions_agree:
  assumes "decisions ds1 vs xs" "decisions ds2 (vs @ ws) ys"
    and "decidable_slots c byz U ds1 vs" "decidable_slots c byz U ds2 (vs @ ws)"
  shows "list_all2 agree_status (map fst xs) (take (length xs) (map fst ys))"
  using assms
proof (induction vs arbitrary: xs ys)
  case Nil
  then show ?case by (auto elim: decisions_NilE)
next
  case (Cons v vs)
  obtain opts s where v: "v = (opts, s)" by (cases v)
  obtain x xs' where x: "xs = x # xs'" "decisions ds1 vs xs'" "decide_slot ds1 opts s (map fst xs') = run_return x"
    using Cons.prems(1) v by (auto elim: decisions_ConsE)
  obtain y ys' where y: "ys = y # ys'" "decisions ds2 (vs @ ws) ys'" "decide_slot ds2 opts s (map fst ys') = run_return y"
    using Cons.prems(2) v by (auto elim: decisions_ConsE)
  have d: "wave_slot (opts, s)" "deciding c byz U ds1 (slot_round s)" "deciding c byz U ds2 (slot_round s)"
    "decidable_slots c byz U ds1 vs" "decidable_slots c byz U ds2 (vs @ ws)"
    using Cons.prems(3,4) v by (auto simp: decidable_slots_def)
  have IH: "list_all2 agree_status (map fst xs') (take (length xs') (map fst ys'))"
    by (rule Cons.IH [OF x(2) y(2) d(4,5)])
  have b1: "get_block ds1 (reference A) = Some A" if "Commit A \<in> set (map fst xs')" for A
    using decisions_commits [OF x(2) d(4)] that by auto
  have b2: "get_block ds2 (reference A) = Some A" if "Commit A \<in> set (map fst ys')" for A
    using decisions_commits [OF y(2) d(5)] that by auto
  let ?a1 = "anchor_of (slot_round s + 3) (map fst xs')" and ?a2 = "anchor_of (slot_round s + 3) (map fst ys')"
  obtain st1 d1 where 1: "x = (st1, d1)" "decided_as c U ds1 s ?a1 st1 \<or> st1 = Undecided s"
    using decisions_decide [OF x(2) Cons.prems(3) [unfolded v]] x(3) by auto
  obtain st2 d2 where 2: "y = (st2, d2)" "decided_as c U ds2 s ?a2 st2 \<or> st2 = Undecided s"
    using decisions_decide [OF y(2) Cons.prems(4) [unfolded v append_Cons]] y(3) by auto
  have "st1 = st2" if "is_decided st1" "is_decided st2"
  proof (rule decided_agree [OF d(2,3)])
    show "decided_as c U ds1 s ?a1 st1" "decided_as c U ds2 s ?a2 st2"
      using that decided_as_slot(2) [OF 1(2)] decided_as_slot(2) [OF 2(2)] by auto
    show "get_block ds1 (reference A) = Some A \<and> slot_round s + 3 \<le> vb_round A" if "?a1 = Some A" for A
      using anchor_of_member [OF that] b1 by blast
    show "get_block ds2 (reference A) = Some A \<and> slot_round s + 3 \<le> vb_round A" if "?a2 = Some A" for A
      using anchor_of_member [OF that] b2 by blast
    show "A1 = A2" if "?a1 = Some A1" "?a2 = Some A2" for A1 A2
      by (rule anchors_agree [OF _ that]) (use IH in simp)
  qed
  then have "agree_status st1 st2"
    using decided_as_slot(1) [OF 1(2)] decided_as_slot(1) [OF 2(2)] by (simp add: agree_status_def)
  then show ?case using IH 1(1) 2(1) x(1) y(1) by simp
qed

subsection \<open>The loop over rounds and committers\<close>

fun visited_slots ::
  "rng \<Rightarrow> leader_schedule \<Rightarrow> slot \<Rightarrow> (round_number \<times> base_committer_options) list
     \<Rightarrow> (base_committer_options \<times> slot) list" where
  "visited_slots g sch last_decided [] = []"
| "visited_slots g sch last_decided ((r, opts) # ps) =
    (case committer_elect_leader g sch opts r of
       Inr (Some s) \<Rightarrow> if s = last_decided then [] else (opts, s) # visited_slots g sch last_decided ps
     | _ \<Rightarrow> visited_slots g sch last_decided ps)"

definition elects :: "rng \<Rightarrow> leader_schedule \<Rightarrow> (round_number \<times> base_committer_options) list \<Rightarrow> bool" where
  "elects g sch ps \<longleftrightarrow> (\<forall>(r, opts) \<in> set ps. is_ok (committer_elect_leader g sch opts r))"

lemma try_decide_loop:
  assumes "elects g sch ps" "decisions ds vs xs"
    and "decidable_slots c byz U ds (rev (visited_slots g sch last_decided ps) @ vs)"
  shows "\<exists>stopped ys. run_until (try_decide_step g sch ds last_decided) ps xs = run_return (stopped, ys)
    \<and> decisions ds (rev (visited_slots g sch last_decided ps) @ vs) ys"
  using assms
proof (induction ps arbitrary: vs xs)
  case (Cons p ps)
  obtain r opts where p: "p = (r, opts)" by (cases p)
  obtain e where e: "committer_elect_leader g sch opts r = Inr e"
    using Cons.prems(1) p by (auto simp: elects_def is_ok_iff)
  have ps: "elects g sch ps" using Cons.prems(1) by (simp add: elects_def)
  show ?case
  proof (cases e)
    case None
    then show ?thesis
      using Cons.IH [OF ps Cons.prems(2)] Cons.prems(3) e p by (simp add: try_decide_step_def)
  next
    case (Some s)
    show ?thesis
    proof (cases "s = last_decided")
      case True
      then show ?thesis
        using Some e p Cons.prems(2) by (intro exI [of _ True] exI [of _ xs]) (simp add: try_decide_step_def)
    next
      case False
      have vs: "rev (visited_slots g sch last_decided (p # ps)) @ vs
          = rev (visited_slots g sch last_decided ps) @ (opts, s) # vs"
        using False Some e p by simp
      have "decidable_slots c byz U ds ((opts, s) # vs)"
        using Cons.prems(3) unfolding vs by (simp add: decidable_slots_def)
      from decisions_decide [OF Cons.prems(2) this]
      obtain x where x: "decide_slot ds opts s (map fst xs) = run_return x" by blast
      have "decisions ds ((opts, s) # vs) (x # xs)" by (rule decisions_Cons [OF Cons.prems(2) x])
      from Cons.IH [OF ps this] Cons.prems(3) x show ?thesis
        unfolding vs using False Some e p by (simp add: try_decide_step_def)
    qed
  qed
qed (auto intro: exI [of _ False])

lemma visited_append:
  assumes "\<And>r opts. (r, opts) \<in> set ps \<Longrightarrow> committer_elect_leader g sch opts r \<noteq> Inr (Some last_decided)"
  shows "visited_slots g sch last_decided (ps @ qs) = visited_slots g sch last_decided ps @ visited_slots g sch last_decided qs"
  using assms
proof (induction ps)
  case (Cons p ps)
  obtain r opts where p: "p = (r, opts)" by (cases p)
  have "committer_elect_leader g sch opts r \<noteq> Inr (Some last_decided)" using Cons.prems p by simp
  moreover have "visited_slots g sch last_decided (ps @ qs) = visited_slots g sch last_decided ps @ visited_slots g sch last_decided qs"
    using Cons.IH Cons.prems by auto
  ultimately show ?case using p by (auto split: sum.split option.split)
qed simp

lemma visited_elected:
  "(opts, s) \<in> set (visited_slots g sch last_decided ps) \<Longrightarrow>
     \<exists>r. (r, opts) \<in> set ps \<and> committer_elect_leader g sch opts r = Inr (Some s)"
  by (induction ps rule: visited_slots.induct [of _ g sch last_decided]) (auto split: sum.splits option.splits if_splits)

subsection \<open>The decided prefix\<close>

definition outcome :: "decided_leader \<Rightarrow> slot \<times> verified_block option" where
  "outcome d = (decided_leader_slot d, into_committed_block d)"

lemma outcome_simps [simp]:
  "outcome (DecidedCommit b direct) = (slot_of_ref (reference b), Some b)"
  "outcome (DecidedSkip s) = (s, None)"
  by (simp_all add: outcome_def)

fun status_outcome :: "leader_status \<Rightarrow> slot \<times> verified_block option" where
  "status_outcome (Commit b) = (slot_of_ref (reference b), Some b)"
| "status_outcome (Skip s) = (s, None)"
| "status_outcome (Undecided s) = (s, None)"

lemma status_outcome_round: "slot_round (fst (status_outcome st)) = leader_status_round st"
  by (cases st) (simp_all add: slot_of_ref_def)

lemma decisions_slots:
  assumes "decisions ds vs xs" "decidable_slots c byz U ds vs"
  shows "list_all2 (\<lambda>v x. fst (status_outcome (fst x)) = snd v) vs xs"
  using assms
proof (induction rule: decisions.induct)
  case (decisions_Cons vs xs opts s x)
  obtain st dec where st: "x = (st, dec)"
    "decided_as c U ds s (anchor_of (slot_round s + 3) (map fst xs)) st \<or> st = Undecided s"
    using decisions_decide [OF decisions_Cons.hyps(1) decisions_Cons.prems] decisions_Cons.hyps(2) by auto
  have v: "decidable_slots c byz U ds vs" using decisions_Cons.prems by (simp add: decidable_slots_def)
  from st have "fst (status_outcome st) = s" by (auto simp: decided_as_def supported_def)
  then show ?case using decisions_Cons.IH [OF v] st(1) by simp
qed simp

lemma decided_prefix_eq:
  assumes "list_all2 (\<lambda>v x. fst (status_outcome (fst x)) = snd v) vs xs"
    and "\<forall>v \<in> set vs. 0 < slot_round (snd v) \<and> is_valid_index c (slot_authority (snd v))"
  shows "\<exists>l. decided_prefix c xs = Inr l \<and> map outcome l = map status_outcome (takeWhile is_decided (map fst xs))"
  using assms
proof (induction rule: list_all2_induct)
  case (Cons v vs x xs)
  obtain st dec where x: "x = (st, dec)" by (cases x)
  have s: "fst (status_outcome st) = snd v" "0 < slot_round (snd v)" "is_valid_index c (slot_authority (snd v))"
    using Cons.hyps(1) Cons.prems x by auto
  obtain l where l: "decided_prefix c xs = Inr l" "map outcome l = map status_outcome (takeWhile is_decided (map fst xs))"
    using Cons by auto
  obtain a where "committee_authority c (slot_authority (snd v)) = Inr a"
    using committee_authority_valid [OF s(3)] by auto
  moreover have "leader_status_round st \<noteq> genesis_round"
    using s(1,2) status_outcome_round [of st] by (simp add: genesis_round_def)
  ultimately show ?case using s(1) l x by (cases st) auto
qed simp

lemma agreeing_prefixes:
  assumes "list_all2 agree_status xs (take (length xs) ys)"
  shows "prefix (takeWhile is_decided xs) (takeWhile is_decided ys) \<or> prefix (takeWhile is_decided ys) (takeWhile is_decided xs)"
  using assms
proof (induction xs arbitrary: ys)
  case (Cons x xs)
  then obtain y ys' where y: "ys = y # ys'" "agree_status x y" "list_all2 agree_status xs (take (length xs) ys')"
    by (cases ys) auto
  then show ?case using Cons.IH [OF y(3)] by (auto simp: agree_status_def)
qed simp

subsection \<open>Agreement\<close>

text \<open>
  The states of two correct nodes that decide from the same last slot with the same schedule and
  committers; every committer elects a valid leader in every round.
\<close>

definition can_decide ::
  "committee \<Rightarrow> authority_index set \<Rightarrow> (block_ref \<Rightarrow> verified_block option) \<Rightarrow> dag_state \<Rightarrow> slot \<Rightarrow> bool" where
  "can_decide c byz U ds last_decided \<longleftrightarrow>
    (let first_round = first_round_to_decide (ds_config ds) last_decided in
     block_universe c byz U \<and> view_of U ds \<and> ds_committee ds = c
     \<and> last_commit_round ds \<le> first_round \<and> gc_round ds < first_round
     \<and> slot_round last_decided + 1 < 2 ^ 32 \<and> highest_accepted_round ds + 1 < 2 ^ 32)"

definition valid_election ::
  "rng \<Rightarrow> leader_schedule \<Rightarrow> base_committer_options list \<Rightarrow> committee \<Rightarrow> bool" where
  "valid_election g sch committers c \<longleftrightarrow>
     (\<forall>opts \<in> set committers. \<forall>r. \<exists>a. elect_leader g sch r (leader_offset opts) = Inr a \<and> is_valid_index c a)"

definition committer_pairs ::
  "base_committer_options list \<Rightarrow> round_number list \<Rightarrow> (round_number \<times> base_committer_options) list" where
  "committer_pairs committers rounds = concat (map (\<lambda>r. map (\<lambda>opts. (r, opts)) (rev committers)) rounds)"

lemma committer_pairs_set [simp]: "(r, opts) \<in> set (committer_pairs committers rounds) \<longleftrightarrow> r \<in> set rounds \<and> opts \<in> set committers"
  by (auto simp: committer_pairs_def)

lemma committer_pairs_append:
  "committer_pairs committers (xs @ ys) = committer_pairs committers xs @ committer_pairs committers ys"
  by (simp add: committer_pairs_def)

lemma elected_slot:
  assumes "committer_elect_leader g sch opts r = Inr (Some s)"
  shows "slot_round s = r" "leader_round opts (wave_number opts r) = r"
    "elect_leader g sch r (leader_offset opts) = Inr (slot_authority s)"
  using assms by (auto simp: committer_elect_leader_def rbind_eq_Inr split: if_splits)

lemma first_round_le:
  "slot_round last_decided + 1 < 2 ^ 32 \<Longrightarrow> slot_round last_decided \<le> first_round_to_decide cfg last_decided"
  by (simp add: first_round_to_decide_def)

lemma visited_decidable:
  assumes "can_decide c byz U ds last_decided" "valid_election g sch committers c"
    and "committers = universal_build b" "builder_wave_length b = 3"
    and "set rounds \<subseteq> {first_round_to_decide (ds_config ds) last_decided..highest_accepted_round ds - 2}"
  shows "decidable_slots c byz U ds (rev (visited_slots g sch last_decided (committer_pairs committers rounds)))"
    and "\<forall>v \<in> set (rev (visited_slots g sch last_decided (committer_pairs committers rounds))).
      0 < slot_round (snd v) \<and> is_valid_index c (slot_authority (snd v))"
proof -
  have one: "wave_slot (opts, s) \<and> deciding c byz U ds (slot_round s) \<and> 0 < slot_round s
      \<and> is_valid_index c (slot_authority s)"
    if v: "(opts, s) \<in> set (visited_slots g sch last_decided (committer_pairs committers rounds))" for opts s
  proof -
    obtain r where r: "r \<in> set rounds" "opts \<in> set committers" "committer_elect_leader g sch opts r = Inr (Some s)"
      using visited_elected [OF v] by auto
    note e = elected_slot [OF r(3)]
    have w: "wave_length opts = 3" "round_offset opts < wave_length opts"
      using r(2) assms(4) unfolding assms(3) universal_build_set by (auto split: if_splits)
    have rb: "first_round_to_decide (ds_config ds) last_decided \<le> r" "r \<le> highest_accepted_round ds - 2"
      using r(1) assms(5) by auto
    have d: "deciding c byz U ds r"
      using assms(1) rb unfolding can_decide_def deciding_def Let_def by auto
    have "decision_round opts (wave_number opts r) = r + 2"
      using wave_round(2) [OF w(2) _ e(2)] w(1) decidingD(6) [OF d] by simp
    then have "wave_slot (opts, s)" using w(1) e(1) by (simp add: wave_slot_def)
    moreover have "is_valid_index c (slot_authority s)"
      using assms(2) r(2) e(3) unfolding valid_election_def by (metis sum.inject(2))
    ultimately show ?thesis using d e(1) decidingD(9) [OF d] by simp
  qed
  then show "decidable_slots c byz U ds (rev (visited_slots g sch last_decided (committer_pairs committers rounds)))"
    by (auto simp: decidable_slots_def)
  show "\<forall>v \<in> set (rev (visited_slots g sch last_decided (committer_pairs committers rounds))).
      0 < slot_round (snd v) \<and> is_valid_index c (slot_authority (snd v))"
    using one by auto
qed

lemma valid_election_elects:
  assumes "valid_election g sch committers c"
  shows "elects g sch (committer_pairs committers rounds)"
proof -
  have "is_ok (committer_elect_leader g sch opts r)" if o: "opts \<in> set committers" for opts r
  proof -
    from assms o have "\<exists>a. elect_leader g sch r (leader_offset opts) = Inr a"
      unfolding valid_election_def by blast
    then show ?thesis by (auto simp: committer_elect_leader_def)
  qed
  then show ?thesis unfolding elects_def by auto
qed

lemma try_decide_run:
  assumes "can_decide c byz U ds last_decided" "valid_election g sch committers c"
    and "committers = universal_build b" "builder_wave_length b = 3"
    and "vs = rev (visited_slots g sch last_decided (committer_pairs committers
      (rev [first_round_to_decide (ds_config ds) last_decided..<Suc (highest_accepted_round ds - 2)])))"
  shows "\<exists>xs l. universal_try_decide g sch committers ds last_decided = run_return l \<and> decisions ds vs xs
    \<and> decidable_slots c byz U ds vs \<and> map outcome l = map status_outcome (takeWhile is_decided (map fst xs))"
proof -
  let ?rounds = "rev [first_round_to_decide (ds_config ds) last_decided..<Suc (highest_accepted_round ds - 2)]"
  have r: "set ?rounds \<subseteq> {first_round_to_decide (ds_config ds) last_decided..highest_accepted_round ds - 2}" by auto
  have v: "decidable_slots c byz U ds vs"
    "\<forall>v \<in> set vs. 0 < slot_round (snd v) \<and> is_valid_index c (slot_authority (snd v))"
    unfolding assms(5) by (rule visited_decidable [OF assms(1-4) r])+
  have el: "elects g sch (committer_pairs committers ?rounds)" by (rule valid_election_elects [OF assms(2)])
  obtain stopped xs where xs: "run_until (try_decide_step g sch ds last_decided) (committer_pairs committers ?rounds) []
      = run_return (stopped, xs)" "decisions ds vs xs"
    using try_decide_loop [OF el decisions_Nil, of c byz U ds last_decided] v(1)
    unfolding assms(5) append_Nil2 by blast
  obtain l where l: "decided_prefix c xs = Inr l" "map outcome l = map status_outcome (takeWhile is_decided (map fst xs))"
    using decided_prefix_eq [OF decisions_slots [OF xs(2) v(1)] v(2)] by auto
  have "ds_committee ds = c" using assms(1) by (simp add: can_decide_def Let_def)
  then have "universal_try_decide g sch committers ds last_decided = run_return l"
    using xs(1) l(1) unfolding universal_try_decide_def Let_def committer_pairs_def by (simp add: run_return_def)
  then show ?thesis using xs(2) v(1) l(2) by blast
qed

lemma upt_split: "i \<le> j \<Longrightarrow> j \<le> k \<Longrightarrow> [i..<k] = [i..<j] @ [j..<k]"
  using upt_add_eq_append [of i j "k - j"] by simp

lemma try_decide_agree_le:
  assumes "can_decide c byz U ds1 last_decided" "can_decide c byz U ds2 last_decided"
    and "ds_config ds1 = ds_config ds2" "valid_election g sch committers c"
    and "committers = universal_build b" "builder_wave_length b = 3"
    and "highest_accepted_round ds1 \<le> highest_accepted_round ds2"
  shows "\<exists>l1 l2. universal_try_decide g sch committers ds1 last_decided = run_return l1
    \<and> universal_try_decide g sch committers ds2 last_decided = run_return l2
    \<and> (prefix (map outcome l1) (map outcome l2) \<or> prefix (map outcome l2) (map outcome l1))"
proof -
  let ?F = "first_round_to_decide (ds_config ds1) last_decided"
  let ?h1 = "highest_accepted_round ds1 - 2" and ?h2 = "highest_accepted_round ds2 - 2"
  let ?V = "\<lambda>rounds. visited_slots g sch last_decided (committer_pairs committers rounds)"
  obtain xs l1 where 1: "universal_try_decide g sch committers ds1 last_decided = run_return l1"
    "decisions ds1 (rev (?V (rev [?F..<Suc ?h1]))) xs" "decidable_slots c byz U ds1 (rev (?V (rev [?F..<Suc ?h1])))"
    "map outcome l1 = map status_outcome (takeWhile is_decided (map fst xs))"
    using try_decide_run [OF assms(1,4-6) refl] by blast
  obtain ys l2 where 2: "universal_try_decide g sch committers ds2 last_decided = run_return l2"
    "decisions ds2 (rev (?V (rev [?F..<Suc ?h2]))) ys" "decidable_slots c byz U ds2 (rev (?V (rev [?F..<Suc ?h2])))"
    "map outcome l2 = map status_outcome (takeWhile is_decided (map fst ys))"
    using try_decide_run [OF assms(2,4-6) refl] unfolding assms(3) by blast
  have "prefix (map outcome l1) (map outcome l2) \<or> prefix (map outcome l2) (map outcome l1)"
  proof (cases "?F \<le> ?h1")
    case False
    then have "rev [?F..<Suc ?h1] = []" by simp
    then have "xs = []" using 1(2) by (simp add: committer_pairs_def) (auto elim: decisions_NilE)
    then show ?thesis using 1(4) by simp
  next
    case True
    have "[?F..<Suc ?h2] = [?F..<Suc ?h1] @ [Suc ?h1..<Suc ?h2]"
      by (rule upt_split) (use True assms(7) in auto)
    then have split: "committer_pairs committers (rev [?F..<Suc ?h2]) =
        committer_pairs committers (rev [Suc ?h1..<Suc ?h2]) @ committer_pairs committers (rev [?F..<Suc ?h1])"
      by (simp add: committer_pairs_append)
    have "slot_round last_decided \<le> ?F"
      using assms(1) by (intro first_round_le) (simp add: can_decide_def Let_def)
    then have "?V (rev [?F..<Suc ?h2]) = ?V (rev [Suc ?h1..<Suc ?h2]) @ ?V (rev [?F..<Suc ?h1])"
      unfolding split using True by (intro visited_append) (auto dest: elected_slot(1))
    then have vs: "rev (?V (rev [?F..<Suc ?h2])) = rev (?V (rev [?F..<Suc ?h1])) @ rev (?V (rev [Suc ?h1..<Suc ?h2]))"
      by simp
    have "list_all2 agree_status (map fst xs) (take (length (map fst xs)) (map fst ys))"
      using decisions_agree [OF 1(2) 2(2) [unfolded vs] 1(3) 2(3) [unfolded vs]] by simp
    from agreeing_prefixes [OF this] show ?thesis
      unfolding 1(4) 2(4) using map_mono_prefix by blast
  qed
  then show ?thesis using 1(1) 2(1) by blast
qed

lemma decisions_prefix:
  assumes "can_decide c byz U ds1 last_decided" "can_decide c byz U ds2 last_decided"
    and "ds_config ds1 = ds_config ds2" "valid_election g sch committers c"
    and "committers = universal_build b" "builder_wave_length b = default_wave_length"
  shows "\<exists>l1 l2. universal_try_decide g sch committers ds1 last_decided = Some (Inr l1)
    \<and> universal_try_decide g sch committers ds2 last_decided = Some (Inr l2)
    \<and> (prefix (map outcome l1) (map outcome l2) \<or> prefix (map outcome l2) (map outcome l1))"
proof -
  have w: "builder_wave_length b = 3" using assms(6) by (simp add: default_wave_length_def minimum_wave_length_def)
  show ?thesis
  proof (cases "highest_accepted_round ds1 \<le> highest_accepted_round ds2")
    case True
    from try_decide_agree_le [OF assms(1-5) w this] show ?thesis unfolding run_return_def .
  next
    case False
    then have "highest_accepted_round ds2 \<le> highest_accepted_round ds1" by simp
    from try_decide_agree_le [OF assms(2,1) assms(3) [symmetric] assms(4,5) w this] show ?thesis
      unfolding run_return_def by blast
  qed
qed

text \<open>
  C2. Safety of the commit rule. Two correct nodes, each with its own part of the DAG, that decide
  leaders from the same last decided slot with the same schedule, both return, without panic, and
  the sequence of leaders that one commits or skips is a prefix of the sequence of the other:
  whatever blocks are missing or equivocated by faulty authorities below the fault threshold.
\<close>

theorem universal_decisions_agree:
  assumes "can_decide c byz U ds1 last_decided" "can_decide c byz U ds2 last_decided"
    and "ds_config ds1 = ds_config ds2" "valid_election g sch committers c"
    and "committers = universal_build b" "builder_wave_length b = default_wave_length"
  shows "\<exists>l1 l2. universal_try_decide g sch committers ds1 last_decided = Some (Inr l1)
    \<and> universal_try_decide g sch committers ds2 last_decided = Some (Inr l2)
    \<and> (prefix (map outcome l1) (map outcome l2) \<or> prefix (map outcome l2) (map outcome l1))"
  by (rule decisions_prefix [OF assms])

subsection \<open>The leaders of a round\<close>

lemma get_leaders_append:
  "get_leaders g sch (xs @ ys) r =
     rbind (get_leaders g sch xs r) (\<lambda>a. rbind (get_leaders g sch ys r) (\<lambda>b. Inr (a @ b)))"
  by (induction xs) (auto simp: get_leaders_def List.map_filter_def rbind_def split: sum.splits)

lemma get_leaders_row:
  assumes "ro < w" "r + w < 2 ^ 32"
  shows "get_leaders g sch (map (\<lambda>lo. \<lparr>wave_length = w, leader_offset = lo, round_offset = ro\<rparr>) los) r =
    (if r mod w = ro then rmap (elect_leader g sch r) los else Inr [])"
proof -
  have w: "leader_round \<lparr>wave_length = w, leader_offset = lo, round_offset = ro\<rparr>
      (wave_number \<lparr>wave_length = w, leader_offset = lo, round_offset = ro\<rparr> r) = r \<longleftrightarrow> r mod w = ro" for lo
    using wave_round(1) [of "\<lparr>wave_length = w, leader_offset = lo, round_offset = ro\<rparr>" r] assms by simp
  show ?thesis
    by (cases "r mod w = ro"; induction los)
      (auto simp: get_leaders_def committer_elect_leader_def w List.map_filter_def rbind_def split: sum.splits)
qed

lemma get_leaders_rows:
  assumes "\<forall>ro \<in> set ros. ro < w" "r + w < 2 ^ 32" "distinct ros"
  shows "get_leaders g sch (concat (map (\<lambda>ro. map (\<lambda>lo. \<lparr>wave_length = w, leader_offset = lo, round_offset = ro\<rparr>) los) ros)) r =
    (if r mod w \<in> set ros then rmap (elect_leader g sch r) los else Inr [])"
  using assms
proof (induction ros)
  case (Cons ro ros)
  then show ?case
    using get_leaders_row [of ro w r g sch los]
    by (cases "rmap (elect_leader g sch r) los") (auto simp: get_leaders_append)
qed (simp add: get_leaders_def List.map_filter_def)

text \<open>
  C21. Pipelining: for every round, the committers that the builder makes elect together the leaders
  at the offsets \<open>0\<close> to \<open>number_of_leaders - 1\<close>, in this order, each once; without pipelining they
  do so in the first round of every wave and elect none in the others. A leader is decided by the
  blocks of the last round of its wave.
\<close>

theorem pipelined_leaders:
  assumes "0 < builder_wave_length b" "r + builder_wave_length b < 2 ^ 32"
  shows "get_leaders g sch (universal_build b) r =
      (if pipeline b \<or> r mod builder_wave_length b = 0
       then rmap (elect_leader g sch r) [0..<number_of_leaders b] else Inr [])
    \<and> (\<forall>opts \<in> set (universal_build b). leader_round opts (wave_number opts r) = r \<longrightarrow>
         decision_round opts (wave_number opts r) = r + builder_wave_length b - 1)"
proof -
  have "decision_round opts (wave_number opts r) = r + builder_wave_length b - 1"
    if "opts \<in> set (universal_build b)" "leader_round opts (wave_number opts r) = r" for opts
    using wave_round(2) [of opts r] that assms by (auto simp: universal_build_set split: if_splits)
  then show ?thesis
    unfolding universal_build_def Let_def using assms by (subst get_leaders_rows) auto
qed

subsection \<open>Witnesses\<close>

lemma valid_election_single:
  assumes "rng_ok g" "committee_wf (ctx_committee (schedule_context sch))"
    and "good_set (leader_table sch) \<subseteq> members (ctx_committee (schedule_context sch))"
    and "good_set (leader_table sch) \<inter> bad_set (leader_table sch) = {}"
    and "bad_set (leader_table sch) = {} \<or> good_set (leader_table sch) \<noteq> {}"
    and "number_of_leaders b = 1"
  shows "valid_election g sch (universal_build b) (ctx_committee (schedule_context sch))"
  unfolding valid_election_def
proof (intro ballI allI)
  fix opts r assume "opts \<in> set (universal_build b)"
  then have "leader_offset opts = 0" using assms(6) by (auto simp: universal_build_set)
  then show "\<exists>a. elect_leader g sch r (leader_offset opts) = Inr a
      \<and> is_valid_index (ctx_committee (schedule_context sch)) a"
    using elect_single_leader [OF assms(1-5), of r] by (auto simp: members_def is_valid_index_def)
qed

abbreviation demo_schedule :: leader_schedule where
  "demo_schedule \<equiv> leader_schedule_new demo_context demo_table"

lemma demo_can_decide: "m \<le> n \<Longrightarrow> n < 1000 \<Longrightarrow> can_decide demo_committee {} (get_block (demo_rounds n)) (demo_rounds m) (Slot 0 0)"
  unfolding can_decide_def Let_def
  by (intro conjI demo_universe demo_view) (simp_all add: first_round_to_decide_def protocol_config_for_testing_def)

lemma demo_election:
  "valid_election demo_rng demo_schedule (universal_build (with_pipeline True builder_new)) demo_committee"
proof -
  have s: "ctx_committee (schedule_context demo_schedule) = demo_committee" "good_set (leader_table demo_schedule) = {0}"
    "bad_set (leader_table demo_schedule) = {2}"
    by (auto simp: leader_schedule_new_def demo_table_def good_set_def bad_set_def)
  show ?thesis
    using valid_election_single [OF demo_rng_ok, of demo_schedule "with_pipeline True builder_new"]
    unfolding s by (simp add: demo_committee_wf with_pipeline_def builder_new_def)
qed

theorem universal_decisions_agree_witness:
  "\<exists>l1 l2.
     universal_try_decide demo_rng demo_schedule (universal_build (with_pipeline True builder_new)) (demo_rounds 5) (Slot 0 0)
       = Some (Inr l1)
     \<and> universal_try_decide demo_rng demo_schedule (universal_build (with_pipeline True builder_new)) (demo_rounds 7) (Slot 0 0)
       = Some (Inr l2)
     \<and> (prefix (map outcome l1) (map outcome l2) \<or> prefix (map outcome l2) (map outcome l1))"
  by (rule universal_decisions_agree [OF demo_can_decide [of 5 7] demo_can_decide [of 7 7] _ demo_election refl])
    (simp_all add: with_pipeline_def builder_new_def)

theorem pipelined_leaders_witness:
  "get_leaders demo_rng demo_schedule (universal_build (with_pipeline True builder_new)) 2 =
     rmap (elect_leader demo_rng demo_schedule 2) [0..<1]"
  using pipelined_leaders [of "with_pipeline True builder_new" 2 demo_rng demo_schedule]
  by (simp add: with_pipeline_def builder_new_def default_wave_length_def minimum_wave_length_def)

end
