(* ===== verification/Block_Manager.thy ===== *)
theory Block_Manager
  imports Dag_State
begin

section \<open>The block manager\<close>

text \<open>
  Models \<open>consensus/core/src/block_manager.rs\<close>: blocks whose ancestors are not in the DAG yet are
  suspended, and are accepted once the last missing ancestor is. The manager shares the \<open>DagState\<close>,
  which is passed along; its context is that of the \<open>DagState\<close>. Of the metrics only the lookup of the
  authority remains, which panics on an index out of range.
\<close>

subsection \<open>State\<close>

record suspended_block =
  sus_block :: verified_block
  sus_missing :: "block_ref fset"
  sus_timestamp :: nat

definition suspended_block_new :: "nat \<Rightarrow> verified_block \<Rightarrow> block_ref fset \<Rightarrow> suspended_block" where
  "suspended_block_new now b missing = \<lparr>sus_block = b, sus_missing = missing, sus_timestamp = now\<rparr>"

record block_manager =
  suspended_blocks :: "(block_ref, suspended_block) fmap"
  missing_ancestors :: "(block_ref, block_ref fset) fmap"
  missing_blocks :: "block_ref fset"
  received_block_rounds :: "(round_number \<times> round_number) option list"

definition block_manager_new :: "node_context \<Rightarrow> block_manager" where
  "block_manager_new ctx = \<lparr>suspended_blocks = fmempty, missing_ancestors = fmempty, missing_blocks = {||},
     received_block_rounds = replicate (committee_size (ctx_committee ctx)) None\<rparr>"

datatype try_accept_result =
    Accepted verified_block
  | Suspended "block_ref fset"
  | Processed
  | Skipped

definition dependents :: "block_manager \<Rightarrow> block_ref \<Rightarrow> block_ref fset" where
  "dependents bm a = (case fmlookup (missing_ancestors bm) a of Some S \<Rightarrow> S | None \<Rightarrow> {||})"

subsection \<open>Unsuspending\<close>

definition try_unsuspend_block ::
  "block_ref \<Rightarrow> block_ref \<Rightarrow> block_manager \<Rightarrow> panic + suspended_block option \<times> block_manager" where
  "try_unsuspend_block r accepted_dependency bm =
     rbind (rexpect SuspendedBlockMissing (fmlookup (suspended_blocks bm) r)) (\<lambda>sb.
     rbind (rassert (accepted_dependency |\<in>| sus_missing sb) MissingDependencyAbsent) (\<lambda>_.
     let sb = sb\<lparr>sus_missing := sus_missing sb |-| {|accepted_dependency|}\<rparr> in
     if sus_missing sb = {||}
     then Inr (Some sb, bm\<lparr>suspended_blocks := fmdrop r (suspended_blocks bm)\<rparr>)
     else Inr (None, bm\<lparr>suspended_blocks := fmupd r sb (suspended_blocks bm)\<rparr>)))"

text \<open>The stack of blocks to process is a list whose head is its top.\<close>

definition unsuspend_child ::
  "block_ref \<Rightarrow> block_ref \<Rightarrow> block_ref list \<times> suspended_block list \<times> block_manager
     \<Rightarrow> panic + block_ref list \<times> suspended_block list \<times> block_manager" where
  "unsuspend_child accepted r = (\<lambda>(to_process, unsuspended, bm).
     rbind (try_unsuspend_block r accepted bm) (\<lambda>(opt, bm).
     case opt of
       Some sb \<Rightarrow> Inr (reference (sus_block sb) # to_process, unsuspended @ [sb], bm)
     | None \<Rightarrow> Inr (to_process, unsuspended, bm)))"

lemma unsuspend_child_missing:
  assumes "rfold (unsuspend_child r) rs s = Inr t"
  shows "missing_ancestors (snd (snd t)) = missing_ancestors (snd (snd s))"
  by (rule rfold_invariant [OF assms, of "\<lambda>t. missing_ancestors (snd (snd t)) = missing_ancestors (snd (snd s))"])
    (auto simp: unsuspend_child_def try_unsuspend_block_def res_simps Let_def split: option.splits if_splits)

function unsuspend_loop ::
  "block_ref list \<Rightarrow> suspended_block list \<Rightarrow> block_manager \<Rightarrow> panic + suspended_block list \<times> block_manager" where
  "unsuspend_loop [] unsuspended bm = Inr (unsuspended, bm)"
| "unsuspend_loop (r # to_process) unsuspended bm =
    (case fmlookup (missing_ancestors bm) r of
       None \<Rightarrow> unsuspend_loop to_process unsuspended bm
     | Some waiting \<Rightarrow>
         rbind (rfold (unsuspend_child r) (sorted_list_of_fset waiting)
             (to_process, unsuspended, bm\<lparr>missing_ancestors := fmdrop r (missing_ancestors bm)\<rparr>)) (\<lambda>s.
         unsuspend_loop (fst s) (fst (snd s)) (snd (snd s))))"
  by pat_completeness auto

termination
proof (relation "measures [\<lambda>(to_process, out, bm). fcard (fmdom (missing_ancestors bm)),
                           \<lambda>(to_process, out, bm). length to_process]", goal_cases)
  case (3 r to_process out bm waiting s)
  have "r |\<in>| fmdom (missing_ancestors bm)" using 3(1) by (rule fmdomI)
  then have "fcard (fmdom (missing_ancestors bm) |-| {|r|}) < fcard (fmdom (missing_ancestors bm))"
    by (rule fcard_fminus1_less)
  then show ?case using unsuspend_child_missing [OF 3(2)] by (simp add: case_prod_beta)
qed auto

definition try_unsuspend_children_blocks ::
  "committee \<Rightarrow> block_ref \<Rightarrow> block_manager \<Rightarrow> panic + verified_block list \<times> block_manager" where
  "try_unsuspend_children_blocks c accepted_block bm =
     rbind (unsuspend_loop [accepted_block] [] bm) (\<lambda>(unsuspended, bm).
     rbind (rmap (\<lambda>sb. committee_authority c (vb_author (sus_block sb))) unsuspended) (\<lambda>_.
     Inr (map sus_block unsuspended, bm)))"

subsection \<open>Accepting one block\<close>

definition note_ancestor ::
  "committee \<Rightarrow> block_ref \<Rightarrow> bool \<times> block_ref \<Rightarrow> block_ref fset \<times> block_ref fset \<times> block_manager
     \<Rightarrow> panic + block_ref fset \<times> block_ref fset \<times> block_manager" where
  "note_ancestor c r = (\<lambda>(found, a) (missing, to_fetch, bm).
     if found then Inr (missing, to_fetch, bm)
     else
       let bm = bm\<lparr>missing_ancestors := fmupd a (finsert r (dependents bm a)) (missing_ancestors bm)\<rparr> in
       rbind (committee_authority c (br_author a)) (\<lambda>_.
       if a |\<in>| fmdom (suspended_blocks bm) then Inr (finsert a missing, to_fetch, bm)
       else Inr (finsert a missing, finsert a to_fetch, bm\<lparr>missing_blocks := finsert a (missing_blocks bm)\<rparr>)))"

definition try_accept_one_block ::
  "nat \<Rightarrow> verified_block \<Rightarrow> dag_state \<Rightarrow> block_manager \<Rightarrow> panic + try_accept_result \<times> block_manager" where
  "try_accept_one_block now b ds bm =
    (let r = reference b; gc = gc_round ds; c = ds_committee ds in
     rbind (if r |\<in>| fmdom (suspended_blocks bm) then Inr True else contains_block ds r) (\<lambda>known.
     if known then Inr (Processed, bm)
     else if vb_round b \<le> gc then rbind (committee_authority c (vb_author b)) (\<lambda>_. Inr (Skipped, bm))
     else
       let ancs = filter (\<lambda>a. br_round a = genesis_round \<or> gc < br_round a) (vb_ancestors b) in
       rbind (contains_blocks ds ancs) (\<lambda>found.
       rbind (rfold (note_ancestor c r) (zip found ancs) ({||}, {||}, bm)) (\<lambda>(missing, to_fetch, bm).
       let bm = bm\<lparr>missing_blocks := missing_blocks bm |-| {|r|}\<rparr> in
       if missing \<noteq> {||}
       then rbind (committee_authority c (vb_author b)) (\<lambda>_.
            Inr (Suspended to_fetch,
              bm\<lparr>suspended_blocks := fmupd r (suspended_block_new now b missing) (suspended_blocks bm)\<rparr>))
       else Inr (Accepted b, bm)))))"

definition remove_dependent :: "block_ref \<Rightarrow> block_ref \<Rightarrow> block_manager \<Rightarrow> block_manager" where
  "remove_dependent r a bm =
    (case fmlookup (missing_ancestors bm) a of
       None \<Rightarrow> bm
     | Some S \<Rightarrow> bm\<lparr>missing_ancestors := fmupd a (S |-| {|r|}) (missing_ancestors bm)\<rparr>)"

text \<open>Taking the block out of the missing and the suspended blocks.\<close>

definition forget :: "block_ref \<Rightarrow> block_manager \<Rightarrow> block_manager" where
  "forget r bm =
    (let bm = bm\<lparr>missing_blocks := missing_blocks bm |-| {|r|}\<rparr> in
     case fmlookup (suspended_blocks bm) r of
       None \<Rightarrow> bm
     | Some sb \<Rightarrow> fold (remove_dependent r) (sorted_list_of_fset (sus_missing sb))
         (bm\<lparr>suspended_blocks := fmdrop r (suspended_blocks bm)\<rparr>))"

definition try_accept_one_committed_block ::
  "nat \<Rightarrow> verified_block \<Rightarrow> dag_state \<Rightarrow> block_manager
     \<Rightarrow> panic + try_accept_result \<times> dag_state \<times> block_manager" where
  "try_accept_one_committed_block now b ds bm =
     rbind (contains_block ds (reference b)) (\<lambda>known.
     if known then Inr (Processed, ds, bm)
     else
       let bm = forget (reference b) bm in
       rbind (accept_blocks now [b] ds) (\<lambda>ds. Inr (Accepted b, ds, bm)))"

subsection \<open>Accepting blocks\<close>

definition update_block_received_metrics :: "committee \<Rightarrow> verified_block \<Rightarrow> block_manager \<Rightarrow> panic + block_manager" where
  "update_block_received_metrics c b bm =
     rbind (vec_get (received_block_rounds bm) (vb_author b)) (\<lambda>old.
     let rounds = (case old of
                     Some (lo, hi) \<Rightarrow> (min lo (vb_round b), max hi (vb_round b))
                   | None \<Rightarrow> (vb_round b, vb_round b))
     in
     rbind (committee_authority c (vb_author b)) (\<lambda>_.
     Inr (bm\<lparr>received_block_rounds := (received_block_rounds bm)[vb_author b := Some rounds]\<rparr>)))"

text \<open>
  One round of the loop over the input blocks, on the accepted blocks, the missing blocks and the
  two states. The blocks to accept are those of the input block, unless it is committed and hence
  accepted already, and the blocks it unsuspends.
\<close>

type_synonym accept_state = "verified_block list \<times> block_ref fset \<times> dag_state \<times> block_manager"

definition unsuspend_and_accept ::
  "nat \<Rightarrow> block_ref \<Rightarrow> verified_block list \<Rightarrow> accept_state \<Rightarrow> panic + accept_state" where
  "unsuspend_and_accept now r to_accept = (\<lambda>(accepted, missing, ds, bm).
     rbind (try_unsuspend_children_blocks (ds_committee ds) r bm) (\<lambda>(unsuspended, bm).
     rbind (accept_blocks now (to_accept @ unsuspended) ds) (\<lambda>ds.
     Inr (accepted @ to_accept @ unsuspended, missing, ds, bm))))"

definition accept_input :: "nat \<Rightarrow> bool \<Rightarrow> verified_block \<Rightarrow> accept_state \<Rightarrow> panic + accept_state" where
  "accept_input now via_commit b = (\<lambda>(accepted, missing, ds, bm).
     rbind (update_block_received_metrics (ds_committee ds) b bm) (\<lambda>bm.
     if via_commit
     then rbind (try_accept_one_committed_block now b ds bm) (\<lambda>(res, ds, bm).
       case res of
         Accepted b \<Rightarrow> unsuspend_and_accept now (reference b) [] (accepted @ [b], missing, ds, bm)
       | Processed \<Rightarrow> Inr (accepted, missing, ds, bm)
       | _ \<Rightarrow> Inl CommittedBlockNotAccepted)
     else rbind (try_accept_one_block now b ds bm) (\<lambda>(res, bm).
       case res of
         Accepted b \<Rightarrow> unsuspend_and_accept now (reference b) [b] (accepted, missing, ds, bm)
       | Suspended to_fetch \<Rightarrow> Inr (accepted, missing |\<union>| to_fetch, ds, bm)
       | _ \<Rightarrow> Inr (accepted, missing, ds, bm))))"

definition try_accept_blocks_internal ::
  "nat \<Rightarrow> verified_block list \<Rightarrow> bool \<Rightarrow> dag_state \<Rightarrow> block_manager \<Rightarrow> panic + accept_state" where
  "try_accept_blocks_internal now blocks via_commit ds bm =
     rfold (accept_input now via_commit) (sort_key vb_round blocks) ([], {||}, ds, bm)"

definition try_accept_blocks ::
  "nat \<Rightarrow> verified_block list \<Rightarrow> dag_state \<Rightarrow> block_manager \<Rightarrow> panic + accept_state" where
  "try_accept_blocks now blocks ds bm = try_accept_blocks_internal now blocks False ds bm"

definition try_accept_committed_blocks ::
  "nat \<Rightarrow> verified_block list \<Rightarrow> dag_state \<Rightarrow> block_manager
     \<Rightarrow> panic + verified_block list \<times> dag_state \<times> block_manager" where
  "try_accept_committed_blocks now blocks ds bm =
     rbind (try_accept_blocks_internal now blocks True ds bm) (\<lambda>(accepted, missing, ds, bm).
     rbind (rassert (missing = {||}) CommittedBlocksMissing) (\<lambda>_.
     Inr (accepted, ds, bm)))"

subsection \<open>Finding blocks and garbage collection\<close>

definition note_wanted ::
  "committee \<Rightarrow> bool \<times> block_ref \<Rightarrow> block_ref fset \<times> block_manager \<Rightarrow> panic + block_ref fset \<times> block_manager" where
  "note_wanted c = (\<lambda>(found, r) (missing, bm).
     if found \<or> r |\<in>| fmdom (suspended_blocks bm) then Inr (missing, bm)
     else if r |\<in>| missing_blocks bm then Inr (finsert r missing, bm)
     else rbind (committee_authority c (br_author r)) (\<lambda>_.
          Inr (finsert r missing, bm\<lparr>missing_blocks := finsert r (missing_blocks bm),
                missing_ancestors := fmupd r (dependents bm r) (missing_ancestors bm)\<rparr>)))"

definition try_find_blocks ::
  "block_ref list \<Rightarrow> dag_state \<Rightarrow> block_manager \<Rightarrow> panic + block_ref fset \<times> block_manager" where
  "try_find_blocks refs ds bm =
    (let refs = filter (\<lambda>r. gc_round ds < br_round r) refs in
     if refs = [] then Inr ({||}, bm)
     else
       let refs = sort_key br_round refs in
       rbind (contains_blocks ds refs) (\<lambda>found.
       rfold (note_wanted (ds_committee ds)) (zip found refs) ({||}, bm)))"

lemma unsuspend_loop_missing:
  "unsuspend_loop to_process out bm = Inr (out', bm') \<Longrightarrow>
     fmdom (missing_ancestors bm') |\<subseteq>| fmdom (missing_ancestors bm)
     \<and> (\<forall>r \<in> set to_process. r |\<notin>| fmdom (missing_ancestors bm'))"
proof (induction to_process out bm rule: unsuspend_loop.induct)
  case (2 r to_process out bm)
  show ?case
  proof (cases "fmlookup (missing_ancestors bm) r")
    case None
    then show ?thesis using 2 by (fastforce simp: fmdom_notI)
  next
    case (Some waiting)
    then obtain s where s: "rfold (unsuspend_child r) (sorted_list_of_fset waiting)
        (to_process, out, bm\<lparr>missing_ancestors := fmdrop r (missing_ancestors bm)\<rparr>) = Inr s"
      "unsuspend_loop (fst s) (fst (snd s)) (snd (snd s)) = Inr (out', bm')"
      using "2.prems" by (auto simp: rbind_eq_Inr)
    have "set to_process \<subseteq> set (fst s)"
      by (rule rfold_invariant [OF s(1), of "\<lambda>t. set to_process \<subseteq> set (fst t)"])
        (fastforce simp: unsuspend_child_def res_simps split: option.splits)+
    then show ?thesis
      using "2.IH"(2) [OF Some s] unsuspend_child_missing [OF s(1)] by auto
  qed
qed simp

function gc_loop ::
  "nat \<Rightarrow> round_number \<Rightarrow> dag_state \<Rightarrow> block_manager \<Rightarrow> panic + dag_state \<times> block_manager" where
  "gc_loop now gc ds bm =
    (case sorted_list_of_fset (fmdom (missing_ancestors bm)) of
       [] \<Rightarrow> Inr (ds, bm)
     | r # _ \<Rightarrow>
         if gc < br_round r then Inr (ds, bm)
         else
           rbind (committee_authority (ds_committee ds) (br_author r)) (\<lambda>_.
           rbind (rassert (r |\<notin>| fmdom (suspended_blocks bm)) GcBlockSuspended) (\<lambda>_.
           rbind (try_unsuspend_children_blocks (ds_committee ds) r
               (bm\<lparr>missing_blocks := missing_blocks bm |-| {|r|}\<rparr>)) (\<lambda>s.
           rbind (accept_blocks now (fst s) ds) (\<lambda>ds'.
           rbind (rmap (\<lambda>b. committee_authority (ds_committee ds) (vb_author b)) (fst s)) (\<lambda>_.
           gc_loop now gc ds' (snd s)))))))"
  by pat_completeness auto

termination
proof (relation "measure (\<lambda>(now, gc, ds, bm). fcard (fmdom (missing_ancestors bm)))", goal_cases)
  case (2 now gc ds bm r rs x1 x2 s ds' x3)
  have r: "r |\<in>| fmdom (missing_ancestors bm)"
    using 2(1) by (metis list.set_intros(1) sorted_list_of_fset_simps(1))
  obtain out bm' where u: "unsuspend_loop [r] [] (bm\<lparr>missing_blocks := missing_blocks bm |-| {|r|}\<rparr>) = Inr (out, bm')"
    "s = (map sus_block out, bm')"
    using 2(5) by (auto simp: try_unsuspend_children_blocks_def rbind_eq_Inr)
  have "fmdom (missing_ancestors bm') |\<subset>| fmdom (missing_ancestors bm)"
    using unsuspend_loop_missing [OF u(1)] r by auto
  then show ?case using u(2) by (simp add: pfsubset_fcard_mono)
qed simp

declare gc_loop.simps [simp del]

definition try_unsuspend_blocks_for_latest_gc_round ::
  "nat \<Rightarrow> dag_state \<Rightarrow> block_manager \<Rightarrow> panic + dag_state \<times> block_manager" where
  "try_unsuspend_blocks_for_latest_gc_round now ds bm = gc_loop now (gc_round ds) ds bm"

end
