(* ===== verification/Block_Manager_Inv.thy ===== *)
theory Block_Manager_Inv
  imports Block_Manager Commit_Votes Dag_Correct
begin

section \<open>The invariant of the block manager\<close>

text \<open>
  The invariant that ties \<open>suspended_blocks\<close>, \<open>missing_ancestors\<close> and \<open>missing_blocks\<close> to the blocks that
  are known, what the stack of \<open>try_unsuspend_children_blocks\<close> computes, and the cases of
  \<open>try_accept_one_block\<close>.
\<close>

subsection \<open>Invariant\<close>

text \<open>
  The invariant over the set \<open>K\<close> of blocks that are known, of which \<open>P\<close> wait for their children to be
  examined. A suspended block waits exactly for ancestors that it has, among them all those above
  the GC round that are unknown; the index from missing ancestors to waiting blocks is the inverse
  of this relation; the blocks to fetch are the keys of the index that are not suspended.
\<close>

definition waits_ok :: "block_ref set \<Rightarrow> round_number \<Rightarrow> block_ref set \<Rightarrow> block_ref \<Rightarrow> suspended_block \<Rightarrow> bool" where
  "waits_ok K gc P r sb \<longleftrightarrow> reference (sus_block sb) = r \<and> 0 < br_round r \<and> r \<notin> K \<and> sus_missing sb \<noteq> {||}
     \<and> fset (sus_missing sb) \<subseteq> set (vb_ancestors (sus_block sb))
     \<and> (\<forall>a \<in> set (vb_ancestors (sus_block sb)). gc < br_round a \<longrightarrow> a \<in> K - P \<or> a |\<in>| sus_missing sb)"

definition bm_inv :: "block_ref set \<Rightarrow> round_number \<Rightarrow> block_ref set \<Rightarrow> block_manager \<Rightarrow> bool" where
  "bm_inv K gc P bm \<longleftrightarrow>
     (\<forall>r sb. fmlookup (suspended_blocks bm) r = Some sb \<longrightarrow> waits_ok K gc P r sb)
     \<and> (\<forall>a r. r |\<in>| dependents bm a \<longleftrightarrow> (\<exists>sb. fmlookup (suspended_blocks bm) r = Some sb \<and> a |\<in>| sus_missing sb))
     \<and> (\<forall>a. a |\<in>| fmdom (missing_ancestors bm) \<longrightarrow> a \<notin> K - P)
     \<and> (\<forall>a. a |\<in>| missing_blocks bm \<longleftrightarrow>
          a |\<in>| fmdom (missing_ancestors bm) \<and> a |\<notin>| fmdom (suspended_blocks bm) \<and> a \<notin> P)"

lemma bm_invD:
  assumes "bm_inv K gc P bm"
  shows "\<And>r sb. fmlookup (suspended_blocks bm) r = Some sb \<Longrightarrow> waits_ok K gc P r sb"
    and "\<And>a r. r |\<in>| dependents bm a \<longleftrightarrow> (\<exists>sb. fmlookup (suspended_blocks bm) r = Some sb \<and> a |\<in>| sus_missing sb)"
    and "\<And>a. a |\<in>| fmdom (missing_ancestors bm) \<Longrightarrow> a \<notin> K - P"
    and "\<And>a. a |\<in>| missing_blocks bm \<longleftrightarrow>
          a |\<in>| fmdom (missing_ancestors bm) \<and> a |\<notin>| fmdom (suspended_blocks bm) \<and> a \<notin> P"
  using assms unfolding bm_inv_def by blast+

subsection \<open>Unsuspending the children of one block\<close>

definition freed :: "block_manager \<Rightarrow> block_ref \<Rightarrow> block_ref \<Rightarrow> bool" where
  "freed bm dep r \<longleftrightarrow> (\<exists>sb. fmlookup (suspended_blocks bm) r = Some sb \<and> sus_missing sb = {|dep|})"

definition unblocked :: "block_ref \<Rightarrow> suspended_block \<Rightarrow> suspended_block" where
  "unblocked dep sb = sb\<lparr>sus_missing := sus_missing sb |-| {|dep|}\<rparr>"

lemma fminus_triv: "a |\<notin>| S \<Longrightarrow> S |-| {|a|} = S"
  by auto

lemma unblocked_simps [simp]:
  "sus_block (unblocked dep sb) = sus_block sb" "sus_missing (unblocked dep sb) = sus_missing sb |-| {|dep|}"
  by (simp_all add: unblocked_def)

definition release :: "block_ref \<Rightarrow> block_ref set \<Rightarrow> block_manager \<Rightarrow> block_ref \<Rightarrow> suspended_block option" where
  "release dep S bm r =
    (if r \<in> S then if freed bm dep r then None else map_option (unblocked dep) (fmlookup (suspended_blocks bm) r)
     else fmlookup (suspended_blocks bm) r)"

lemma unsuspend_children:
  assumes "distinct xs" "\<forall>x \<in> set xs. \<exists>sb. fmlookup (suspended_blocks bm) x = Some sb
      \<and> dep |\<in>| sus_missing sb \<and> reference (sus_block sb) = x"
  shows "\<exists>susp. rfold (unsuspend_child dep) xs (stack, out, bm) =
      Inr (rev (filter (freed bm dep) xs) @ stack,
           out @ map (\<lambda>x. unblocked dep (the (fmlookup (suspended_blocks bm) x))) (filter (freed bm dep) xs),
           bm\<lparr>suspended_blocks := susp\<rparr>)
    \<and> (\<forall>r. fmlookup susp r = release dep (set xs) bm r)"
  using assms
proof (induction xs arbitrary: stack out bm)
  case Nil
  show ?case by (rule exI [of _ "suspended_blocks bm"]) (simp add: release_def)
next
  case (Cons x xs)
  obtain sb where sb: "fmlookup (suspended_blocks bm) x = Some sb" "dep |\<in>| sus_missing sb" "reference (sus_block sb) = x"
    using Cons.prems(2) by auto
  define bm1 where "bm1 = bm\<lparr>suspended_blocks :=
    (if freed bm dep x then fmdrop x (suspended_blocks bm) else fmupd x (unblocked dep sb) (suspended_blocks bm))\<rparr>"
  have fx: "freed bm dep x \<longleftrightarrow> sus_missing sb |-| {|dep|} = {||}"
    using sb by (auto simp: freed_def)
  have old: "fmlookup (suspended_blocks bm1) y = fmlookup (suspended_blocks bm) y" if "y \<noteq> x" for y
    using that by (simp add: bm1_def)
  have f: "freed bm1 dep y = freed bm dep y" if "y \<noteq> x" for y
    using old [OF that] by (simp add: freed_def)
  have xs: "\<forall>y \<in> set xs. y \<noteq> x" using Cons.prems(1) by auto
  have step: "unsuspend_child dep x (stack, out, bm) =
      Inr (if freed bm dep x then x # stack else stack,
           if freed bm dep x then out @ [unblocked dep sb] else out, bm1)"
    using sb fx by (simp add: unsuspend_child_def try_unsuspend_block_def bm1_def unblocked_def [symmetric])
  have "\<forall>y \<in> set xs. \<exists>sb. fmlookup (suspended_blocks bm1) y = Some sb \<and> dep |\<in>| sus_missing sb
      \<and> reference (sus_block sb) = y"
    using Cons.prems(2) old xs by simp
  from Cons.IH [OF _ this, of "if freed bm dep x then x # stack else stack"
      "if freed bm dep x then out @ [unblocked dep sb] else out"] Cons.prems(1)
  obtain susp where susp: "rfold (unsuspend_child dep) xs (if freed bm dep x then x # stack else stack,
       if freed bm dep x then out @ [unblocked dep sb] else out, bm1) =
      Inr (rev (filter (freed bm1 dep) xs) @ (if freed bm dep x then x # stack else stack),
           (if freed bm dep x then out @ [unblocked dep sb] else out) @
             map (\<lambda>x. unblocked dep (the (fmlookup (suspended_blocks bm1) x))) (filter (freed bm1 dep) xs),
           bm1\<lparr>suspended_blocks := susp\<rparr>)"
    "\<forall>r. fmlookup susp r = release dep (set xs) bm1 r"
    by auto
  have fs: "filter (freed bm1 dep) xs = filter (freed bm dep) xs"
    using f xs by (intro filter_cong) auto
  have ms: "map (\<lambda>x. unblocked dep (the (fmlookup (suspended_blocks bm1) x))) (filter (freed bm dep) xs)
      = map (\<lambda>x. unblocked dep (the (fmlookup (suspended_blocks bm) x))) (filter (freed bm dep) xs)"
    using old xs by (intro map_cong) auto
  have rel: "release dep (set xs) bm1 r = release dep (set (x # xs)) bm r" for r
  proof (cases "r = x")
    case True
    have "x \<notin> set xs" using xs by blast
    then show ?thesis using True sb(1) by (auto simp: release_def bm1_def)
  next
    case False
    then show ?thesis using old f by (simp add: release_def)
  qed
  show ?case
    using susp unfolding fs ms rel by (intro exI [of _ susp]) (simp add: step sb(1) bm1_def)
qed

subsection \<open>The loop\<close>

text \<open>A list of blocks each of whose ancestors above the GC round is known or precedes it.\<close>

primrec causal :: "block_ref set \<Rightarrow> round_number \<Rightarrow> verified_block list \<Rightarrow> bool" where
  "causal K gc [] = True"
| "causal K gc (b # bs) \<longleftrightarrow> (\<forall>a \<in> set (vb_ancestors b). gc < br_round a \<longrightarrow> a \<in> K) \<and> causal (insert (reference b) K) gc bs"

lemma causal_append: "causal K gc (xs @ ys) \<longleftrightarrow> causal K gc xs \<and> causal (K \<union> reference ` set xs) gc ys"
  by (induction xs arbitrary: K) (simp_all add: insert_def [symmetric] Un_insert_left [symmetric] del: Un_insert_left)

lemma causal_known: "(\<forall>b \<in> set bs. \<forall>a \<in> set (vb_ancestors b). gc < br_round a \<longrightarrow> a \<in> K) \<Longrightarrow> causal K gc bs"
  by (induction bs arbitrary: K) auto

definition suspended_set :: "block_manager \<Rightarrow> verified_block set" where
  "suspended_set bm = {b. \<exists>sb. fmlookup (suspended_blocks bm) (reference b) = Some sb \<and> sus_block sb = b}"

lemma release_eq:
  assumes "bm_inv K gc P bm"
  shows "release r (fset (dependents bm r)) bm x =
    (if x |\<in>| dependents bm r \<and> freed bm r x then None else map_option (unblocked r) (fmlookup (suspended_blocks bm) x))"
proof (cases "x |\<in>| dependents bm r")
  case False
  have "unblocked r sb = sb" if "fmlookup (suspended_blocks bm) x = Some sb" for sb
    using bm_invD(2) [OF assms, of x r] False that by (cases sb) (auto simp: unblocked_def fminus_triv)
  then show ?thesis using False by (cases "fmlookup (suspended_blocks bm) x") (auto simp: release_def)
qed (simp add: release_def)

lemma unsuspend_step:
  assumes "bm_inv K gc (insert r P) bm" "r \<in> K" "r \<notin> P" "P \<subseteq> K"
    and "\<forall>x. fmlookup susp x = release r (fset (dependents bm r)) bm x"
    and "N = {x. x |\<in>| dependents bm r \<and> freed bm r x}"
  shows "bm_inv (K \<union> N) gc (P \<union> N)
      (bm\<lparr>missing_ancestors := fmdrop r (missing_ancestors bm), suspended_blocks := susp\<rparr>)"
proof -
  note I = bm_invD [OF assms(1)]
  let ?bm = "bm\<lparr>missing_ancestors := fmdrop r (missing_ancestors bm), suspended_blocks := susp\<rparr>"
  have N: "\<exists>sb. fmlookup (suspended_blocks bm) x = Some sb \<and> sus_missing sb = {|r|} \<and> x \<notin> K" if "x \<in> N" for x
    using that I(1) unfolding assms(6) freed_def waits_ok_def by blast
  have NK: "N \<inter> K = {}" using N by blast
  have dep: "dependents ?bm a = (if a = r then {||} else dependents bm a)" for a
    by (simp add: dependents_def)
  have susp: "fmlookup susp x = (if x \<in> N then None else map_option (unblocked r) (fmlookup (suspended_blocks bm) x))" for x
    using release_eq [OF assms(1)] assms(5,6) by simp
  show ?thesis
    unfolding bm_inv_def
  proof (intro conjI allI impI)
    fix x sb assume x: "fmlookup (suspended_blocks ?bm) x = Some sb"
    obtain sb0 where sb0: "fmlookup (suspended_blocks bm) x = Some sb0" "x \<notin> N" "sb = unblocked r sb0"
      using x susp [of x] by (auto split: if_splits)
    have w: "waits_ok K gc (insert r P) x sb0" by (rule I(1) [OF sb0(1)])
    have "sus_missing sb \<noteq> {||}"
    proof
      assume "sus_missing sb = {||}"
      then have "sus_missing sb0 = {|r|}" using sb0(3) w by (auto simp: waits_ok_def)
      then show False using sb0(1,2) I(2) [of x r] by (auto simp: assms(6) freed_def)
    qed
    then show "waits_ok (K \<union> N) gc (P \<union> N) x sb"
      using w sb0 NK assms(2,3) unfolding waits_ok_def by auto
  next
    fix a x
    show "x |\<in>| dependents ?bm a \<longleftrightarrow> (\<exists>sb. fmlookup (suspended_blocks ?bm) x = Some sb \<and> a |\<in>| sus_missing sb)"
    proof -
      have "(\<exists>sb. fmlookup susp x = Some sb \<and> a |\<in>| sus_missing sb) \<longleftrightarrow> x \<notin> N \<and> a \<noteq> r \<and> x |\<in>| dependents bm a"
        unfolding I(2) [of x a] susp [of x] by (cases "fmlookup (suspended_blocks bm) x") auto
      moreover have "x \<notin> N" if "x |\<in>| dependents bm a" "a \<noteq> r"
      proof
        assume "x \<in> N"
        then obtain sb where "fmlookup (suspended_blocks bm) x = Some sb" "sus_missing sb = {|r|}" using N by blast
        then show False using that I(2) [of x a] by simp
      qed
      ultimately show ?thesis unfolding dep by (simp, blast)
    qed
  next
    fix a assume "a |\<in>| fmdom (missing_ancestors ?bm)"
    then show "a \<notin> K \<union> N - (P \<union> N)" using I(3) [of a] by auto
  next
    fix a
    have "a |\<in>| fmdom susp \<longleftrightarrow> a |\<in>| fmdom (suspended_blocks bm) \<and> a \<notin> N"
      using susp [of a] by (auto simp: fmlookup_dom_iff split: if_splits)
    then show "a |\<in>| missing_blocks ?bm \<longleftrightarrow> a |\<in>| fmdom (missing_ancestors ?bm) \<and> a |\<notin>| fmdom (suspended_blocks ?bm) \<and> a \<notin> P \<union> N"
      using I(4) [of a] N [of a] by (auto simp: fmlookup_dom_iff)
  qed
qed

lemma unsuspend_none:
  assumes "bm_inv K gc (insert r P) bm" "r \<in> K" "r \<notin> P" "fmlookup (missing_ancestors bm) r = None"
  shows "bm_inv K gc P bm"
proof -
  note I = bm_invD [OF assms(1)]
  have r: "r |\<notin>| fmdom (missing_ancestors bm)" using assms(4) by (rule fmdom_notI)
  have d: "dependents bm r = {||}" using assms(4) by (simp add: dependents_def)
  have "waits_ok K gc P x sb" if x: "fmlookup (suspended_blocks bm) x = Some sb" for x sb
    using I(1) [OF x] assms(2,3) unfolding waits_ok_def by auto
  moreover have "a |\<in>| missing_blocks bm \<longleftrightarrow>
      a |\<in>| fmdom (missing_ancestors bm) \<and> a |\<notin>| fmdom (suspended_blocks bm) \<and> a \<notin> P" for a
    using I(4) [of a] r by blast
  moreover have "a \<notin> K - P" if "a |\<in>| fmdom (missing_ancestors bm)" for a
    using I(3) [OF that] r that by blast
  ultimately show ?thesis using I(2) unfolding bm_inv_def by blast
qed

lemma unsuspend_one:
  assumes "bm_inv K gc (insert r P) bm" "r \<in> K" "r \<notin> P" "P \<subseteq> K" "fmlookup (missing_ancestors bm) r = Some S"
  shows "\<exists>new bm'. rfold (unsuspend_child r) (sorted_list_of_fset S)
        (stack, out, bm\<lparr>missing_ancestors := fmdrop r (missing_ancestors bm)\<rparr>) =
        Inr (rev (map (\<lambda>sb. reference (sus_block sb)) new) @ stack, out @ new, bm')
    \<and> bm_inv (K \<union> reference ` sus_block ` set new) gc (P \<union> reference ` sus_block ` set new) bm'
    \<and> distinct (map (\<lambda>sb. reference (sus_block sb)) new)
    \<and> (\<forall>sb \<in> set new. reference (sus_block sb) \<notin> K
         \<and> (\<forall>a \<in> set (vb_ancestors (sus_block sb)). gc < br_round a \<longrightarrow> a \<in> K))
    \<and> suspended_set bm = suspended_set bm' \<union> sus_block ` set new
    \<and> received_block_rounds bm' = received_block_rounds bm
    \<and> missing_ancestors bm' = fmdrop r (missing_ancestors bm)"
proof -
  note I = bm_invD [OF assms(1)]
  let ?bm = "bm\<lparr>missing_ancestors := fmdrop r (missing_ancestors bm)\<rparr>"
  let ?xs = "sorted_list_of_fset S"
  let ?ns = "filter (freed ?bm r) ?xs"
  let ?get = "\<lambda>x. unblocked r (the (fmlookup (suspended_blocks ?bm) x))"
  have S: "dependents bm r = S" using assms(5) by (simp add: dependents_def)
  have w: "\<exists>sb. fmlookup (suspended_blocks ?bm) x = Some sb \<and> r |\<in>| sus_missing sb \<and> reference (sus_block sb) = x"
    if "x |\<in>| S" for x
    using I(1,2) that S unfolding waits_ok_def by fastforce
  have d: "distinct ?xs" by (simp add: sorted_list_of_fset.rep_eq)
  have ws: "\<forall>x \<in> set ?xs. \<exists>sb. fmlookup (suspended_blocks ?bm) x = Some sb
      \<and> r |\<in>| sus_missing sb \<and> reference (sus_block sb) = x"
    using w by simp
  obtain susp where susp: "rfold (unsuspend_child r) ?xs (stack, out, ?bm) =
      Inr (rev ?ns @ stack, out @ map ?get ?ns, ?bm\<lparr>suspended_blocks := susp\<rparr>)"
    "\<forall>x. fmlookup susp x = release r (set ?xs) ?bm x"
    using unsuspend_children [OF d ws] by blast
  have f: "freed ?bm r = freed bm r" by (simp add: freed_def fun_eq_iff)
  have rel: "release r (set ?xs) ?bm x = release r (fset (dependents bm r)) bm x" for x
    by (simp add: release_def f S)
  have get: "\<exists>sb. fmlookup (suspended_blocks bm) x = Some sb \<and> sus_missing sb = {|r|} \<and> sus_block (?get x) = sus_block sb
      \<and> reference (sus_block sb) = x \<and> waits_ok K gc (insert r P) x sb" if x: "x \<in> set ?ns" for x
  proof -
    obtain sb where sb: "fmlookup (suspended_blocks bm) x = Some sb" "sus_missing sb = {|r|}"
      using x unfolding f freed_def by auto
    then show ?thesis using I(1) [OF sb(1)] by (simp add: waits_ok_def)
  qed
  have refs: "map (\<lambda>sb. reference (sus_block sb)) (map ?get ?ns) = ?ns"
  proof -
    have "reference (sus_block (?get x)) = x" if x: "x \<in> set ?ns" for x
      using get [OF x] by (elim exE conjE) simp
    then show ?thesis unfolding map_map comp_def by (rule map_idI)
  qed
  have N: "reference ` sus_block ` set (map ?get ?ns) = {x. x |\<in>| dependents bm r \<and> freed bm r x}"
  proof -
    have im: "reference ` sus_block ` set xs = set (map (\<lambda>sb. reference (sus_block sb)) xs)" for xs by auto
    have "reference ` sus_block ` set (map ?get ?ns) = set ?ns" unfolding im refs ..
    also have "\<dots> = {x. x |\<in>| dependents bm r \<and> freed bm r x}" unfolding f S by auto
    finally show ?thesis .
  qed
  have inv: "bm_inv (K \<union> reference ` sus_block ` set (map ?get ?ns)) gc (P \<union> reference ` sus_block ` set (map ?get ?ns))
      (?bm\<lparr>suspended_blocks := susp\<rparr>)"
    unfolding N using unsuspend_step [OF assms(1-4) _ refl, of susp] susp(2) rel by simp
  have anc: "reference (sus_block sb) \<notin> K \<and> (\<forall>a \<in> set (vb_ancestors (sus_block sb)). gc < br_round a \<longrightarrow> a \<in> K)"
    if sb: "sb \<in> set (map ?get ?ns)" for sb
  proof -
    obtain x where "x \<in> set ?ns" "sb = ?get x" using sb by auto
    with get [of x] assms(2) show ?thesis unfolding waits_ok_def by auto
  qed
  have sus: "suspended_set bm = suspended_set (?bm\<lparr>suspended_blocks := susp\<rparr>) \<union> sus_block ` set (map ?get ?ns)"
  proof (rule set_eqI)
    fix b
    have l: "fmlookup susp (reference b) = (if reference b |\<in>| dependents bm r \<and> freed bm r (reference b) then None
        else map_option (unblocked r) (fmlookup (suspended_blocks bm) (reference b)))"
      using susp(2) rel release_eq [OF assms(1)] by simp
    have "b \<in> sus_block ` set (map ?get ?ns) \<longleftrightarrow>
        b \<in> suspended_set bm \<and> reference b |\<in>| dependents bm r \<and> freed bm r (reference b)"
    proof
      assume "b \<in> sus_block ` set (map ?get ?ns)"
      then obtain x where x: "x \<in> set ?ns" "b = sus_block (?get x)" by auto
      obtain sb where "fmlookup (suspended_blocks bm) x = Some sb" "b = sus_block sb" "reference (sus_block sb) = x"
        using get [OF x(1)] x(2) by metis
      then show "b \<in> suspended_set bm \<and> reference b |\<in>| dependents bm r \<and> freed bm r (reference b)"
        using x(1) by (simp add: suspended_set_def f S)
    next
      assume b: "b \<in> suspended_set bm \<and> reference b |\<in>| dependents bm r \<and> freed bm r (reference b)"
      then have "?get (reference b) \<in> set (map ?get ?ns)" "b = sus_block (?get (reference b))"
        by (auto simp: f S suspended_set_def)
      then show "b \<in> sus_block ` set (map ?get ?ns)" by (rule rev_image_eqI)
    qed
    then show "b \<in> suspended_set bm \<longleftrightarrow> b \<in> suspended_set (?bm\<lparr>suspended_blocks := susp\<rparr>) \<union> sus_block ` set (map ?get ?ns)"
      using l by (cases "fmlookup (suspended_blocks bm) (reference b)") (auto simp: suspended_set_def)
  qed
  show ?thesis
  proof (intro exI conjI ballI)
    show "rfold (unsuspend_child r) ?xs (stack, out, ?bm) =
        Inr (rev (map (\<lambda>sb. reference (sus_block sb)) (map ?get ?ns)) @ stack, out @ map ?get ?ns,
          ?bm\<lparr>suspended_blocks := susp\<rparr>)"
      unfolding refs by (rule susp(1))
    show "distinct (map (\<lambda>sb. reference (sus_block sb)) (map ?get ?ns))" unfolding refs using d by simp
  qed (use inv anc sus in \<open>auto\<close>)
qed

lemma unsuspend_loop_ok:
  assumes "bm_inv K gc (set stack) bm" "distinct stack" "set stack \<subseteq> K"
  shows "\<exists>new bm'. unsuspend_loop stack out bm = Inr (out @ new, bm')
    \<and> bm_inv (K \<union> reference ` sus_block ` set new) gc {} bm'
    \<and> causal K gc (map sus_block new) \<and> distinct (map (\<lambda>sb. reference (sus_block sb)) new)
    \<and> suspended_set bm = suspended_set bm' \<union> sus_block ` set new
    \<and> (\<forall>sb \<in> set new. reference (sus_block sb) \<notin> K)
    \<and> received_block_rounds bm' = received_block_rounds bm"
  using assms
proof (induction stack out bm arbitrary: K rule: unsuspend_loop.induct)
  case (1 out bm)
  then show ?case by simp
next
  case (2 r stack out bm)
  have rK: "r \<in> K" "r \<notin> set stack" "set stack \<subseteq> K" "distinct stack" using "2.prems" by auto
  have inv: "bm_inv K gc (insert r (set stack)) bm" using "2.prems"(1) by simp
  show ?case
  proof (cases "fmlookup (missing_ancestors bm) r")
    case None
    then have "unsuspend_loop (r # stack) out bm = unsuspend_loop stack out bm" by simp
    then show ?thesis
      using "2.IH"(1) [OF None unsuspend_none [OF inv rK(1,2) None] rK(4,3)] by (simp only:)
  next
    case (Some S)
    obtain new1 bm1 where one: "rfold (unsuspend_child r) (sorted_list_of_fset S)
        (stack, out, bm\<lparr>missing_ancestors := fmdrop r (missing_ancestors bm)\<rparr>) =
        Inr (rev (map (\<lambda>sb. reference (sus_block sb)) new1) @ stack, out @ new1, bm1)"
      "bm_inv (K \<union> reference ` sus_block ` set new1) gc (set stack \<union> reference ` sus_block ` set new1) bm1"
      "distinct (map (\<lambda>sb. reference (sus_block sb)) new1)"
      "\<forall>sb \<in> set new1. reference (sus_block sb) \<notin> K
         \<and> (\<forall>a \<in> set (vb_ancestors (sus_block sb)). gc < br_round a \<longrightarrow> a \<in> K)"
      "suspended_set bm = suspended_set bm1 \<union> sus_block ` set new1"
      "received_block_rounds bm1 = received_block_rounds bm"
      "missing_ancestors bm1 = fmdrop r (missing_ancestors bm)"
      using unsuspend_one [OF inv rK(1-3) Some, of stack out] by blast
    let ?K = "K \<union> reference ` sus_block ` set new1"
    let ?stack = "rev (map (\<lambda>sb. reference (sus_block sb)) new1) @ stack"
    have st: "set ?stack = set stack \<union> reference ` sus_block ` set new1" by auto
    have dist: "distinct ?stack" using one(3,4) rK(3,4) by auto
    have sub: "set ?stack \<subseteq> ?K" using rK(3) by auto
    have ih: "bm_inv ?K gc (set ?stack) bm1" unfolding st by (rule one(2))
    obtain new2 bm2 where two: "unsuspend_loop ?stack (out @ new1) bm1 = Inr ((out @ new1) @ new2, bm2)"
      "bm_inv (?K \<union> reference ` sus_block ` set new2) gc {} bm2"
      "causal ?K gc (map sus_block new2)" "distinct (map (\<lambda>sb. reference (sus_block sb)) new2)"
      "suspended_set bm1 = suspended_set bm2 \<union> sus_block ` set new2"
      "\<forall>sb \<in> set new2. reference (sus_block sb) \<notin> ?K"
      "received_block_rounds bm2 = received_block_rounds bm1"
      using "2.IH"(2) [OF Some one(1), unfolded fst_conv snd_conv, OF ih dist sub] by blast
    show ?thesis
    proof (intro exI conjI)
      show "unsuspend_loop (r # stack) out bm = Inr (out @ (new1 @ new2), bm2)"
        using Some one(1) two(1) by simp
      show "bm_inv (K \<union> reference ` sus_block ` set (new1 @ new2)) gc {} bm2"
        using two(2) by (simp add: image_Un Un_assoc)
      show "causal K gc (map sus_block (new1 @ new2))"
        using two(3) one(4) causal_known [of "map sus_block new1" gc K] by (simp add: causal_append)
      show "distinct (map (\<lambda>sb. reference (sus_block sb)) (new1 @ new2))"
        using two(6) by (intro distinct_map_append one(3) two(4)) (auto simp: image_image)
      show "suspended_set bm = suspended_set bm2 \<union> sus_block ` set (new1 @ new2)"
        unfolding one(5) two(5) by auto
      show "\<forall>sb \<in> set (new1 @ new2). reference (sus_block sb) \<notin> K" using one(4) two(6) by auto
      show "received_block_rounds bm2 = received_block_rounds bm" using one(6) two(7) by simp
    qed
  qed
qed

subsection \<open>Accepting one block\<close>

lemma note_ancestors:
  assumes "\<forall>a \<in> set ancs. is_valid_index c (br_author a)"
  shows "\<exists>ma. rfold (note_ancestor c r) (zip (map F ancs) ancs) (missing, to_fetch, bm) =
      Inr (missing |\<union>| fset_of_list (filter (\<lambda>a. \<not> F a) ancs),
           to_fetch |\<union>| fset_of_list (filter (\<lambda>a. \<not> F a \<and> a |\<notin>| fmdom (suspended_blocks bm)) ancs),
           bm\<lparr>missing_ancestors := ma, missing_blocks := missing_blocks bm
              |\<union>| fset_of_list (filter (\<lambda>a. \<not> F a \<and> a |\<notin>| fmdom (suspended_blocks bm)) ancs)\<rparr>)
    \<and> (\<forall>a. fmlookup ma a = (if a \<in> set ancs \<and> \<not> F a then Some (finsert r (dependents bm a))
         else fmlookup (missing_ancestors bm) a))"
  using assms
proof (induction ancs arbitrary: missing to_fetch bm)
  case Nil
  show ?case by (rule exI [of _ "missing_ancestors bm"]) simp
next
  case (Cons x ancs)
  have v: "\<forall>a \<in> set ancs. is_valid_index c (br_author a)" using Cons.prems by simp
  show ?case
  proof (cases "F x")
    case True
    then show ?thesis
      using Cons.IH [OF v, of missing to_fetch bm] by (auto simp: note_ancestor_def)
  next
    case False
    let ?new = "if x |\<in>| fmdom (suspended_blocks bm) then {||} else {|x|}"
    let ?bm = "bm\<lparr>missing_ancestors := fmupd x (finsert r (dependents bm x)) (missing_ancestors bm),
      missing_blocks := missing_blocks bm |\<union>| ?new\<rparr>"
    obtain au where au: "committee_authority c (br_author x) = Inr au"
      using committee_authority_valid Cons.prems by (metis list.set_intros(1))
    have step: "note_ancestor c r (F x, x) (missing, to_fetch, bm) = Inr (finsert x missing, to_fetch |\<union>| ?new, ?bm)"
      using False au by (simp add: note_ancestor_def)
    have d: "dependents ?bm a = (if a = x then finsert r (dependents bm x) else dependents bm a)" for a
      by (simp add: dependents_def)
    obtain ma where ma: "rfold (note_ancestor c r) (zip (map F ancs) ancs) (finsert x missing, to_fetch |\<union>| ?new, ?bm) =
      Inr (finsert x missing |\<union>| fset_of_list (filter (\<lambda>a. \<not> F a) ancs),
           to_fetch |\<union>| ?new |\<union>| fset_of_list (filter (\<lambda>a. \<not> F a \<and> a |\<notin>| fmdom (suspended_blocks ?bm)) ancs),
           ?bm\<lparr>missing_ancestors := ma, missing_blocks := missing_blocks ?bm
              |\<union>| fset_of_list (filter (\<lambda>a. \<not> F a \<and> a |\<notin>| fmdom (suspended_blocks ?bm)) ancs)\<rparr>)"
      "\<forall>a. fmlookup ma a = (if a \<in> set ancs \<and> \<not> F a then Some (finsert r (dependents ?bm a))
         else fmlookup (missing_ancestors ?bm) a)"
      using Cons.IH [OF v, of "finsert x missing" "to_fetch |\<union>| ?new" ?bm] by blast
    show ?thesis
    proof (intro exI conjI)
      show "rfold (note_ancestor c r) (zip (map F (x # ancs)) (x # ancs)) (missing, to_fetch, bm) =
        Inr (missing |\<union>| fset_of_list (filter (\<lambda>a. \<not> F a) (x # ancs)),
           to_fetch |\<union>| fset_of_list (filter (\<lambda>a. \<not> F a \<and> a |\<notin>| fmdom (suspended_blocks bm)) (x # ancs)),
           bm\<lparr>missing_ancestors := ma, missing_blocks := missing_blocks bm
              |\<union>| fset_of_list (filter (\<lambda>a. \<not> F a \<and> a |\<notin>| fmdom (suspended_blocks bm)) (x # ancs))\<rparr>)"
        using False ma(1) step by (auto simp: funion_assoc)
      show "\<forall>a. fmlookup ma a = (if a \<in> set (x # ancs) \<and> \<not> F a then Some (finsert r (dependents bm a))
         else fmlookup (missing_ancestors bm) a)"
        using ma(2) False unfolding d by auto
    qed
  qed
qed

definition needed :: "dag_state \<Rightarrow> verified_block \<Rightarrow> block_ref set" where
  "needed ds b = {a \<in> set (vb_ancestors b). (br_round a = genesis_round \<or> gc_round ds < br_round a) \<and> get_block ds a = None}"

lemma suspend_inv:
  assumes "bm_inv K gc {} bm" "r = reference b" "r \<notin> K" "r |\<notin>| fmdom (suspended_blocks bm)" "0 < br_round r"
    and "fset M \<subseteq> set (vb_ancestors b)" "M \<noteq> {||}" "fset M \<inter> K = {}"
    and "\<forall>a \<in> set (vb_ancestors b). gc < br_round a \<longrightarrow> a \<in> K \<or> a |\<in>| M"
    and "\<forall>a. fmlookup ma a = (if a |\<in>| M then Some (finsert r (dependents bm a)) else fmlookup (missing_ancestors bm) a)"
    and "\<forall>a. a |\<in>| mb \<longleftrightarrow> (a |\<in>| missing_blocks bm \<or> a |\<in>| M \<and> a |\<notin>| fmdom (suspended_blocks bm)) \<and> a \<noteq> r"
  shows "bm_inv K gc {} (bm\<lparr>missing_ancestors := ma, missing_blocks := mb,
      suspended_blocks := fmupd r (suspended_block_new now b M) (suspended_blocks bm)\<rparr>)"
proof -
  note I = bm_invD [OF assms(1)]
  let ?bm = "bm\<lparr>missing_ancestors := ma, missing_blocks := mb,
      suspended_blocks := fmupd r (suspended_block_new now b M) (suspended_blocks bm)\<rparr>"
  have d: "dependents ?bm a = (if a |\<in>| M then finsert r (dependents bm a) else dependents bm a)" for a
    using assms(10) by (simp add: dependents_def)
  have r: "r |\<notin>| dependents bm a" for a
    using I(2) [of r a] assms(4) by (auto simp: fmlookup_dom_iff)
  have dom: "a |\<in>| fmdom ma \<longleftrightarrow> a |\<in>| M \<or> a |\<in>| fmdom (missing_ancestors bm)" for a
    using assms(10) by (simp add: fmlookup_dom_iff)
  show ?thesis
    unfolding bm_inv_def
  proof (intro conjI allI impI)
    fix x sb assume "fmlookup (suspended_blocks ?bm) x = Some sb"
    then show "waits_ok K gc {} x sb"
      using I(1) [of x sb] assms(2,3,5-9) by (auto simp: waits_ok_def suspended_block_new_def split: if_splits)
  next
    fix a x
    show "x |\<in>| dependents ?bm a \<longleftrightarrow> (\<exists>sb. fmlookup (suspended_blocks ?bm) x = Some sb \<and> a |\<in>| sus_missing sb)"
      unfolding d using I(2) [of x a] r [of a] by (auto simp: suspended_block_new_def)
  next
    fix a assume "a |\<in>| fmdom (missing_ancestors ?bm)"
    then show "a \<notin> K - {}" using I(3) [of a] assms(8) dom by auto
  next
    fix a
    show "a |\<in>| missing_blocks ?bm \<longleftrightarrow> a |\<in>| fmdom (missing_ancestors ?bm) \<and> a |\<notin>| fmdom (suspended_blocks ?bm) \<and> a \<notin> {}"
      using I(4) [of a] assms(11) dom by auto
  qed
qed

lemma accepted_inv:
  assumes "bm_inv K gc {} bm" "r \<notin> K" "r |\<notin>| fmdom (suspended_blocks bm)"
  shows "bm_inv (insert r K) gc {r} (bm\<lparr>missing_blocks := missing_blocks bm |-| {|r|}\<rparr>)"
proof -
  note I = bm_invD [OF assms(1)]
  have "waits_ok (insert r K) gc {r} x sb" if x: "fmlookup (suspended_blocks bm) x = Some sb" for x sb
    using I(1) [OF x] assms(2,3) fmdomI [OF x] unfolding waits_ok_def by auto
  moreover have "a \<notin> insert r K - {r}" if "a |\<in>| fmdom (missing_ancestors bm)" for a
    using I(3) [OF that] by auto
  moreover have "dependents (bm\<lparr>missing_blocks := missing_blocks bm |-| {|r|}\<rparr>) = dependents bm"
    by (simp add: dependents_def fun_eq_iff)
  ultimately show ?thesis using I(2,4) unfolding bm_inv_def by simp
qed

lemma try_accept_known:
  assumes "dag_inv ds" "is_valid_index (ds_committee ds) (vb_author b)"
    and "reference b |\<in>| fmdom (suspended_blocks bm) \<or> get_block ds (reference b) \<noteq> None"
  shows "try_accept_one_block now b ds bm = Inr (Processed, bm)"
  using assms contains_block_get [OF assms(1), of "reference b"] by (auto simp: try_accept_one_block_def Let_def)

lemma try_accept_skipped:
  assumes "dag_inv ds" "is_valid_index (ds_committee ds) (vb_author b)"
    and "reference b |\<notin>| fmdom (suspended_blocks bm)" "get_block ds (reference b) = None" "vb_round b \<le> gc_round ds"
  shows "try_accept_one_block now b ds bm = Inr (Skipped, bm)"
  using assms contains_block_get [OF assms(1), of "reference b"] committee_authority_valid [OF assms(2)]
  by (auto simp: try_accept_one_block_def Let_def)

lemma try_accept_run:
  assumes "dag_inv ds" "is_valid_index (ds_committee ds) (vb_author b)"
    and "\<forall>a \<in> set (vb_ancestors b). is_valid_index (ds_committee ds) (br_author a)"
    and "r = reference b" "r |\<notin>| fmdom (suspended_blocks bm)" "get_block ds r = None" "gc_round ds < vb_round b"
  shows "\<exists>M to_fetch ma. fset M = needed ds b \<and> fset to_fetch = needed ds b - fset (fmdom (suspended_blocks bm))
    \<and> (\<forall>a. fmlookup ma a = (if a |\<in>| M then Some (finsert r (dependents bm a)) else fmlookup (missing_ancestors bm) a))
    \<and> try_accept_one_block now b ds bm =
      (let bm1 = bm\<lparr>missing_ancestors := ma, missing_blocks := (missing_blocks bm |\<union>| to_fetch) |-| {|r|}\<rparr> in
       if M = {||} then Inr (Accepted b, bm1)
       else Inr (Suspended to_fetch, bm1\<lparr>suspended_blocks := fmupd r (suspended_block_new now b M) (suspended_blocks bm)\<rparr>))"
proof -
  let ?c = "ds_committee ds" and ?gc = "gc_round ds"
  let ?ancs = "filter (\<lambda>a. br_round a = genesis_round \<or> ?gc < br_round a) (vb_ancestors b)"
  let ?F = "\<lambda>a. get_block ds a \<noteq> None"
  let ?M = "fset_of_list (filter (\<lambda>a. \<not> ?F a) ?ancs)"
  let ?fetch = "fset_of_list (filter (\<lambda>a. \<not> ?F a \<and> a |\<notin>| fmdom (suspended_blocks bm)) ?ancs)"
  obtain au where au: "committee_authority ?c (vb_author b) = Inr au"
    using committee_authority_valid [OF assms(2)] by auto
  have known: "contains_block ds r = Inr False"
    using contains_block_get [OF assms(1), of r] assms(2,4,6) by simp
  have cs: "contains_blocks ds ?ancs = Inr (map ?F ?ancs)"
    by (rule contains_blocks_get [OF assms(1)]) (use assms(3) in simp)
  have v: "\<forall>a \<in> set ?ancs. is_valid_index ?c (br_author a)" using assms(3) by simp
  obtain ma where ma: "rfold (note_ancestor ?c r) (zip (map ?F ?ancs) ?ancs) ({||}, {||}, bm) =
      Inr ({||} |\<union>| ?M, {||} |\<union>| ?fetch,
           bm\<lparr>missing_ancestors := ma, missing_blocks := missing_blocks bm |\<union>| ?fetch\<rparr>)"
    "\<forall>a. fmlookup ma a = (if a \<in> set ?ancs \<and> \<not> ?F a then Some (finsert r (dependents bm a))
         else fmlookup (missing_ancestors bm) a)"
    using note_ancestors [OF v, of r ?F "{||}" "{||}" bm] by blast
  show ?thesis
  proof (intro exI conjI)
    show "fset ?M = needed ds b" "fset ?fetch = needed ds b - fset (fmdom (suspended_blocks bm))"
      by (auto simp: needed_def fset_of_list.rep_eq)
    show "\<forall>a. fmlookup ma a = (if a |\<in>| ?M then Some (finsert r (dependents bm a)) else fmlookup (missing_ancestors bm) a)"
      using ma(2) by (auto simp: fset_of_list.rep_eq)
    show "try_accept_one_block now b ds bm =
      (let bm1 = bm\<lparr>missing_ancestors := ma, missing_blocks := (missing_blocks bm |\<union>| ?fetch) |-| {|r|}\<rparr> in
       if ?M = {||} then Inr (Accepted b, bm1)
       else Inr (Suspended ?fetch, bm1\<lparr>suspended_blocks := fmupd r (suspended_block_new now b ?M) (suspended_blocks bm)\<rparr>))"
      using known cs ma(1) au assms(5,7) unfolding try_accept_one_block_def assms(4) [symmetric] Let_def by simp
  qed
qed

lemma try_accept_accepted:
  assumes "dag_inv ds" "is_valid_index (ds_committee ds) (vb_author b)"
    and "\<forall>a \<in> set (vb_ancestors b). is_valid_index (ds_committee ds) (br_author a)"
    and "r = reference b" "r |\<notin>| fmdom (suspended_blocks bm)" "get_block ds r = None" "gc_round ds < vb_round b"
    and "needed ds b = {}"
  shows "try_accept_one_block now b ds bm = Inr (Accepted b, bm\<lparr>missing_blocks := missing_blocks bm |-| {|r|}\<rparr>)"
proof -
  obtain M to_fetch ma where M: "fset M = needed ds b" "fset to_fetch = needed ds b - fset (fmdom (suspended_blocks bm))"
    "\<forall>a. fmlookup ma a = (if a |\<in>| M then Some (finsert r (dependents bm a)) else fmlookup (missing_ancestors bm) a)"
    and run: "try_accept_one_block now b ds bm =
      (let bm1 = bm\<lparr>missing_ancestors := ma, missing_blocks := (missing_blocks bm |\<union>| to_fetch) |-| {|r|}\<rparr> in
       if M = {||} then Inr (Accepted b, bm1)
       else Inr (Suspended to_fetch, bm1\<lparr>suspended_blocks := fmupd r (suspended_block_new now b M) (suspended_blocks bm)\<rparr>))"
    using try_accept_run [OF assms(1-7), of now] by blast
  have e: "M = {||}" "to_fetch = {||}" using M(1,2) assms(8) by (metis bot_fset.rep_eq fset_inject, auto)
  then have "ma = missing_ancestors bm" using M(3) by (intro fmap_ext) simp
  then show ?thesis using run e by simp
qed

lemma try_accept_suspended:
  assumes "dag_inv ds" "is_valid_index (ds_committee ds) (vb_author b)"
    and "\<forall>a \<in> set (vb_ancestors b). is_valid_index (ds_committee ds) (br_author a)"
    and "r = reference b" "r |\<notin>| fmdom (suspended_blocks bm)" "get_block ds r = None" "gc_round ds < vb_round b"
    and "needed ds b \<noteq> {}" "bm_inv (dom (get_block ds)) (gc_round ds) {} bm"
  obtains to_fetch bm' M where "try_accept_one_block now b ds bm = Inr (Suspended to_fetch, bm')"
    "bm_inv (dom (get_block ds)) (gc_round ds) {} bm'"
    "suspended_blocks bm' = fmupd r (suspended_block_new now b M) (suspended_blocks bm)"
    "fset (fmdom (missing_ancestors bm')) = fset (fmdom (missing_ancestors bm)) \<union> needed ds b"
    "received_block_rounds bm' = received_block_rounds bm"
proof -
  obtain M to_fetch ma where M: "fset M = needed ds b" "fset to_fetch = needed ds b - fset (fmdom (suspended_blocks bm))"
    "\<forall>a. fmlookup ma a = (if a |\<in>| M then Some (finsert r (dependents bm a)) else fmlookup (missing_ancestors bm) a)"
    and run: "try_accept_one_block now b ds bm =
      (let bm1 = bm\<lparr>missing_ancestors := ma, missing_blocks := (missing_blocks bm |\<union>| to_fetch) |-| {|r|}\<rparr> in
       if M = {||} then Inr (Accepted b, bm1)
       else Inr (Suspended to_fetch, bm1\<lparr>suspended_blocks := fmupd r (suspended_block_new now b M) (suspended_blocks bm)\<rparr>))"
    using try_accept_run [OF assms(1-7), of now] by blast
  let ?bm = "bm\<lparr>missing_ancestors := ma, missing_blocks := (missing_blocks bm |\<union>| to_fetch) |-| {|r|},
      suspended_blocks := fmupd r (suspended_block_new now b M) (suspended_blocks bm)\<rparr>"
  have ne: "M \<noteq> {||}" using M(1) assms(8) by auto
  show thesis
  proof (rule that [of to_fetch ?bm M])
    show "try_accept_one_block now b ds bm = Inr (Suspended to_fetch, ?bm)" using run ne by (simp add: Let_def)
    show "bm_inv (dom (get_block ds)) (gc_round ds) {} ?bm"
      by (rule suspend_inv [OF assms(9,4) _ assms(5) _ _ ne _ _ M(3)])
        (use assms(4,6,7) M in \<open>auto simp: needed_def dom_def\<close>)
    have "a |\<in>| fmdom ma \<longleftrightarrow> a \<in> fset (fmdom (missing_ancestors bm)) \<union> needed ds b" for a
      using M(3) unfolding M(1) [symmetric] by (simp add: fmlookup_dom_iff)
    then show "fset (fmdom (missing_ancestors ?bm)) = fset (fmdom (missing_ancestors bm)) \<union> needed ds b" by auto
  qed simp_all
qed

subsection \<open>Accepting blocks into the DAG\<close>

text \<open>
  Accepting blocks changes neither the last commit nor the store, and the highest accepted round
  stays within the rounds of the universe.
\<close>

definition cache_frame :: "dag_state \<Rightarrow> dag_state \<Rightarrow> bool" where
  "cache_frame ds ds' \<longleftrightarrow>
     (\<forall>r bi. fmlookup (recent_blocks ds) r = Some bi \<longrightarrow> fmlookup (recent_blocks ds') r = Some bi)
     \<and> (\<forall>r bi. fmlookup (recent_blocks ds) r = None \<longrightarrow> fmlookup (recent_blocks ds') r = Some bi
          \<longrightarrow> get_block ds r = None \<and> \<not> committed bi)
     \<and> dom (get_block ds) \<subseteq> dom (get_block ds')"

lemma cache_frame_refl [simp]: "cache_frame ds ds"
  by (simp add: cache_frame_def)

lemma cache_frame_trans:
  assumes "cache_frame ds ds1" "cache_frame ds1 ds2"
  shows "cache_frame ds ds2"
proof -
  have "get_block ds r = None \<and> \<not> committed bi"
    if "fmlookup (recent_blocks ds) r = None" "fmlookup (recent_blocks ds2) r = Some bi" for r bi
  proof (cases "fmlookup (recent_blocks ds1) r")
    case None
    then have "get_block ds1 r = None \<and> \<not> committed bi" using assms(2) that(2) unfolding cache_frame_def by blast
    then show ?thesis using assms(1) unfolding cache_frame_def by (metis domIff subsetD)
  next
    case (Some x)
    then have "x = bi" using assms(2) that(2) unfolding cache_frame_def by (metis option.inject)
    then show ?thesis using assms(1) that(1) Some unfolding cache_frame_def by blast
  qed
  then show ?thesis using assms unfolding cache_frame_def by blast
qed

definition same_frame :: "(block_ref \<Rightarrow> verified_block option) \<Rightarrow> dag_state \<Rightarrow> dag_state \<Rightarrow> bool" where
  "same_frame U ds ds' \<longleftrightarrow> last_commit ds' = last_commit ds \<and> ds_store ds' = ds_store ds
     \<and> last_committed_rounds ds' = last_committed_rounds ds \<and> ds_scoring_subdag ds' = ds_scoring_subdag ds
     \<and> cache_frame ds ds'
     \<and> (\<forall>h. highest_accepted_round ds \<le> h \<longrightarrow> (\<forall>r. U r \<noteq> None \<longrightarrow> br_round r \<le> h) \<longrightarrow> highest_accepted_round ds' \<le> h)"

lemma same_frame_refl [simp]: "same_frame U ds ds"
  by (simp add: same_frame_def)

lemma same_frame_trans: "same_frame U ds ds1 \<Longrightarrow> same_frame U ds1 ds2 \<Longrightarrow> same_frame U ds ds2"
  by (auto simp: same_frame_def intro: cache_frame_trans)

lemma accept_block_frame:
  assumes "accept_block now b ds = Inr ds'" "\<not> enable_v3 (ds_config ds)"
  shows "ds_context ds' = ds_context ds" "last_commit ds' = last_commit ds" "ds_store ds' = ds_store ds"
    "highest_accepted_round ds' \<le> max (highest_accepted_round ds) (vb_round b)"
    "last_committed_rounds ds' = last_committed_rounds ds" "ds_scoring_subdag ds' = ds_scoring_subdag ds"
    "recent_blocks ds' = recent_blocks ds \<or> recent_blocks ds' = fmupd (reference b) (block_info_new b) (recent_blocks ds)"
  using assms
  by (auto simp: accept_block_def update_block_metadata_def res_simps Let_def split: if_splits)

lemma gc_round_frame:
  "ds_context ds' = ds_context ds \<Longrightarrow> same_frame U ds ds' \<Longrightarrow> gc_round ds' = gc_round ds"
  by (simp add: same_frame_def gc_round_def calculate_gc_round_def last_commit_round_def)

definition receiving :: "committee \<Rightarrow> authority_index set \<Rightarrow> (block_ref \<Rightarrow> verified_block option) \<Rightarrow> dag_state \<Rightarrow> bool" where
  "receiving c byz U ds \<longleftrightarrow> block_universe c byz U \<and> dag_inv ds \<and> ds_committee ds = c
     \<and> \<not> enable_v3 (ds_config ds) \<and> own_index (ds_context ds) \<notin> byz
     \<and> (\<forall>r b. get_block ds r = Some b \<longrightarrow> U r = Some b)"

lemma receivingD:
  assumes "receiving c byz U ds"
  shows "block_universe c byz U" "dag_inv ds" "ds_committee ds = c" "\<not> enable_v3 (ds_config ds)"
    "own_index (ds_context ds) \<notin> byz" "\<And>r b. get_block ds r = Some b \<Longrightarrow> U r = Some b"
  using assms unfolding receiving_def by blast+

lemma cached_known:
  assumes "dag_inv ds" "cached_block ds k = Some b"
  shows "reference b = k" "0 < br_round k" "get_block ds k = Some b"
proof -
  show "reference b = k" and pos: "0 < br_round k" using assms by (auto simp: dag_inv_def cache_inv_def)
  show "get_block ds k = Some b" using assms(2) pos by (simp add: get_block_eq)
qed

lemma slot_blocks_known:
  assumes "dag_inv ds" "x \<in> set (get_uncommitted_blocks_at_slot ds s)"
  shows "slot_of_ref (reference x) = s" "get_block ds (reference x) = Some x"
proof -
  obtain k bi where k: "fmlookup (recent_blocks ds) k = Some bi" "slot_refs s k" "x = bi_block bi"
    using assms(2) by (auto simp: get_uncommitted_blocks_at_slot_def)
  then have "cached_block ds k = Some x" by (simp add: cached_block_def)
  note r = cached_known [OF assms(1) this]
  show "slot_of_ref (reference x) = s"
    using k(2) unfolding r(1) by (cases s) (simp add: slot_refs_def block_ref_slot_range slot_of_ref_def)
  show "get_block ds (reference x) = Some x" using r(1,3) by simp
qed

lemma accept_one:
  assumes "receiving c byz U ds" "U (reference b) = Some b" "0 < vb_round b" "get_block ds (reference b) = None"
  shows "\<exists>ds'. accept_block now b ds = Inr ds' \<and> receiving c byz U ds'
    \<and> get_block ds' = (get_block ds)(reference b := Some b)
    \<and> ds_context ds' = ds_context ds \<and> same_frame U ds ds'"
proof -
  note R = receivingD [OF assms(1)]
  have "linked_block c b" using universeD(4) [OF R(1) assms(2)] assms(3) by simp
  then have v: "is_valid_index (ds_committee ds) (vb_author b)" using R(3) by (simp add: linked_block_def)
  have own: "get_uncommitted_blocks_at_slot ds (slot_of_ref (reference b)) = []"
    if own: "vb_author b = own_index (ds_context ds)"
  proof (rule ccontr)
    assume "get_uncommitted_blocks_at_slot ds (slot_of_ref (reference b)) \<noteq> []"
    then obtain x where x: "x \<in> set (get_uncommitted_blocks_at_slot ds (slot_of_ref (reference b)))"
      by (meson list.set_sel(1))
    note k = slot_blocks_known [OF R(2) x]
    have "U (reference x) \<noteq> None" "U (reference b) \<noteq> None" using R(6) [OF k(2)] assms(2) by simp_all
    moreover have "br_round (reference x) = br_round (reference b)" "br_author (reference x) = br_author (reference b)"
      using k(1) by (simp_all add: slot_of_ref_def)
    moreover have "br_author (reference x) \<notin> byz" using own R(5) calculation(4) by simp
    ultimately have "reference x = reference b" using R(1) unfolding block_universe_def by blast
    then show False using k(2) assms(4) by simp
  qed
  have v3: "is_ok (v3_step (insert_cached b ds) b)" using R(4) by (simp add: v3_step_def)
  obtain ds' where ds': "accept_block now b ds = Inr ds'" "dag_inv ds'" "get_block ds' = (get_block ds)(reference b := Some b)"
    using accept_block_ok [OF R(2) v assms(3) _ v3, of now] own assms(4) by auto
  note f = accept_block_frame [OF ds'(1) R(4)]
  have "receiving c byz U ds'"
    using R ds'(2,3) assms(2) unfolding receiving_def f(1) by (auto split: if_splits)
  moreover have "same_frame U ds ds'"
  proof -
    have "highest_accepted_round ds' \<le> h" if "highest_accepted_round ds \<le> h" "\<forall>r. U r \<noteq> None \<longrightarrow> br_round r \<le> h" for h
      using f(4) that spec [OF that(2), of "reference b"] assms(2) by simp
    moreover have "cache_frame ds ds'"
    proof -
      have "fmlookup (recent_blocks ds) (reference b) = None"
        using assms(3,4) by (auto simp: get_block_eq cached_block_def split: option.splits)
      then show ?thesis
        using f(7) ds'(3) assms(4) by (auto simp: cache_frame_def block_info_new_def split: if_splits)
    qed
    ultimately show ?thesis using f(2,3,5,6) by (simp add: same_frame_def)
  qed
  ultimately show ?thesis using ds' f(1) by blast
qed

lemma accept_list:
  assumes "receiving c byz U ds" "\<forall>b \<in> set bs. U (reference b) = Some b \<and> 0 < vb_round b \<and> get_block ds (reference b) = None"
    and "distinct (map reference bs)"
  shows "\<exists>ds'. accept_blocks now bs ds = Inr ds' \<and> receiving c byz U ds'
    \<and> (\<forall>r. get_block ds' r = (if r \<in> reference ` set bs then U r else get_block ds r))
    \<and> ds_context ds' = ds_context ds \<and> same_frame U ds ds'"
  using assms
proof (induction bs arbitrary: ds)
  case Nil
  then show ?case by (simp add: accept_blocks_def)
next
  case (Cons b bs)
  have pb: "U (reference b) = Some b" "0 < vb_round b" "get_block ds (reference b) = None"
    using Cons.prems(2) by simp_all
  obtain ds1 where 1: "accept_block now b ds = Inr ds1" "receiving c byz U ds1"
    "get_block ds1 = (get_block ds)(reference b := Some b)"
    "ds_context ds1 = ds_context ds" "same_frame U ds ds1"
    by (rule exE [OF accept_one [OF Cons.prems(1) pb, of now]]) (elim conjE, rule that)
  have pbs: "\<forall>x \<in> set bs. U (reference x) = Some x \<and> 0 < vb_round x \<and> get_block ds1 (reference x) = None"
  proof
    fix x assume x: "x \<in> set bs"
    have "reference x \<noteq> reference b" using Cons.prems(3) x by (simp, metis imageI)
    then show "U (reference x) = Some x \<and> 0 < vb_round x \<and> get_block ds1 (reference x) = None"
      unfolding 1(3) using bspec [OF Cons.prems(2), of x] x by simp
  qed
  have d: "distinct (map reference bs)" using Cons.prems(3) by simp
  obtain ds2 where 2: "accept_blocks now bs ds1 = Inr ds2" "receiving c byz U ds2"
    "\<forall>r. get_block ds2 r = (if r \<in> reference ` set bs then U r else get_block ds1 r)"
    "ds_context ds2 = ds_context ds1" "same_frame U ds1 ds2"
    by (rule exE [OF Cons.IH [OF 1(2) pbs d]]) (elim conjE, rule that)
  have "accept_blocks now (b # bs) ds = Inr ds2" using 1(1) 2(1) by (simp add: accept_blocks_def)
  moreover have "get_block ds2 r = (if r \<in> reference ` set (b # bs) then U r else get_block ds r)" for r
    using 2(3) pb(1) unfolding 1(3) by simp
  ultimately show ?case using 1(4) 2(2,4) same_frame_trans [OF 1(5) 2(5)] by metis
qed

end
