(* ===== verification/Block_Manager_Accept.thy ===== *)
theory Block_Manager_Accept
  imports Block_Manager_Inv
begin

section \<open>Accepting batches of blocks\<close>

text \<open>
  The contract of accepting blocks, \<open>accepts\<close>, and that \<open>try_accept_blocks\<close> of \<open>block_manager.rs\<close>
  implements it.
\<close>

subsection \<open>Managing blocks\<close>

definition managing ::
  "committee \<Rightarrow> authority_index set \<Rightarrow> (block_ref \<Rightarrow> verified_block option) \<Rightarrow> dag_state \<Rightarrow> block_manager \<Rightarrow> bool" where
  "managing c byz U ds bm \<longleftrightarrow> receiving c byz U ds
     \<and> bm_inv (dom (get_block ds)) (gc_round ds) {} bm
     \<and> (\<forall>b \<in> suspended_set bm. U (reference b) = Some b)
     \<and> (\<forall>a. a |\<in>| fmdom (missing_ancestors bm) \<longrightarrow> is_valid_index c (br_author a))
     \<and> length (received_block_rounds bm) = committee_size c"

lemma managingD:
  assumes "managing c byz U ds bm"
  shows "receiving c byz U ds" "bm_inv (dom (get_block ds)) (gc_round ds) {} bm"
    "\<And>b. b \<in> suspended_set bm \<Longrightarrow> U (reference b) = Some b"
    "\<And>a. a |\<in>| fmdom (missing_ancestors bm) \<Longrightarrow> is_valid_index c (br_author a)"
    "length (received_block_rounds bm) = committee_size c"
  using assms unfolding managing_def by blast+

text \<open>
  The outcome of accepting: the blocks \<open>acc\<close> enter the DAG in causal order, the others stay suspended,
  and every input block above the GC round is in one of the two.
\<close>

definition accepts ::
  "committee \<Rightarrow> authority_index set \<Rightarrow> (block_ref \<Rightarrow> verified_block option) \<Rightarrow> verified_block set
     \<Rightarrow> dag_state \<Rightarrow> block_manager \<Rightarrow> verified_block list \<Rightarrow> dag_state \<Rightarrow> block_manager \<Rightarrow> bool" where
  "accepts c byz U inputs ds bm acc ds' bm' \<longleftrightarrow> managing c byz U ds' bm'
     \<and> ds_context ds' = ds_context ds \<and> same_frame U ds ds'
     \<and> (\<forall>r. get_block ds' r = (if r \<in> reference ` set acc then U r else get_block ds r))
     \<and> (\<forall>b \<in> set acc. get_block ds (reference b) = None \<and> U (reference b) = Some b)
     \<and> distinct (map reference acc)
     \<and> causal (dom (get_block ds)) (gc_round ds) acc
     \<and> suspended_set bm' \<union> set acc \<subseteq> suspended_set bm \<union> {b \<in> inputs. gc_round ds < vb_round b}
     \<and> suspended_set bm \<subseteq> suspended_set bm' \<union> set acc
     \<and> (\<forall>a. a |\<in>| fmdom (missing_ancestors bm') \<longrightarrow>
          a |\<in>| fmdom (missing_ancestors bm) \<or> br_round a = genesis_round \<or> gc_round ds < br_round a)
     \<and> (\<forall>b \<in> inputs. gc_round ds < vb_round b \<longrightarrow> get_block ds' (reference b) = Some b \<or> b \<in> suspended_set bm')"

lemma acceptsD:
  assumes "accepts c byz U inputs ds bm acc ds' bm'"
  shows "managing c byz U ds' bm'" "ds_context ds' = ds_context ds" "same_frame U ds ds'"
    "\<And>r. get_block ds' r = (if r \<in> reference ` set acc then U r else get_block ds r)"
    "\<And>b. b \<in> set acc \<Longrightarrow> get_block ds (reference b) = None"
    "\<And>b. b \<in> set acc \<Longrightarrow> U (reference b) = Some b"
    "distinct (map reference acc)" "causal (dom (get_block ds)) (gc_round ds) acc"
    "suspended_set bm' \<union> set acc \<subseteq> suspended_set bm \<union> {b \<in> inputs. gc_round ds < vb_round b}"
    "suspended_set bm \<subseteq> suspended_set bm' \<union> set acc"
    "\<And>b. b \<in> inputs \<Longrightarrow> gc_round ds < vb_round b \<Longrightarrow> get_block ds' (reference b) = Some b \<or> b \<in> suspended_set bm'"
    "gc_round ds' = gc_round ds"
    "\<And>a. a |\<in>| fmdom (missing_ancestors bm') \<Longrightarrow>
       a |\<in>| fmdom (missing_ancestors bm) \<or> br_round a = genesis_round \<or> gc_round ds < br_round a"
  using assms gc_round_frame [of ds' ds U] unfolding accepts_def by blast+

lemma accepts_dom:
  assumes "accepts c byz U inputs ds bm acc ds' bm'"
  shows "dom (get_block ds') = dom (get_block ds) \<union> reference ` set acc"
  using acceptsD(4,6) [OF assms] by (fastforce simp: dom_def split: if_splits)

lemma accepts_keeps:
  assumes "accepts c byz U inputs ds bm acc ds' bm'" "get_block ds r = Some b"
  shows "get_block ds' r = Some b"
proof -
  have "r \<notin> reference ` set acc" using acceptsD(5) [OF assms(1)] assms(2) by auto
  then show ?thesis using acceptsD(4) [OF assms(1), of r] assms(2) by simp
qed

lemma accepts_refl:
  assumes "managing c byz U ds bm"
  shows "accepts c byz U {} ds bm [] ds bm"
  using assms by (simp add: accepts_def)

lemma accepts_trans:
  assumes "accepts c byz U I ds bm acc ds1 bm1" "accepts c byz U J ds1 bm1 acc' ds2 bm2"
  shows "accepts c byz U (I \<union> J) ds bm (acc @ acc') ds2 bm2"
proof -
  note A = acceptsD [OF assms(1)] and B = acceptsD [OF assms(2)]
  have new: "get_block ds1 (reference b) = Some b" if "b \<in> set acc" for b
    using A(4) [of "reference b"] A(6) [OF that] that by simp
  have disj: "reference b \<notin> reference ` set acc" if "b \<in> set acc'" for b
    using B(5) [OF that] new by auto
  have old: "get_block ds (reference b) = None" if "b \<in> set acc'" for b
    using B(5) [OF that] A(4) [of "reference b"] disj [OF that] by simp
  have get: "get_block ds2 r = (if r \<in> reference ` set (acc @ acc') then U r else get_block ds r)" for r
    using A(4) [of r] B(4) [of r] by (simp add: image_Un)
  have dist: "distinct (map reference (acc @ acc'))" by (rule distinct_map_append [OF A(7) B(7) disj])
  have caus: "causal (dom (get_block ds)) (gc_round ds) (acc @ acc')"
    using A(8) B(8) unfolding causal_append accepts_dom [OF assms(1)] A(12) by blast
  have inp: "get_block ds2 (reference b) = Some b \<or> b \<in> suspended_set bm2"
    if b: "b \<in> I \<union> J" "gc_round ds < vb_round b" for b
  proof (cases "b \<in> J")
    case True
    then show ?thesis using B(11) b(2) A(12) by simp
  next
    case False
    then have "get_block ds1 (reference b) = Some b \<or> b \<in> suspended_set bm1" using A(11) b by simp
    then show ?thesis
    proof
      assume "get_block ds1 (reference b) = Some b"
      then show ?thesis using accepts_keeps [OF assms(2)] by blast
    next
      assume "b \<in> suspended_set bm1"
      then have "b \<in> suspended_set bm2 \<or> b \<in> set acc'" using B(10) by blast
      then show ?thesis using B(4) [of "reference b"] B(6) [of b] by auto
    qed
  qed
  have "suspended_set bm2 \<union> set (acc @ acc') \<subseteq> suspended_set bm \<union> {b \<in> I \<union> J. gc_round ds < vb_round b}"
    "suspended_set bm \<subseteq> suspended_set bm2 \<union> set (acc @ acc')"
    using A(9,10) B(9,10) unfolding A(12) by auto
  moreover have "\<forall>b \<in> set (acc @ acc'). get_block ds (reference b) = None \<and> U (reference b) = Some b"
    using A(5,6) B(6) old by auto
  moreover have "a |\<in>| fmdom (missing_ancestors bm) \<or> br_round a = genesis_round \<or> gc_round ds < br_round a"
    if "a |\<in>| fmdom (missing_ancestors bm2)" for a
    using A(13) [of a] B(13) [OF that] A(12) by auto
  ultimately show ?thesis
    unfolding accepts_def using B(1,2) A(2) same_frame_trans [OF A(3) B(3)] get dist caus inp by simp
qed

lemma suspended_positive:
  assumes "bm_inv K gc P bm" "b \<in> suspended_set bm"
  shows "0 < vb_round b" "reference b \<notin> K"
  using bm_invD(1) [OF assms(1), of "reference b"] assms(2) by (auto simp: suspended_set_def waits_ok_def)

lemma universe_block:
  assumes "block_universe c byz U" "U (reference b) = Some b" "0 < vb_round b"
  shows "is_valid_index c (vb_author b)"
    "\<forall>a \<in> set (vb_ancestors b). is_valid_index c (br_author a) \<and> br_round a < vb_round b"
  using universeD(4) [OF assms(1,2)] assms(3) by (simp_all add: linked_block_def)

lemma rmap_authorities:
  "\<forall>x \<in> set xs. is_valid_index c (f x) \<Longrightarrow> \<exists>aus. rmap (\<lambda>x. committee_authority c (f x)) xs = Inr aus"
proof (induction xs)
  case (Cons x xs)
  then obtain au aus where "committee_authority c (f x) = Inr au" "rmap (\<lambda>x. committee_authority c (f x)) xs = Inr aus"
    using committee_authority_valid [of c "f x"] by auto
  then show ?case by simp
qed simp

lemma bm_inv_shrink:
  assumes "bm_inv K gc {} bm" "K' \<subseteq> K" "\<And>x. x \<in> K \<Longrightarrow> gc < br_round x \<Longrightarrow> x \<in> K'"
  shows "bm_inv K' gc {} bm"
proof -
  note I = bm_invD [OF assms(1)]
  have "waits_ok K' gc {} r sb" if "fmlookup (suspended_blocks bm) r = Some sb" for r sb
    using I(1) [OF that] assms(2,3) unfolding waits_ok_def by auto
  moreover have "a \<notin> K' - {}" if "a |\<in>| fmdom (missing_ancestors bm)" for a
    using I(3) [OF that] assms(2) by auto
  ultimately show ?thesis using I(2,4) unfolding bm_inv_def by simp
qed

lemma causal_shrink:
  assumes "causal K gc bs" "\<And>x. x \<in> K \<Longrightarrow> gc < br_round x \<Longrightarrow> x \<in> K'"
  shows "causal K' gc bs"
  using assms
proof (induction bs arbitrary: K K')
  case (Cons b bs)
  have "causal (insert (reference b) K') gc bs"
    by (rule Cons.IH [of "insert (reference b) K"]) (use Cons.prems in auto)
  then show ?case using Cons.prems by auto
qed simp

text \<open>
  Unsuspending the children of a block \<open>r\<close> that is about to be accepted with \<open>bs\<close>, or that is not
  waited for any more because it is at or below the GC round.
\<close>

lemma unsuspend_ok:
  assumes "receiving c byz U ds" "\<forall>b \<in> suspended_set bm. U (reference b) = Some b"
    and "\<forall>a. a |\<in>| fmdom (missing_ancestors bm) \<longrightarrow> is_valid_index c (br_author a)"
    and "length (received_block_rounds bm) = committee_size c"
    and "dom (get_block ds) \<union> reference ` set bs \<subseteq> K"
    and "\<And>x. x \<in> K \<Longrightarrow> gc_round ds < br_round x \<Longrightarrow> x \<in> dom (get_block ds) \<union> reference ` set bs"
    and "bm_inv K (gc_round ds) {r} bm" "r \<in> K"
    and "\<forall>b \<in> set bs. U (reference b) = Some b \<and> 0 < vb_round b \<and> get_block ds (reference b) = None"
    and "distinct (map reference bs)"
  shows "\<exists>new ds' bm'. try_unsuspend_children_blocks c r bm = Inr (new, bm')
    \<and> accept_blocks now (bs @ new) ds = Inr ds' \<and> managing c byz U ds' bm'
    \<and> ds_context ds' = ds_context ds \<and> same_frame U ds ds'
    \<and> (\<forall>x. get_block ds' x = (if x \<in> reference ` set (bs @ new) then U x else get_block ds x))
    \<and> (\<forall>b \<in> set new. get_block ds (reference b) = None \<and> U (reference b) = Some b \<and> is_valid_index c (vb_author b))
    \<and> distinct (map reference (bs @ new)) \<and> causal (dom (get_block ds) \<union> reference ` set bs) (gc_round ds) new
    \<and> suspended_set bm = suspended_set bm' \<union> set new
    \<and> (\<forall>a. a |\<in>| fmdom (missing_ancestors bm') \<longrightarrow> a |\<in>| fmdom (missing_ancestors bm) \<and> a \<noteq> r)"
proof -
  note R = receivingD [OF assms(1)]
  obtain new bm' where u: "unsuspend_loop [r] [] bm = Inr (new, bm')"
    "bm_inv (K \<union> reference ` sus_block ` set new) (gc_round ds) {} bm'"
    "causal K (gc_round ds) (map sus_block new)" "distinct (map (\<lambda>sb. reference (sus_block sb)) new)"
    "suspended_set bm = suspended_set bm' \<union> sus_block ` set new"
    "\<forall>sb \<in> set new. reference (sus_block sb) \<notin> K"
    "received_block_rounds bm' = received_block_rounds bm"
    using unsuspend_loop_ok [of K "gc_round ds" "[r]" bm "[]"] assms(7,8) by auto
  let ?new = "map sus_block new"
  have new: "U (reference b) = Some b \<and> 0 < vb_round b \<and> reference b \<notin> K" if "b \<in> set ?new" for b
  proof -
    have b: "b \<in> suspended_set bm" using that u(5) by auto
    show ?thesis using assms(2) b suspended_positive [OF assms(7) b] by blast
  qed
  have pre: "\<forall>b \<in> set (bs @ ?new). U (reference b) = Some b \<and> 0 < vb_round b \<and> get_block ds (reference b) = None"
    using assms(5,9) new by (auto simp: dom_def)
  have dist: "distinct (map reference (bs @ ?new))"
  proof (rule distinct_map_append [OF assms(10)])
    show "distinct (map reference ?new)" using u(4) by (simp add: comp_def)
    show "reference b \<notin> reference ` set bs" if "b \<in> set ?new" for b using new [OF that] assms(5) by blast
  qed
  obtain ds' where ds': "accept_blocks now (bs @ ?new) ds = Inr ds'" "receiving c byz U ds'"
    "\<forall>x. get_block ds' x = (if x \<in> reference ` set (bs @ ?new) then U x else get_block ds x)"
    "ds_context ds' = ds_context ds" "same_frame U ds ds'"
    by (rule exE [OF accept_list [OF assms(1) pre dist, of now]]) (elim conjE, rule that)
  have valid: "\<forall>sb \<in> set new. is_valid_index c (vb_author (sus_block sb))"
    using universe_block(1) [OF R(1)] new by simp
  from rmap_authorities [OF this] obtain aus where
    "rmap (\<lambda>sb. committee_authority c (vb_author (sus_block sb))) new = Inr aus" ..
  then have run: "try_unsuspend_children_blocks c r bm = Inr (?new, bm')"
    using u(1) by (simp add: try_unsuspend_children_blocks_def)
  have keys: "\<forall>a. a |\<in>| fmdom (missing_ancestors bm') \<longrightarrow> a |\<in>| fmdom (missing_ancestors bm) \<and> a \<noteq> r"
    using unsuspend_loop_missing [OF u(1)] by auto
  have "managing c byz U ds' bm'"
  proof -
    have "x \<in> dom (get_block ds') \<longleftrightarrow> x \<in> dom (get_block ds) \<union> reference ` set (bs @ ?new)" for x
      using spec [OF ds'(3), of x] pre by (auto simp: dom_def image_Un)
    then have dom: "dom (get_block ds') = dom (get_block ds) \<union> reference ` set (bs @ ?new)" by blast
    have gc: "gc_round ds' = gc_round ds" by (rule gc_round_frame [OF ds'(4,5)])
    have "bm_inv (dom (get_block ds')) (gc_round ds') {} bm'"
      unfolding dom gc by (rule bm_inv_shrink [OF u(2)]) (use assms(5,6) in \<open>auto simp: image_Un\<close>)
    then show ?thesis unfolding managing_def using ds'(2) u(5,7) assms(2-4) keys by auto
  qed
  moreover have "causal (dom (get_block ds) \<union> reference ` set bs) (gc_round ds) ?new"
    by (rule causal_shrink [OF u(3) assms(6)])
  ultimately show ?thesis
    using run keys ds'(1,3-5) pre dist u(5) valid
    by (intro exI [of _ ?new] exI [of _ ds'] exI [of _ bm']) auto
qed

lemma update_metrics_ok:
  assumes "length (received_block_rounds bm) = committee_size c" "is_valid_index c (vb_author b)"
  shows "\<exists>rr. update_block_received_metrics c b bm = Inr (bm\<lparr>received_block_rounds := rr\<rparr>)
    \<and> length rr = committee_size c"
proof -
  have "vb_author b < length (received_block_rounds bm)" using assms by (simp add: is_valid_index_def)
  moreover obtain au where "committee_authority c (vb_author b) = Inr au"
    using committee_authority_valid [OF assms(2)] by auto
  ultimately show ?thesis using assms(1)
    by (simp add: update_block_received_metrics_def vec_get_def Let_def) (rule exI, rule conjI [OF refl], simp)
qed

lemma received_irrelevant [simp]:
  "bm_inv K gc P (bm\<lparr>received_block_rounds := rr\<rparr>) = bm_inv K gc P bm"
  "suspended_set (bm\<lparr>received_block_rounds := rr\<rparr>) = suspended_set bm"
  by (simp_all add: bm_inv_def dependents_def suspended_set_def)

lemma suspended_iff:
  assumes "managing c byz U ds bm" "U (reference b) = Some b"
  shows "b \<in> suspended_set bm \<longleftrightarrow> reference b |\<in>| fmdom (suspended_blocks bm)"
proof
  assume "reference b |\<in>| fmdom (suspended_blocks bm)"
  then obtain sb where sb: "fmlookup (suspended_blocks bm) (reference b) = Some sb" by (auto simp: fmlookup_dom_iff)
  have "reference (sus_block sb) = reference b"
    using bm_invD(1) [OF managingD(2) [OF assms(1)] sb] by (simp add: waits_ok_def)
  then have "sus_block sb \<in> suspended_set bm" using sb by (simp add: suspended_set_def)
  then have "U (reference (sus_block sb)) = Some (sus_block sb)" by (rule managingD(3) [OF assms(1)])
  then have "sus_block sb = b" using assms(2) \<open>reference (sus_block sb) = reference b\<close> by (metis option.inject)
  then show "b \<in> suspended_set bm" using sb by (simp add: suspended_set_def)
qed (auto simp: suspended_set_def fmdomI)

lemma managing_received:
  assumes "managing c byz U ds bm" "length rr = committee_size c"
  shows "managing c byz U ds (bm\<lparr>received_block_rounds := rr\<rparr>)"
  using assms by (simp add: managing_def)

lemma accepts_received:
  "accepts c byz U inputs ds (bm\<lparr>received_block_rounds := rr\<rparr>) acc ds' bm' = accepts c byz U inputs ds bm acc ds' bm'"
  by (simp add: accepts_def)

lemma accepts_known:
  assumes "managing c byz U ds bm" "U (reference b) = Some b"
    and "b \<in> suspended_set bm \<or> get_block ds (reference b) \<noteq> None \<or> vb_round b \<le> gc_round ds"
  shows "accepts c byz U {b} ds bm [] ds bm"
proof -
  have "get_block ds (reference b) = Some b" if "get_block ds (reference b) \<noteq> None"
    using that receivingD(6) [OF managingD(1) [OF assms(1)]] assms(2) by fastforce
  then show ?thesis using assms unfolding accepts_def by auto
qed

lemma accepts_suspended:
  assumes "managing c byz U ds bm" "U (reference b) = Some b" "gc_round ds < vb_round b"
    and "get_block ds (reference b) = None" "reference b |\<notin>| fmdom (suspended_blocks bm)"
    and "bm_inv (dom (get_block ds)) (gc_round ds) {} bm'"
    and "suspended_blocks bm' = fmupd (reference b) (suspended_block_new now b M) (suspended_blocks bm)"
    and "fset (fmdom (missing_ancestors bm')) = fset (fmdom (missing_ancestors bm)) \<union> needed ds b"
    and "received_block_rounds bm' = received_block_rounds bm"
  shows "accepts c byz U {b} ds bm [] ds bm'"
proof -
  note Mg = managingD [OF assms(1)]
  have sus: "suspended_set bm' = insert b (suspended_set bm)"
    using assms(5) fmdomI [of "suspended_blocks bm"] unfolding suspended_set_def assms(7)
    by (auto simp: suspended_block_new_def split: if_splits)
  have key: "a |\<in>| fmdom (missing_ancestors bm) \<or> a \<in> needed ds b" if "a |\<in>| fmdom (missing_ancestors bm')" for a
    using that assms(8) by auto
  then have "is_valid_index c (br_author a)" if "a |\<in>| fmdom (missing_ancestors bm')" for a
    using Mg(4) universe_block(2) [OF receivingD(1) [OF Mg(1)] assms(2)] assms(3) that by (auto simp: needed_def)
  then have "managing c byz U ds bm'"
    using Mg(1,3,5) assms(2,6,9) sus unfolding managing_def by auto
  moreover have "\<forall>a. a |\<in>| fmdom (missing_ancestors bm') \<longrightarrow>
      a |\<in>| fmdom (missing_ancestors bm) \<or> br_round a = genesis_round \<or> gc_round ds < br_round a"
    using key by (auto simp: needed_def)
  ultimately show ?thesis unfolding accepts_def using sus assms(3) by auto
qed

lemma accepts_accepted:
  assumes "managing c byz U ds bm" "U (reference b) = Some b" "gc_round ds < vb_round b"
    and "get_block ds (reference b) = None" "reference b |\<notin>| fmdom (suspended_blocks bm)" "needed ds b = {}"
  shows "\<exists>new ds' bm'. unsuspend_and_accept now (reference b) [b]
      (accepted, missing, ds, bm\<lparr>missing_blocks := missing_blocks bm |-| {|reference b|}\<rparr>) =
      Inr (accepted @ b # new, missing, ds', bm') \<and> accepts c byz U {b} ds bm (b # new) ds' bm'"
proof -
  note Mg = managingD [OF assms(1)]
  let ?bm = "bm\<lparr>missing_blocks := missing_blocks bm |-| {|reference b|}\<rparr>"
  have sus: "suspended_set ?bm = suspended_set bm" by (simp add: suspended_set_def)
  have inv: "bm_inv (insert (reference b) (dom (get_block ds))) (gc_round ds) {reference b} ?bm"
    by (rule accepted_inv [OF Mg(2) _ assms(5)]) (use assms(4) in auto)
  have sus': "\<forall>x \<in> suspended_set ?bm. U (reference x) = Some x" unfolding sus using Mg(3) by blast
  have keys: "\<forall>a. a |\<in>| fmdom (missing_ancestors ?bm) \<longrightarrow> is_valid_index c (br_author a)" using Mg(4) by simp
  have len: "length (received_block_rounds ?bm) = committee_size c" using Mg(5) by simp
  have bs: "\<forall>x \<in> set [b]. U (reference x) = Some x \<and> 0 < vb_round x \<and> get_block ds (reference x) = None"
    using assms(2-4) by simp
  obtain new ds' bm' where u: "try_unsuspend_children_blocks c (reference b) ?bm = Inr (new, bm')"
    "accept_blocks now ([b] @ new) ds = Inr ds'" "managing c byz U ds' bm'"
    "ds_context ds' = ds_context ds" "same_frame U ds ds'"
    "\<forall>x. get_block ds' x = (if x \<in> reference ` set ([b] @ new) then U x else get_block ds x)"
    "\<forall>b \<in> set new. get_block ds (reference b) = None \<and> U (reference b) = Some b \<and> is_valid_index c (vb_author b)"
    "distinct (map reference ([b] @ new))" "causal (dom (get_block ds) \<union> reference ` set [b]) (gc_round ds) new"
    "suspended_set ?bm = suspended_set bm' \<union> set new"
    "\<forall>a. a |\<in>| fmdom (missing_ancestors bm') \<longrightarrow> a |\<in>| fmdom (missing_ancestors ?bm) \<and> a \<noteq> reference b"
    by (rule exE [OF unsuspend_ok [OF Mg(1) sus' keys len _ _ inv _ bs, of now]])
      (simp, simp, simp, simp, elim exE conjE, rule that)
  have run: "unsuspend_and_accept now (reference b) [b] (accepted, missing, ds, ?bm) =
      Inr (accepted @ b # new, missing, ds', bm')"
    using u(1,2) receivingD(3) [OF Mg(1)] by (simp add: unsuspend_and_accept_def)
  have "\<forall>a \<in> set (vb_ancestors b). gc_round ds < br_round a \<longrightarrow> a \<in> dom (get_block ds)"
    using assms(6) by (auto simp: needed_def)
  then have "causal (dom (get_block ds)) (gc_round ds) (b # new)" using u(9) by simp
  then have "accepts c byz U {b} ds bm (b # new) ds' bm'"
    using u(3-8,10,11) assms(2-4) sus unfolding accepts_def by auto
  then show ?thesis using run by blast
qed

subsection \<open>Accepting a batch\<close>

lemma accept_input_ok:
  assumes "managing c byz U ds bm" "U (reference b) = Some b" "0 < vb_round b"
  shows "\<exists>acc m ds' bm'. accept_input now False b (accepted, missing, ds, bm) =
      Inr (accepted @ acc, missing |\<union>| m, ds', bm') \<and> accepts c byz U {b} ds bm acc ds' bm'"
proof -
  note Mg = managingD [OF assms(1)] and R = receivingD [OF managingD(1) [OF assms(1)]]
  note B = universe_block [OF R(1) assms(2,3)]
  obtain rr where rr: "update_block_received_metrics c b bm = Inr (bm\<lparr>received_block_rounds := rr\<rparr>)"
    "length rr = committee_size c"
    using update_metrics_ok [OF Mg(5) B(1)] by blast
  let ?bm = "bm\<lparr>received_block_rounds := rr\<rparr>"
  have m: "managing c byz U ds ?bm" by (rule managing_received [OF assms(1) rr(2)])
  have run: "accept_input now False b (accepted, missing, ds, bm) =
      rbind (try_accept_one_block now b ds ?bm) (\<lambda>(res, bm).
       case res of
         Accepted b \<Rightarrow> unsuspend_and_accept now (reference b) [b] (accepted, missing, ds, bm)
       | Suspended to_fetch \<Rightarrow> Inr (accepted, missing |\<union>| to_fetch, ds, bm)
       | _ \<Rightarrow> Inr (accepted, missing, ds, bm))"
    using rr(1) R(3) by (simp add: accept_input_def)
  have anc: "\<forall>a \<in> set (vb_ancestors b). is_valid_index (ds_committee ds) (br_author a)" using B(2) R(3) by simp
  have au: "is_valid_index (ds_committee ds) (vb_author b)" using B(1) R(3) by simp
  consider (known) "reference b |\<in>| fmdom (suspended_blocks ?bm) \<or> get_block ds (reference b) \<noteq> None"
    | (skipped) "reference b |\<notin>| fmdom (suspended_blocks ?bm)" "get_block ds (reference b) = None" "vb_round b \<le> gc_round ds"
    | (new) "reference b |\<notin>| fmdom (suspended_blocks ?bm)" "get_block ds (reference b) = None" "gc_round ds < vb_round b"
    using not_less by blast
  then have "\<exists>acc m ds' bm'. accept_input now False b (accepted, missing, ds, bm) =
      Inr (accepted @ acc, missing |\<union>| m, ds', bm') \<and> accepts c byz U {b} ds ?bm acc ds' bm'"
  proof cases
    case known
    then have "accepts c byz U {b} ds ?bm [] ds ?bm"
      using suspended_iff [OF m assms(2)] by (intro accepts_known [OF m assms(2)]) blast
    then show ?thesis
      unfolding run try_accept_known [OF R(2) au known]
      by (intro exI [of _ "[]"] exI [of _ "{||}"] exI [of _ ds] exI [of _ ?bm]) simp
  next
    case skipped
    then have "accepts c byz U {b} ds ?bm [] ds ?bm" by (intro accepts_known [OF m assms(2)]) blast
    then show ?thesis
      unfolding run try_accept_skipped [OF R(2) au skipped]
      by (intro exI [of _ "[]"] exI [of _ "{||}"] exI [of _ ds] exI [of _ ?bm]) simp
  next
    case new
    show ?thesis
    proof (cases "needed ds b = {}")
      case True
      obtain acc ds' bm' where "unsuspend_and_accept now (reference b) [b]
          (accepted, missing, ds, ?bm\<lparr>missing_blocks := missing_blocks ?bm |-| {|reference b|}\<rparr>) =
          Inr (accepted @ b # acc, missing, ds', bm')" "accepts c byz U {b} ds ?bm (b # acc) ds' bm'"
        using accepts_accepted [OF m assms(2) new(3,2,1) True] by blast
      then show ?thesis
        unfolding run try_accept_accepted [OF R(2) au anc refl new True]
        by (intro exI [of _ "b # acc"] exI [of _ "{||}"] exI [of _ ds'] exI [of _ bm']) simp
    next
      case False
      obtain to_fetch bm' M where t: "try_accept_one_block now b ds ?bm = Inr (Suspended to_fetch, bm')"
        "bm_inv (dom (get_block ds)) (gc_round ds) {} bm'"
        "suspended_blocks bm' = fmupd (reference b) (suspended_block_new now b M) (suspended_blocks ?bm)"
        "fset (fmdom (missing_ancestors bm')) = fset (fmdom (missing_ancestors ?bm)) \<union> needed ds b"
        "received_block_rounds bm' = received_block_rounds ?bm"
        by (rule try_accept_suspended [OF R(2) au anc refl new False managingD(2) [OF m]])
      have "accepts c byz U {b} ds ?bm [] ds bm'"
        by (rule accepts_suspended [OF m assms(2) new(3,2,1) t(2-5)])
      then show ?thesis
        unfolding run t(1)
        by (intro exI [of _ "[]"] exI [of _ to_fetch] exI [of _ ds] exI [of _ bm']) simp
    qed
  qed
  then show ?thesis unfolding accepts_received .
qed

lemma accept_inputs_ok:
  assumes "managing c byz U ds bm" "\<forall>b \<in> set bs. U (reference b) = Some b \<and> 0 < vb_round b"
  shows "\<exists>acc m ds' bm'. rfold (accept_input now False) bs (accepted, missing, ds, bm) =
      Inr (accepted @ acc, m, ds', bm') \<and> accepts c byz U (set bs) ds bm acc ds' bm'"
  using assms
proof (induction bs arbitrary: accepted missing ds bm)
  case Nil
  then show ?case using accepts_refl by (intro exI [of _ "[]"]) auto
next
  case (Cons b bs)
  obtain acc m ds1 bm1 where 1: "accept_input now False b (accepted, missing, ds, bm) =
      Inr (accepted @ acc, missing |\<union>| m, ds1, bm1)" "accepts c byz U {b} ds bm acc ds1 bm1"
    using accept_input_ok [OF Cons.prems(1), of b now accepted missing] Cons.prems(2) by (metis list.set_intros(1))
  have bs: "\<forall>b \<in> set bs. U (reference b) = Some b \<and> 0 < vb_round b" using Cons.prems(2) by simp
  obtain acc' m' ds2 bm2 where 2: "rfold (accept_input now False) bs (accepted @ acc, missing |\<union>| m, ds1, bm1) =
      Inr ((accepted @ acc) @ acc', m', ds2, bm2)" "accepts c byz U (set bs) ds1 bm1 acc' ds2 bm2"
    using Cons.IH [OF acceptsD(1) [OF 1(2)] bs] by blast
  have "accepts c byz U (set (b # bs)) ds bm (acc @ acc') ds2 bm2"
    using accepts_trans [OF 1(2) 2(2)] by simp
  then show ?case using 1(1) 2(1)
    by (intro exI [of _ "acc @ acc'"] exI [of _ m'] exI [of _ ds2] exI [of _ bm2]) simp
qed

text \<open>
  C3. \<open>BlockManager::try_accept_blocks\<close>, on verified blocks in any order, never panics and keeps the
  state consistent. The blocks it reports as accepted enter the DAG, each once and after all its
  ancestors above the GC round; every input block above the GC round is afterwards in the DAG or
  suspended, and no suspended block is lost.
\<close>

theorem try_accept_blocks_correct:
  assumes "managing c byz U ds bm" "\<forall>b \<in> set blocks. U (reference b) = Some b \<and> 0 < vb_round b"
  shows "\<exists>acc m ds' bm'. try_accept_blocks now blocks ds bm = Inr (acc, m, ds', bm')
    \<and> accepts c byz U (set blocks) ds bm acc ds' bm'"
proof -
  have "\<forall>b \<in> set (sort_key vb_round blocks). U (reference b) = Some b \<and> 0 < vb_round b" using assms(2) by simp
  from accept_inputs_ok [OF assms(1) this, of now "[]" "{||}"] show ?thesis
    by (simp add: try_accept_blocks_def try_accept_blocks_internal_def)
qed

end
