(* ===== verification/Block_Manager_Correct.thy ===== *)
theory Block_Manager_Correct
  imports Block_Manager_Accept Commit_Rule
begin

section \<open>Missing blocks, garbage collection and committed blocks\<close>

text \<open>
  A suspended block waits for a block that is to be fetched; garbage collection releases what waits
  for blocks at or below the GC round; the blocks accepted do not depend on the order of arrival;
  committed blocks are accepted without their ancestors.
\<close>

subsection \<open>What a suspended block waits for\<close>

lemma key_of_missing:
  assumes "bm_inv K gc P bm" "fmlookup (suspended_blocks bm) r = Some sb" "a |\<in>| sus_missing sb"
  shows "a |\<in>| fmdom (missing_ancestors bm)"
proof -
  have "r |\<in>| dependents bm a" using bm_invD(2) [OF assms(1), of r a] assms(2,3) by blast
  then show ?thesis by (auto simp: dependents_def fmlookup_dom_iff split: option.splits)
qed

lemma suspended_lookup:
  assumes "managing c byz U ds bm" "fmlookup (suspended_blocks bm) r = Some sb"
  shows "U r = Some (sus_block sb)" "reference (sus_block sb) = r" "0 < vb_round (sus_block sb)" "sus_block sb \<in> suspended_set bm"
proof -
  have w: "waits_ok (dom (get_block ds)) (gc_round ds) {} r sb"
    by (rule bm_invD(1) [OF managingD(2) [OF assms(1)] assms(2)])
  then show r: "reference (sus_block sb) = r" "0 < vb_round (sus_block sb)" by (auto simp: waits_ok_def)
  then show s: "sus_block sb \<in> suspended_set bm" using assms(2) by (simp add: suspended_set_def)
  show "U r = Some (sus_block sb)" using managingD(3) [OF assms(1) s] unfolding r(1) .
qed


subsection \<open>Garbage collection\<close>

lemma gc_step:
  assumes "managing c byz U ds bm" "r |\<in>| fmdom (missing_ancestors bm)" "br_round r \<le> gc_round ds"
    and "\<And>a. a |\<in>| fmdom (missing_ancestors bm) \<Longrightarrow> r \<le> a"
  shows "\<exists>new ds' bm'. r |\<notin>| fmdom (suspended_blocks bm) \<and> is_ok (committee_authority c (br_author r))
    \<and> try_unsuspend_children_blocks c r (bm\<lparr>missing_blocks := missing_blocks bm |-| {|r|}\<rparr>) = Inr (new, bm')
    \<and> accept_blocks now new ds = Inr ds' \<and> is_ok (rmap (\<lambda>b. committee_authority c (vb_author b)) new)
    \<and> accepts c byz U {} ds bm new ds' bm'
    \<and> fcard (fmdom (missing_ancestors bm')) < fcard (fmdom (missing_ancestors bm))"
proof -
  note Mg = managingD [OF assms(1)]
  let ?bm = "bm\<lparr>missing_blocks := missing_blocks bm |-| {|r|}\<rparr>"
  have ns: "r |\<notin>| fmdom (suspended_blocks bm)"
  proof
    assume "r |\<in>| fmdom (suspended_blocks bm)"
    then obtain sb where sb: "fmlookup (suspended_blocks bm) r = Some sb" by (auto simp: fmlookup_dom_iff)
    note S = suspended_lookup [OF assms(1) sb]
    have w: "sus_missing sb \<noteq> {||}" "fset (sus_missing sb) \<subseteq> set (vb_ancestors (sus_block sb))"
      using bm_invD(1) [OF Mg(2) sb] by (simp_all add: waits_ok_def)
    then obtain a where a: "a |\<in>| sus_missing sb" "a \<in> set (vb_ancestors (sus_block sb))" by auto
    have "br_round a < br_round r"
      using universe_block(2) [OF receivingD(1) [OF Mg(1)] _ S(3)] S(1,2) a(2) by fastforce
    moreover have "r \<le> a" by (rule assms(4) [OF key_of_missing [OF Mg(2) sb a(1)]])
    ultimately show False by (auto simp: less_eq_block_ref_def)
  qed
  have nK: "r \<notin> dom (get_block ds)" using bm_invD(3) [OF Mg(2) assms(2)] by simp
  have inv: "bm_inv (insert r (dom (get_block ds))) (gc_round ds) {r} ?bm"
    by (rule accepted_inv [OF Mg(2) nK ns])
  have sus: "suspended_set ?bm = suspended_set bm" by (simp add: suspended_set_def)
  have sus': "\<forall>x \<in> suspended_set ?bm. U (reference x) = Some x" unfolding sus using Mg(3) by blast
  have keys: "\<forall>a. a |\<in>| fmdom (missing_ancestors ?bm) \<longrightarrow> is_valid_index c (br_author a)" using Mg(4) by simp
  have len: "length (received_block_rounds ?bm) = committee_size c" using Mg(5) by simp
  obtain new ds' bm' where u: "try_unsuspend_children_blocks c r ?bm = Inr (new, bm')"
    "accept_blocks now ([] @ new) ds = Inr ds'" "managing c byz U ds' bm'"
    "ds_context ds' = ds_context ds" "same_frame U ds ds'"
    "\<forall>x. get_block ds' x = (if x \<in> reference ` set ([] @ new) then U x else get_block ds x)"
    "\<forall>b \<in> set new. get_block ds (reference b) = None \<and> U (reference b) = Some b \<and> is_valid_index c (vb_author b)"
    "distinct (map reference ([] @ new))" "causal (dom (get_block ds) \<union> reference ` set []) (gc_round ds) new"
    "suspended_set ?bm = suspended_set bm' \<union> set new"
    "\<forall>a. a |\<in>| fmdom (missing_ancestors bm') \<longrightarrow> a |\<in>| fmdom (missing_ancestors ?bm) \<and> a \<noteq> r"
    by (rule exE [OF unsuspend_ok [OF Mg(1) sus' keys len _ _ inv, of "[]" now]])
      (use assms(3) in \<open>auto intro!: that\<close>)
  have "accepts c byz U {} ds bm new ds' bm'"
    using u(3-11) sus unfolding accepts_def by auto
  moreover have "is_ok (committee_authority c (br_author r))"
    using committee_authority_valid [OF Mg(4) [OF assms(2)]] by auto
  moreover have "is_ok (rmap (\<lambda>b. committee_authority c (vb_author b)) new)"
    using rmap_authorities [of new c vb_author] u(7) by (auto simp: is_ok_iff)
  moreover have "fcard (fmdom (missing_ancestors bm')) < fcard (fmdom (missing_ancestors bm))"
    by (rule pfsubset_fcard_mono) (use u(11) assms(2) in auto)
  ultimately show ?thesis using ns u(1,2) by auto
qed

lemma gc_loop_ok:
  assumes "managing c byz U ds bm" "gc = gc_round ds"
  shows "\<exists>acc ds' bm'. gc_loop now gc ds bm = Inr (ds', bm') \<and> accepts c byz U {} ds bm acc ds' bm'
    \<and> (\<forall>a. a |\<in>| fmdom (missing_ancestors bm') \<longrightarrow> gc < br_round a)"
  using assms
proof (induction "fcard (fmdom (missing_ancestors bm))" arbitrary: ds bm rule: less_induct)
  case less
  let ?keys = "sorted_list_of_fset (fmdom (missing_ancestors bm))"
  show ?case
  proof (cases ?keys)
    case Nil
    then have "fmdom (missing_ancestors bm) = {||}" by (metis sorted_list_of_fset_simps(1) set_empty bot_fset.rep_eq fset_inject)
    then show ?thesis
      using Nil accepts_refl [OF less.prems(1)] by (intro exI [of _ "[]"] exI [of _ ds] exI [of _ bm]) (simp add: gc_loop.simps)
  next
    case (Cons r rest)
    have keys: "set ?keys = fset (fmdom (missing_ancestors bm))" by simp
    have r: "r |\<in>| fmdom (missing_ancestors bm)" using keys unfolding Cons by auto
    have "sorted ?keys" by (simp add: sorted_list_of_fset.rep_eq)
    then have min: "r \<le> a" if "a |\<in>| fmdom (missing_ancestors bm)" for a
      using that keys unfolding Cons by auto
    show ?thesis
    proof (cases "gc < br_round r")
      case True
      then have "gc < br_round a" if "a |\<in>| fmdom (missing_ancestors bm)" for a
        using min [OF that] by (auto simp: less_eq_block_ref_def)
      then show ?thesis
        using True Cons accepts_refl [OF less.prems(1)]
        by (intro exI [of _ "[]"] exI [of _ ds] exI [of _ bm]) (simp add: gc_loop.simps)
    next
      case False
      then have le: "br_round r \<le> gc_round ds" using less.prems(2) by simp
      obtain new ds1 bm1 where s: "r |\<notin>| fmdom (suspended_blocks bm)" "is_ok (committee_authority c (br_author r))"
        "try_unsuspend_children_blocks c r (bm\<lparr>missing_blocks := missing_blocks bm |-| {|r|}\<rparr>) = Inr (new, bm1)"
        "accept_blocks now new ds = Inr ds1" "is_ok (rmap (\<lambda>b. committee_authority c (vb_author b)) new)"
        "accepts c byz U {} ds bm new ds1 bm1"
        "fcard (fmdom (missing_ancestors bm1)) < fcard (fmdom (missing_ancestors bm))"
        using gc_step [OF less.prems(1) r le min, of now] by blast
      obtain acc ds2 bm2 where 2: "gc_loop now gc ds1 bm1 = Inr (ds2, bm2)" "accepts c byz U {} ds1 bm1 acc ds2 bm2"
        "\<forall>a. a |\<in>| fmdom (missing_ancestors bm2) \<longrightarrow> gc < br_round a"
        using less.hyps [OF s(7) acceptsD(1) [OF s(6)]] less.prems(2) acceptsD(12) [OF s(6)] by auto
      have "gc_loop now gc ds bm = Inr (ds2, bm2)"
        using False Cons s(1-5) 2(1) receivingD(3) [OF managingD(1) [OF less.prems(1)]]
        by (subst gc_loop.simps) (auto simp: is_ok_iff)
      then show ?thesis using accepts_trans [OF s(6) 2(2)] 2(3) by auto
    qed
  qed
qed

text \<open>
  \<open>try_unsuspend_blocks_for_latest_gc_round\<close> never panics, its assertion included: it stops waiting
  for every block at or below the GC round, accepts in causal order the suspended blocks that then
  have all their ancestors, and leaves the others suspended.
\<close>

theorem gc_unsuspend_correct:
  assumes "managing c byz U ds bm"
  shows "\<exists>acc ds' bm'. try_unsuspend_blocks_for_latest_gc_round now ds bm = Inr (ds', bm')
    \<and> accepts c byz U {} ds bm acc ds' bm'
    \<and> (\<forall>a. a |\<in>| fmdom (missing_ancestors bm') \<longrightarrow> gc_round ds < br_round a)"
  using gc_loop_ok [OF assms refl] by (simp add: try_unsuspend_blocks_for_latest_gc_round_def)

subsection \<open>The order of arrival\<close>

text \<open>The received blocks whose history above the GC round is received or known.\<close>

inductive_set connected :: "round_number \<Rightarrow> block_ref set \<Rightarrow> verified_block set \<Rightarrow> block_ref set"
  for gc :: round_number and K :: "block_ref set" and R :: "verified_block set" where
  connectedI: "b \<in> R \<Longrightarrow> gc < vb_round b \<Longrightarrow>
     (\<forall>a \<in> set (vb_ancestors b). gc < br_round a \<longrightarrow> a \<in> K \<or> a \<in> connected gc K R) \<Longrightarrow> reference b \<in> connected gc K R"

primrec accept_batches ::
  "(nat \<times> verified_block list) list \<Rightarrow> dag_state \<Rightarrow> block_manager \<Rightarrow> panic + dag_state \<times> block_manager" where
  "accept_batches [] ds bm = Inr (ds, bm)"
| "accept_batches (x # batches) ds bm =
     rbind (try_accept_blocks (fst x) (snd x) ds bm) (\<lambda>(_, _, ds, bm). accept_batches batches ds bm)"

definition received :: "(nat \<times> verified_block list) list \<Rightarrow> verified_block set" where
  "received batches = (\<Union>x \<in> set batches. set (snd x))"

lemma accept_batches_ok:
  assumes "managing c byz U ds bm" "\<forall>b \<in> received batches. U (reference b) = Some b \<and> 0 < vb_round b"
  shows "\<exists>acc ds' bm'. accept_batches batches ds bm = Inr (ds', bm')
    \<and> accepts c byz U (received batches) ds bm acc ds' bm'"
  using assms
proof (induction batches arbitrary: ds bm)
  case Nil
  then show ?case using accepts_refl by (intro exI [of _ "[]"]) (simp add: received_def)
next
  case (Cons x batches)
  have x: "\<forall>b \<in> set (sort_key vb_round (snd x)). U (reference b) = Some b \<and> 0 < vb_round b"
    "\<forall>b \<in> received batches. U (reference b) = Some b \<and> 0 < vb_round b"
    using Cons.prems(2) by (simp_all add: received_def)
  obtain acc m ds1 bm1 where 1: "try_accept_blocks (fst x) (snd x) ds bm = Inr (acc, m, ds1, bm1)"
    "accepts c byz U (set (snd x)) ds bm acc ds1 bm1"
    using accept_inputs_ok [OF Cons.prems(1) x(1), of "fst x" "[]" "{||}"]
    by (auto simp: try_accept_blocks_def try_accept_blocks_internal_def)
  obtain acc' ds2 bm2 where 2: "accept_batches batches ds1 bm1 = Inr (ds2, bm2)"
    "accepts c byz U (received batches) ds1 bm1 acc' ds2 bm2"
    using Cons.IH [OF acceptsD(1) [OF 1(2)] x(2)] by blast
  have "received (x # batches) = set (snd x) \<union> received batches" by (auto simp: received_def)
  then show ?case using 1(1) 2(1) accepts_trans [OF 1(2) 2(2)] by auto
qed

lemma causal_closed:
  assumes "causal K gc bs" "b \<in> set bs" "a \<in> set (vb_ancestors b)" "gc < br_round a"
  shows "a \<in> K \<union> reference ` set bs"
  using assms by (induction bs arbitrary: K) auto

lemma causal_connected:
  assumes "causal K gc acc" "\<forall>b \<in> set acc. b \<in> R \<and> gc < vb_round b" "K \<subseteq> K0 \<union> connected gc K0 R"
  shows "reference ` set acc \<subseteq> connected gc K0 R"
  using assms
proof (induction acc arbitrary: K)
  case (Cons b acc)
  have "reference b \<in> connected gc K0 R"
    by (rule connectedI) (use Cons.prems in auto)
  moreover have "reference ` set acc \<subseteq> connected gc K0 R"
    by (rule Cons.IH [of "insert (reference b) K"]) (use Cons.prems calculation in auto)
  ultimately show ?case by simp
qed simp

lemma manager_new:
  assumes "receiving c byz U ds"
  shows "managing c byz U ds (block_manager_new (ds_context ds))"
  using assms receivingD(3) [OF assms]
  by (simp add: managing_def block_manager_new_def bm_inv_def dependents_def suspended_set_def)

text \<open>
  C39. The order in which verified blocks arrive, and how they are grouped into batches, does not
  matter: a new manager accepts into the DAG exactly the received blocks above the GC round whose
  whole history above the GC round has been received or was in the DAG.
\<close>

theorem accepted_blocks_connected:
  assumes "receiving c byz U ds"
    and "\<forall>b \<in> received batches. U (reference b) = Some b \<and> 0 < vb_round b
       \<and> (\<forall>a \<in> set (vb_ancestors b). br_round a = genesis_round \<longrightarrow> get_block ds a \<noteq> None)"
  shows "\<exists>ds' bm'. accept_batches batches ds (block_manager_new (ds_context ds)) = Inr (ds', bm')
    \<and> dom (get_block ds') = dom (get_block ds) \<union> connected (gc_round ds) (dom (get_block ds)) (received batches)"
proof -
  let ?bm = "block_manager_new (ds_context ds)" and ?gc = "gc_round ds" and ?K = "dom (get_block ds)"
  obtain acc ds' bm' where a: "accept_batches batches ds ?bm = Inr (ds', bm')"
    "accepts c byz U (received batches) ds ?bm acc ds' bm'"
    using accept_batches_ok [OF manager_new [OF assms(1)]] assms(2) by blast
  note A = acceptsD [OF a(2)]
  have empty: "suspended_set ?bm = {}" "fmdom (missing_ancestors ?bm) = {||}"
    by (simp_all add: block_manager_new_def suspended_set_def)
  have "reference ` set acc \<subseteq> connected ?gc ?K (received batches)"
    by (rule causal_connected [OF A(8)]) (use A(9) empty in auto)
  moreover have "r \<in> dom (get_block ds')" if "r \<in> connected ?gc ?K (received batches)" for r
    using that
  proof induction
    case (connectedI b)
    show ?case
    proof (rule ccontr)
      assume "reference b \<notin> dom (get_block ds')"
      then have "b \<in> suspended_set bm'" using A(11) [OF connectedI(1,2)] by auto
      then obtain sb where sb: "fmlookup (suspended_blocks bm') (reference b) = Some sb" "sus_block sb = b"
        by (auto simp: suspended_set_def)
      note I = managingD(2) [OF A(1)]
      obtain x where x: "x |\<in>| sus_missing sb" "x \<in> set (vb_ancestors b)"
        using bm_invD(1) [OF I sb(1)] sb(2) by (auto simp: waits_ok_def)
      have key: "x |\<in>| fmdom (missing_ancestors bm')" by (rule key_of_missing [OF I sb(1) x(1)])
      then have "x \<notin> dom (get_block ds')" using bm_invD(3) [OF I] by simp
      moreover have "br_round x = genesis_round \<or> ?gc < br_round x" using A(13) [OF key] empty by simp
      ultimately show False
        using connectedI(1,3) x(2) assms(2) accepts_dom [OF a(2)] by auto
    qed
  qed
  ultimately have "dom (get_block ds') = ?K \<union> connected ?gc ?K (received batches)"
    unfolding accepts_dom [OF a(2)] by auto
  then show ?thesis using a(1) by blast
qed

subsection \<open>Committed blocks\<close>

lemma remove_dependents:
  "\<exists>ma. fold (remove_dependent r) xs bm = bm\<lparr>missing_ancestors := ma\<rparr>
    \<and> (\<forall>a. fmlookup ma a = (if a \<in> set xs then map_option (\<lambda>S. S |-| {|r|}) (fmlookup (missing_ancestors bm) a)
         else fmlookup (missing_ancestors bm) a))"
proof (induction xs arbitrary: bm)
  case Nil
  show ?case by (rule exI [of _ "missing_ancestors bm"]) simp
next
  case (Cons x xs)
  obtain ma where ma: "fold (remove_dependent r) xs (remove_dependent r x bm) = (remove_dependent r x bm)\<lparr>missing_ancestors := ma\<rparr>"
    "\<forall>a. fmlookup ma a = (if a \<in> set xs then map_option (\<lambda>S. S |-| {|r|}) (fmlookup (missing_ancestors (remove_dependent r x bm)) a)
         else fmlookup (missing_ancestors (remove_dependent r x bm)) a)"
    using Cons.IH by blast
  have f: "(remove_dependent r x bm)\<lparr>missing_ancestors := ma\<rparr> = bm\<lparr>missing_ancestors := ma\<rparr>"
    by (simp add: remove_dependent_def split: option.split)
  have l: "fmlookup (missing_ancestors (remove_dependent r x bm)) a =
      (if a = x then map_option (\<lambda>S. S |-| {|r|}) (fmlookup (missing_ancestors bm) a) else fmlookup (missing_ancestors bm) a)" for a
    by (auto simp: remove_dependent_def split: option.split)
  have two: "map_option (\<lambda>S. S |-| {|r|}) (map_option (\<lambda>S. S |-| {|r|}) y) = map_option (\<lambda>S. S |-| {|r|}) y" for y
    by (cases y) auto
  show ?case
    using ma unfolding f l by (intro exI [of _ ma]) (simp add: two)
qed

lemma forget_frame:
  assumes "bm_inv K gc {} bm"
  shows "fmlookup (suspended_blocks (forget r bm)) x = (if x = r then None else fmlookup (suspended_blocks bm) x)"
    and "dependents (forget r bm) a = dependents bm a |-| {|r|}"
    and "fmdom (missing_ancestors (forget r bm)) = fmdom (missing_ancestors bm)"
    and "missing_blocks (forget r bm) = missing_blocks bm |-| {|r|}"
    and "received_block_rounds (forget r bm) = received_block_rounds bm"
proof -
  note I = bm_invD [OF assms]
  have "fmlookup (suspended_blocks (forget r bm)) x = (if x = r then None else fmlookup (suspended_blocks bm) x)
    \<and> dependents (forget r bm) a = dependents bm a |-| {|r|}
    \<and> fmdom (missing_ancestors (forget r bm)) = fmdom (missing_ancestors bm)
    \<and> missing_blocks (forget r bm) = missing_blocks bm |-| {|r|}
    \<and> received_block_rounds (forget r bm) = received_block_rounds bm"
  proof (cases "fmlookup (suspended_blocks bm) r")
    case None
    then have "r |\<notin>| dependents bm a" using I(2) [of r a] by simp
    then show ?thesis using None by (auto simp: forget_def dependents_def fminus_triv)
  next
    case (Some sb)
    obtain ma where ma: "forget r bm = bm\<lparr>missing_blocks := missing_blocks bm |-| {|r|},
        suspended_blocks := fmdrop r (suspended_blocks bm), missing_ancestors := ma\<rparr>"
      "\<forall>a. fmlookup ma a = (if a |\<in>| sus_missing sb then map_option (\<lambda>S. S |-| {|r|}) (fmlookup (missing_ancestors bm) a)
         else fmlookup (missing_ancestors bm) a)"
      using remove_dependents [of r "sorted_list_of_fset (sus_missing sb)"
        "bm\<lparr>missing_blocks := missing_blocks bm |-| {|r|}, suspended_blocks := fmdrop r (suspended_blocks bm)\<rparr>"] Some
      by (auto simp: forget_def)
    have d: "r |\<in>| dependents bm a \<longleftrightarrow> a |\<in>| sus_missing sb" for a using I(2) [of r a] Some by simp
    have "dependents (forget r bm) a = dependents bm a |-| {|r|}"
      using d [of a] ma(2) unfolding ma(1) dependents_def by (auto split: option.splits)
    moreover have "fmdom ma = fmdom (missing_ancestors bm)"
      using ma(2) by (intro fset_eqI) (simp add: fmlookup_dom_iff)
    ultimately show ?thesis by (simp add: ma(1))
  qed
  then show "fmlookup (suspended_blocks (forget r bm)) x = (if x = r then None else fmlookup (suspended_blocks bm) x)"
    "dependents (forget r bm) a = dependents bm a |-| {|r|}"
    "fmdom (missing_ancestors (forget r bm)) = fmdom (missing_ancestors bm)"
    "missing_blocks (forget r bm) = missing_blocks bm |-| {|r|}"
    "received_block_rounds (forget r bm) = received_block_rounds bm" by blast+
qed

lemma forget_inv:
  assumes "bm_inv K gc {} bm" "r \<notin> K"
  shows "bm_inv (insert r K) gc {r} (forget r bm)"
proof -
  note I = bm_invD [OF assms(1)] and F = forget_frame [OF assms(1), of r]
  show ?thesis
    unfolding bm_inv_def
  proof (intro conjI allI impI)
    fix x sb assume "fmlookup (suspended_blocks (forget r bm)) x = Some sb"
    then have x: "x \<noteq> r" "fmlookup (suspended_blocks bm) x = Some sb" unfolding F(1) by (auto split: if_splits)
    then show "waits_ok (insert r K) gc {r} x sb"
      using I(1) [OF x(2)] assms(2) unfolding waits_ok_def by auto
  next
    fix a x
    show "x |\<in>| dependents (forget r bm) a \<longleftrightarrow>
        (\<exists>sb. fmlookup (suspended_blocks (forget r bm)) x = Some sb \<and> a |\<in>| sus_missing sb)"
      unfolding F(1,2) using I(2) [of x a] by auto
  next
    fix a assume "a |\<in>| fmdom (missing_ancestors (forget r bm))"
    then show "a \<notin> insert r K - {r}" unfolding F(3) using I(3) by auto
  next
    fix a
    have "a |\<in>| fmdom (suspended_blocks (forget r bm)) \<longleftrightarrow> a \<noteq> r \<and> a |\<in>| fmdom (suspended_blocks bm)"
      using F(1) [of a] by (auto simp: fmlookup_dom_iff)
    then show "a |\<in>| missing_blocks (forget r bm) \<longleftrightarrow> a |\<in>| fmdom (missing_ancestors (forget r bm))
        \<and> a |\<notin>| fmdom (suspended_blocks (forget r bm)) \<and> a \<notin> {r}"
      unfolding F(3,4) using I(4) [of a] by auto
  qed
qed

lemma forget_suspended:
  assumes "bm_inv K gc {} bm"
  shows "suspended_set (forget r bm) = {b \<in> suspended_set bm. reference b \<noteq> r}"
  using forget_frame(1) [OF assms, of r] by (auto simp: suspended_set_def)

text \<open>The outcome for committed blocks: all of them are in the DAG, whatever their ancestors.\<close>

definition commits_into ::
  "committee \<Rightarrow> authority_index set \<Rightarrow> (block_ref \<Rightarrow> verified_block option) \<Rightarrow> verified_block set
     \<Rightarrow> dag_state \<Rightarrow> block_manager \<Rightarrow> verified_block list \<Rightarrow> dag_state \<Rightarrow> block_manager \<Rightarrow> bool" where
  "commits_into c byz U inputs ds bm acc ds' bm' \<longleftrightarrow> managing c byz U ds' bm'
     \<and> (\<forall>r. get_block ds' r = (if r \<in> reference ` set acc then U r else get_block ds r))
     \<and> (\<forall>b \<in> set acc. get_block ds (reference b) = None \<and> U (reference b) = Some b)
     \<and> distinct (map reference acc)
     \<and> suspended_set bm' \<union> set acc \<subseteq> suspended_set bm \<union> inputs
     \<and> suspended_set bm \<subseteq> suspended_set bm' \<union> set acc
     \<and> (\<forall>b \<in> inputs. get_block ds' (reference b) = Some b)"

lemma commits_trans:
  assumes "commits_into c byz U I ds bm acc ds1 bm1" "commits_into c byz U J ds1 bm1 acc' ds2 bm2"
  shows "commits_into c byz U (I \<union> J) ds bm (acc @ acc') ds2 bm2"
proof -
  have A: "\<And>r. get_block ds1 r = (if r \<in> reference ` set acc then U r else get_block ds r)"
    "\<And>b. b \<in> set acc \<Longrightarrow> get_block ds (reference b) = None \<and> U (reference b) = Some b" "distinct (map reference acc)"
    "suspended_set bm1 \<union> set acc \<subseteq> suspended_set bm \<union> I" "suspended_set bm \<subseteq> suspended_set bm1 \<union> set acc"
    "\<And>b. b \<in> I \<Longrightarrow> get_block ds1 (reference b) = Some b"
    using assms(1) unfolding commits_into_def by blast+
  have B: "managing c byz U ds2 bm2" "\<And>r. get_block ds2 r = (if r \<in> reference ` set acc' then U r else get_block ds1 r)"
    "\<And>b. b \<in> set acc' \<Longrightarrow> get_block ds1 (reference b) = None \<and> U (reference b) = Some b" "distinct (map reference acc')"
    "suspended_set bm2 \<union> set acc' \<subseteq> suspended_set bm1 \<union> J" "suspended_set bm1 \<subseteq> suspended_set bm2 \<union> set acc'"
    "\<And>b. b \<in> J \<Longrightarrow> get_block ds2 (reference b) = Some b"
    using assms(2) unfolding commits_into_def by blast+
  have disj: "reference b \<notin> reference ` set acc" if b: "b \<in> set acc'" for b
  proof
    assume "reference b \<in> reference ` set acc"
    then have "get_block ds1 (reference b) = U (reference b)" using A(1) by simp
    then show False using B(3) [OF b] by simp
  qed
  have old: "get_block ds (reference b) = None" if "b \<in> set acc'" for b
    using B(3) [OF that] A(1) [of "reference b"] disj [OF that] by simp
  have keep: "get_block ds2 r = Some b" if g: "get_block ds1 r = Some b" for r b
  proof -
    have "r \<notin> reference ` set acc'" using g B(3) by auto
    then show ?thesis using B(2) g by simp
  qed
  have "get_block ds2 r = (if r \<in> reference ` set (acc @ acc') then U r else get_block ds r)" for r
    using A(1) [of r] B(2) [of r] by (simp add: image_Un)
  moreover have "distinct (map reference (acc @ acc'))" by (rule distinct_map_append [OF A(3) B(4) disj])
  moreover have "\<forall>b \<in> set (acc @ acc'). get_block ds (reference b) = None \<and> U (reference b) = Some b"
    using A(2) B(3) old by auto
  moreover have "suspended_set bm2 \<union> set (acc @ acc') \<subseteq> suspended_set bm \<union> (I \<union> J)"
    "suspended_set bm \<subseteq> suspended_set bm2 \<union> set (acc @ acc')"
    using A(4,5) B(5,6) by auto
  moreover have "\<forall>b \<in> I \<union> J. get_block ds2 (reference b) = Some b" using keep A(6) B(7) by blast
  ultimately show ?thesis unfolding commits_into_def using B(1) by blast
qed

lemma commit_input_ok:
  assumes "managing c byz U ds bm" "U (reference b) = Some b" "0 < vb_round b"
  shows "\<exists>acc ds' bm'. accept_input now True b (accepted, missing, ds, bm) =
      Inr (accepted @ acc, missing, ds', bm') \<and> commits_into c byz U {b} ds bm acc ds' bm'"
proof -
  note Mg0 = managingD [OF assms(1)] and R = receivingD [OF managingD(1) [OF assms(1)]]
  note B = universe_block [OF R(1) assms(2,3)]
  obtain rr where rr: "update_block_received_metrics c b bm = Inr (bm\<lparr>received_block_rounds := rr\<rparr>)"
    "length rr = committee_size c"
    using update_metrics_ok [OF Mg0(5) B(1)] by blast
  let ?bm = "bm\<lparr>received_block_rounds := rr\<rparr>" and ?r = "reference b"
  have m: "managing c byz U ds ?bm" by (rule managing_received [OF assms(1) rr(2)])
  note Mg = managingD [OF m]
  have known: "contains_block ds ?r = Inr (get_block ds ?r \<noteq> None)"
    by (rule contains_block_get [OF R(2)]) (use B(1) R(3) in simp)
  show ?thesis
  proof (cases "get_block ds ?r = None")
    case False
    then have "get_block ds ?r = Some b" using R(6) assms(2) by fastforce
    then have "commits_into c byz U {b} ds bm [] ds ?bm"
      using m unfolding commits_into_def by auto
    then show ?thesis
      using False known rr(1) R(3)
      by (intro exI [of _ "[]"] exI [of _ ds] exI [of _ ?bm])
        (simp add: accept_input_def try_accept_one_committed_block_def)
  next
    case True
    obtain ds1 where 1: "accept_block now b ds = Inr ds1" "receiving c byz U ds1"
      "get_block ds1 = (get_block ds)(?r := Some b)" "ds_context ds1 = ds_context ds" "same_frame U ds ds1"
      by (rule exE [OF accept_one [OF Mg(1) assms(2,3) True, of now]]) (elim conjE, rule that)
    have gc: "gc_round ds1 = gc_round ds" by (rule gc_round_frame [OF 1(4,5)])
    have nK: "?r \<notin> dom (get_block ds)" using True by auto
    have dom: "dom (get_block ds1) = insert ?r (dom (get_block ds))" unfolding 1(3) by simp
    note F = forget_frame [OF Mg(2), of ?r]
    have sus: "suspended_set (forget ?r ?bm) = {x \<in> suspended_set bm. reference x \<noteq> ?r}"
      using forget_suspended [OF Mg(2), of ?r] by simp
    have inv: "bm_inv (dom (get_block ds1)) (gc_round ds1) {?r} (forget ?r ?bm)"
      unfolding dom gc by (rule forget_inv [OF Mg(2) nK])
    have s': "\<forall>x \<in> suspended_set (forget ?r ?bm). U (reference x) = Some x" unfolding sus using Mg0(3) by blast
    have keys: "\<forall>a. a |\<in>| fmdom (missing_ancestors (forget ?r ?bm)) \<longrightarrow> is_valid_index c (br_author a)"
      unfolding F(3) using Mg0(4) by simp
    have len: "length (received_block_rounds (forget ?r ?bm)) = committee_size c" unfolding F(5) using rr(2) by simp
    obtain new ds' bm' where u: "try_unsuspend_children_blocks c ?r (forget ?r ?bm) = Inr (new, bm')"
      "accept_blocks now ([] @ new) ds1 = Inr ds'" "managing c byz U ds' bm'"
      "\<forall>x. get_block ds' x = (if x \<in> reference ` set ([] @ new) then U x else get_block ds1 x)"
      "\<forall>b \<in> set new. get_block ds1 (reference b) = None \<and> U (reference b) = Some b \<and> is_valid_index c (vb_author b)"
      "distinct (map reference ([] @ new))"
      "suspended_set (forget ?r ?bm) = suspended_set bm' \<union> set new"
      by (rule exE [OF unsuspend_ok [OF 1(2) s' keys len _ _ inv, of "[]" now]])
        (use dom in \<open>auto intro!: that\<close>)
    have run: "accept_input now True b (accepted, missing, ds, bm) = Inr (accepted @ b # new, missing, ds', bm')"
      using rr(1) R(3) receivingD(3) [OF 1(2)] known True 1(1) u(1,2)
      by (simp add: accept_input_def try_accept_one_committed_block_def Let_def accept_blocks_def
        unsuspend_and_accept_def)
    have "commits_into c byz U {b} ds bm (b # new) ds' bm'"
    proof -
      have nr: "reference x \<noteq> ?r \<and> get_block ds (reference x) = None \<and> U (reference x) = Some x" if x: "x \<in> set new" for x
        using bspec [OF u(5) x] unfolding 1(3) by (auto split: if_splits)
      have "get_block ds' x = (if x \<in> reference ` set (b # new) then U x else get_block ds x)" for x
        using spec [OF u(4), of x] assms(2) unfolding 1(3) by simp
      moreover have "distinct (map reference (b # new))" using u(6) nr by simp (metis imageE)
      moreover have "x \<in> suspended_set bm' \<union> set (b # new)" if x: "x \<in> suspended_set bm" for x
      proof (cases "reference x = ?r")
        case True
        then have "x = b" using Mg0(3) [OF x] assms(2) by (metis option.inject)
        then show ?thesis by simp
      next
        case False
        then have "x \<in> suspended_set (forget ?r ?bm)" unfolding sus using x by simp
        then show ?thesis unfolding u(7) by auto
      qed
      moreover have "suspended_set bm' \<union> set (b # new) \<subseteq> suspended_set bm \<union> {b}" using u(7) sus by auto
      ultimately show ?thesis unfolding commits_into_def using u(3) nr True assms(2) by auto
    qed
    then show ?thesis using run by (intro exI [of _ "b # new"]) auto
  qed
qed

text \<open>
  C40. \<open>BlockManager::try_accept_committed_blocks\<close> never panics, none of its assertions included: every
  block of a certified commit is in the DAG afterwards whether or not its ancestors are, blocks that
  waited for it are unsuspended, the state stays consistent and no suspended block is lost.
\<close>

theorem try_accept_committed_blocks_correct:
  assumes "managing c byz U ds bm" "\<forall>b \<in> set blocks. U (reference b) = Some b \<and> 0 < vb_round b"
  shows "\<exists>acc ds' bm'. try_accept_committed_blocks now blocks ds bm = Inr (acc, ds', bm')
    \<and> commits_into c byz U (set blocks) ds bm acc ds' bm'"
proof -
  have loop: "\<exists>acc ds' bm'. rfold (accept_input now True) bs (accepted, {||}, ds, bm) = Inr (accepted @ acc, {||}, ds', bm')
      \<and> commits_into c byz U (set bs) ds bm acc ds' bm'"
    if "managing c byz U ds bm" "\<forall>b \<in> set bs. U (reference b) = Some b \<and> 0 < vb_round b" for bs accepted ds bm
    using that
  proof (induction bs arbitrary: accepted ds bm)
    case Nil
    then show ?case by (simp add: commits_into_def)
  next
    case (Cons b bs)
    obtain acc ds1 bm1 where 1: "accept_input now True b (accepted, {||}, ds, bm) = Inr (accepted @ acc, {||}, ds1, bm1)"
      "commits_into c byz U {b} ds bm acc ds1 bm1"
      using commit_input_ok [OF Cons.prems(1), of b now accepted "{||}"] Cons.prems(2) by (metis list.set_intros(1))
    have m1: "managing c byz U ds1 bm1" using 1(2) by (simp add: commits_into_def)
    have bs: "\<forall>b \<in> set bs. U (reference b) = Some b \<and> 0 < vb_round b" using Cons.prems(2) by simp
    obtain acc' ds2 bm2 where 2: "rfold (accept_input now True) bs (accepted @ acc, {||}, ds1, bm1) =
        Inr ((accepted @ acc) @ acc', {||}, ds2, bm2)" "commits_into c byz U (set bs) ds1 bm1 acc' ds2 bm2"
      using Cons.IH [OF m1 bs] by blast
    then show ?case
      using 1(1) commits_trans [OF 1(2) 2(2)] by (intro exI [of _ "acc @ acc'"] exI [of _ ds2] exI [of _ bm2]) simp
  qed
  have "\<forall>b \<in> set (sort_key vb_round blocks). U (reference b) = Some b \<and> 0 < vb_round b" using assms(2) by simp
  from loop [OF assms(1) this, of "[]"] show ?thesis
    by (auto simp: try_accept_committed_blocks_def try_accept_blocks_internal_def)
qed

subsection \<open>Looking for blocks\<close>

lemma note_wanted_ok:
  assumes "managing c byz U ds bm" "\<forall>r \<in> set refs. is_valid_index c (br_author r) \<and> gc_round ds < br_round r"
  shows "\<exists>bm'. rfold (note_wanted c) (zip (map (\<lambda>r. get_block ds r \<noteq> None) refs) refs) (missing, bm)
      = Inr (missing |\<union>| fset_of_list (filter (\<lambda>r. get_block ds r = None \<and> r |\<notin>| fmdom (suspended_blocks bm)) refs), bm')
    \<and> managing c byz U ds bm' \<and> suspended_blocks bm' = suspended_blocks bm
    \<and> missing_blocks bm' = missing_blocks bm |\<union>|
        fset_of_list (filter (\<lambda>r. get_block ds r = None \<and> r |\<notin>| fmdom (suspended_blocks bm)) refs)"
  using assms
proof (induction refs arbitrary: missing bm)
  case Nil
  then show ?case by simp
next
  case (Cons r refs)
  have v: "\<forall>r \<in> set refs. is_valid_index c (br_author r) \<and> gc_round ds < br_round r" using Cons.prems(2) by simp
  show ?case
  proof (cases "get_block ds r \<noteq> None \<or> r |\<in>| fmdom (suspended_blocks bm)")
    case True
    then show ?thesis using Cons.IH [OF Cons.prems(1) v, of missing] by (auto simp: note_wanted_def)
  next
    case False
    define bm1 where "bm1 = (if r |\<in>| missing_blocks bm then bm
      else bm\<lparr>missing_blocks := finsert r (missing_blocks bm),
           missing_ancestors := fmupd r (dependents bm r) (missing_ancestors bm)\<rparr>)"
    obtain au where au: "committee_authority c (br_author r) = Inr au"
      using committee_authority_valid Cons.prems(2) by (metis list.set_intros(1))
    have step: "note_wanted c (False, r) (missing, bm) = Inr (finsert r missing, bm1)"
      using False au by (auto simp: note_wanted_def bm1_def)
    have d: "dependents bm1 = dependents bm" by (auto simp: bm1_def dependents_def fun_eq_iff)
    have s: "suspended_blocks bm1 = suspended_blocks bm" "missing_blocks bm1 = finsert r (missing_blocks bm)"
      "received_block_rounds bm1 = received_block_rounds bm"
      by (auto simp: bm1_def)
    have k: "a |\<in>| fmdom (missing_ancestors bm1) \<longleftrightarrow> a |\<in>| fmdom (missing_ancestors bm) \<or> a = r" for a
      using bm_invD(4) [OF managingD(2) [OF Cons.prems(1)], of r] False by (auto simp: bm1_def)
    have m: "managing c byz U ds bm1"
      using Cons.prems False unfolding managing_def bm_inv_def suspended_set_def d s k by auto
    show ?thesis using Cons.IH [OF m v, of "finsert r missing"] step False unfolding s by auto
  qed
qed

text \<open>
  \<open>try_find_blocks\<close> returns exactly the references above the GC round that are neither in the DAG nor
  suspended, and adds these to the blocks to fetch.
\<close>

lemma try_find_blocks_ok:
  assumes "managing c byz U ds bm" "\<forall>r \<in> set refs. is_valid_index c (br_author r)"
  shows "\<exists>wanted bm'. try_find_blocks refs ds bm = Inr (wanted, bm') \<and> managing c byz U ds bm'
    \<and> fset wanted = {r \<in> set refs. gc_round ds < br_round r \<and> get_block ds r = None \<and> r |\<notin>| fmdom (suspended_blocks bm)}
    \<and> suspended_blocks bm' = suspended_blocks bm \<and> missing_blocks bm' = missing_blocks bm |\<union>| wanted"
proof -
  note R = receivingD [OF managingD(1) [OF assms(1)]]
  let ?refs = "sort_key br_round (filter (\<lambda>r. gc_round ds < br_round r) refs)"
  have v: "\<forall>r \<in> set ?refs. is_valid_index c (br_author r) \<and> gc_round ds < br_round r" using assms(2) by simp
  show ?thesis
  proof (cases "filter (\<lambda>r. gc_round ds < br_round r) refs = []")
    case True
    then have "{r \<in> set refs. gc_round ds < br_round r \<and> get_block ds r = None \<and> r |\<notin>| fmdom (suspended_blocks bm)} = {}"
      by (auto simp: filter_empty_conv)
    then show ?thesis using True assms(1) by (simp add: try_find_blocks_def)
  next
    case False
    have "contains_blocks ds ?refs = Inr (map (\<lambda>r. get_block ds r \<noteq> None) ?refs)"
      by (rule contains_blocks_get [OF R(2)]) (use v R(3) in simp)
    then show ?thesis
      using note_wanted_ok [OF assms(1) v, of "{||}"] False R(3)
      by (fastforce simp: try_find_blocks_def Let_def fset_of_list.rep_eq)
  qed
qed

subsection \<open>Examples\<close>

lemma demo_receiving: "m \<le> n \<Longrightarrow> receiving demo_committee {} (get_block (demo_rounds n)) (demo_rounds m)"
  unfolding receiving_def
  by (intro conjI demo_universe demo_rounds_inv)
    (auto simp: demo_rounds_get demo_ref_def protocol_config_for_testing_def split: if_splits)

lemmas demo_dag_get = demo_rounds_get [of 0, unfolded demo_rounds.simps]

lemma demo_managing: "managing demo_committee {} (get_block (demo_rounds n)) demo_dag (block_manager_new demo_context)"
  using manager_new [OF demo_receiving [of 0 n]] by simp

lemma demo_waiting:
  "\<exists>acc m ds bm. try_accept_blocks 7 [demo_block 2 1] demo_dag (block_manager_new demo_context) = Inr (acc, m, ds, bm)
    \<and> managing demo_committee {} (get_block (demo_rounds 2)) ds bm \<and> demo_block 2 1 \<in> suspended_set bm"
proof -
  let ?U = "get_block (demo_rounds 2)" and ?bm = "block_manager_new demo_context"
  have b: "\<forall>b \<in> set (sort_key vb_round [demo_block 2 1]). ?U (reference b) = Some b \<and> 0 < vb_round b"
    by (simp add: demo_rounds_get demo_ref_def)
  have M: "managing demo_committee {} ?U demo_dag ?bm" by (rule demo_managing)
  obtain acc m ds bm where a: "try_accept_blocks 7 [demo_block 2 1] demo_dag ?bm = Inr (acc, m, ds, bm)"
    "accepts demo_committee {} ?U {demo_block 2 1} demo_dag ?bm acc ds bm"
    using accept_inputs_ok [OF M b, of 7 "[]" "{||}"]
    by (auto simp: try_accept_blocks_def try_accept_blocks_internal_def)
  note A = acceptsD [OF a(2)]
  have "set acc \<subseteq> {demo_block 2 1}" using A(9) by (auto simp: block_manager_new_def suspended_set_def)
  have "demo_block 2 1 \<notin> set acc"
  proof
    assume i: "demo_block 2 1 \<in> set acc"
    have "BlockRef 1 1 0 \<in> dom (get_block demo_dag) \<union> reference ` set acc"
      by (rule causal_closed [OF A(8) i]) simp_all
    moreover have "BlockRef 1 1 0 \<notin> dom (get_block demo_dag)" by (auto simp: demo_dag_get demo_ref_def)
    ultimately show False using \<open>set acc \<subseteq> _\<close> by auto
  qed
  then have "get_block ds (reference (demo_block 2 1)) = None"
    using A(4) [of "reference (demo_block 2 1)"] \<open>set acc \<subseteq> _\<close> by (auto simp: demo_dag_get demo_ref_def)
  then show ?thesis using a(1) A(1) A(11) [of "demo_block 2 1"] by auto
qed

theorem try_accept_blocks_correct_witness:
  "\<exists>acc m ds' bm'. try_accept_blocks 7 [demo_block 2 1, demo_block 1 3, demo_block 1 2, demo_block 1 1] demo_dag
       (block_manager_new demo_context) = Inr (acc, m, ds', bm')
     \<and> accepts demo_committee {} (get_block (demo_rounds 2)) (set [demo_block 2 1, demo_block 1 3, demo_block 1 2, demo_block 1 1])
          demo_dag (block_manager_new demo_context) acc ds' bm'"
  by (rule try_accept_blocks_correct [OF demo_managing]) (simp add: demo_rounds_get demo_ref_def)


theorem gc_unsuspend_correct_witness:
  "\<exists>ds bm acc ds' bm'. demo_block 2 1 \<in> suspended_set bm
    \<and> try_unsuspend_blocks_for_latest_gc_round 8 ds bm = Inr (ds', bm')
    \<and> accepts demo_committee {} (get_block (demo_rounds 2)) {} ds bm acc ds' bm'"
  using demo_waiting gc_unsuspend_correct by meson

theorem accepted_blocks_connected_witness:
  "\<exists>ds' bm'. accept_batches [(7, [demo_block 2 1]), (8, [demo_block 1 2, demo_block 1 1, demo_block 1 3])] demo_dag
      (block_manager_new demo_context) = Inr (ds', bm') \<and> BlockRef 2 1 0 \<in> dom (get_block ds')"
proof -
  let ?batches = "[(7, [demo_block 2 1]), (8, [demo_block 1 2, demo_block 1 1, demo_block 1 3])]"
  let ?C = "connected 0 (dom (get_block demo_dag)) (received ?batches)"
  have R: "receiving demo_committee {} (get_block (demo_rounds 2)) demo_dag" using demo_receiving [of 0 2] by simp
  have gc: "gc_round demo_dag = 0" using demo_rounds_simps(7) [of 0] by simp
  have r: "received ?batches = {demo_block 2 1, demo_block 1 2, demo_block 1 1, demo_block 1 3}" by (auto simp: received_def)
  have "reference (demo_block 1 a) \<in> ?C" if "a \<in> {1, 2, 3}" for a
    by (rule connectedI) (use that in \<open>auto simp: received_def\<close>)
  then have 1: "BlockRef 1 a 0 \<in> ?C" if "a \<in> {1, 2, 3}" for a using that by simp
  have "reference (demo_block 2 1) \<in> ?C"
    by (rule connectedI) (use 1 in \<open>auto simp: received_def\<close>)
  then have 2: "BlockRef 2 1 0 \<in> ?C" by simp
  have h: "\<forall>b \<in> received ?batches. get_block (demo_rounds 2) (reference b) = Some b \<and> 0 < vb_round b
      \<and> (\<forall>a \<in> set (vb_ancestors b). br_round a = genesis_round \<longrightarrow> get_block demo_dag a \<noteq> None)"
    unfolding r by (auto simp: demo_rounds_get demo_dag_get demo_ref_def genesis_round_def)
  from accepted_blocks_connected [OF R h] show ?thesis using 2 unfolding gc by auto
qed

theorem try_accept_committed_blocks_correct_witness:
  "\<exists>acc ds' bm'. try_accept_committed_blocks 7 [demo_block 2 1] demo_dag (block_manager_new demo_context) = Inr (acc, ds', bm')
    \<and> get_block ds' (BlockRef 2 1 0) = Some (demo_block 2 1)"
proof -
  have "\<forall>b \<in> set [demo_block 2 1]. get_block (demo_rounds 2) (reference b) = Some b \<and> 0 < vb_round b"
    by (simp add: demo_rounds_get demo_ref_def)
  from try_accept_committed_blocks_correct [OF demo_managing this, of 7] show ?thesis
    by (auto simp: commits_into_def)
qed


end
