(* ===== verification/Commit_Observer.thy ===== *)
theory Commit_Observer
  imports Linearizer
begin

section \<open>The commit observer\<close>

text \<open>
  Models \<open>consensus/core/src/commit_observer.rs\<close>, as far as \<open>Core\<close> calls it, and the monitor of
  \<open>commit_consumer.rs\<close>. The channel to the commit finalizer is the list of the sub-dags sent, and is
  open until the finalizer stops; sending on a closed channel is the error \<open>Shutdown\<close>, which ends the
  core thread. Metrics and logging are left out.
\<close>

subsection \<open>The monitor of the commit consumer\<close>

record commit_progress =
  highest_committed_index :: commit_index
  highest_committed_round :: round_number

record commit_consumer_monitor =
  replay_target :: "commit_index option"
  committed_progress :: commit_progress
  highest_handled_commit :: commit_index

definition monitor_new :: "commit_index \<Rightarrow> commit_index option \<Rightarrow> commit_consumer_monitor" where
  "monitor_new replay_after target = \<lparr>replay_target = target,
     committed_progress = \<lparr>highest_committed_index = 0, highest_committed_round = 0\<rparr>,
     highest_handled_commit = replay_after\<rparr>"

definition set_replay_target :: "commit_index \<Rightarrow> commit_consumer_monitor \<Rightarrow> panic + commit_consumer_monitor" where
  "set_replay_target target m =
     rbind (rassert (replay_target m = None) ReplayTargetSet) (\<lambda>_.
     Inr (m\<lparr>replay_target := Some target\<rparr>))"

definition report_committed ::
  "commit_index \<Rightarrow> round_number \<Rightarrow> commit_consumer_monitor \<Rightarrow> commit_consumer_monitor" where
  "report_committed i r m =
    (if i \<le> highest_committed_index (committed_progress m) then m
     else m\<lparr>committed_progress := \<lparr>highest_committed_index = i, highest_committed_round = r\<rparr>\<rparr>)"

definition set_highest_handled_commit :: "commit_index \<Rightarrow> commit_consumer_monitor \<Rightarrow> commit_consumer_monitor" where
  "set_highest_handled_commit i m = m\<lparr>highest_handled_commit := i\<rparr>"

subsection \<open>The observer\<close>

record commit_observer =
  consumer_monitor :: commit_consumer_monitor
  finalizer_open :: bool
  finalizer_queue :: "committed_sub_dag list"

definition finalizer_send :: "committed_sub_dag \<Rightarrow> commit_observer \<Rightarrow> panic + commit_observer" where
  "finalizer_send sub ob =
     rbind (rassert (finalizer_open ob) ConsensusShutdown) (\<lambda>_.
     Inr (ob\<lparr>finalizer_queue := finalizer_queue ob @ [sub]\<rparr>))"

definition send_to_finalizer :: "committed_sub_dag \<Rightarrow> commit_observer \<Rightarrow> panic + commit_observer" where
  "send_to_finalizer sub ob =
     finalizer_send sub (ob\<lparr>consumer_monitor :=
       report_committed (cr_index (csd_commit_ref sub)) (br_round (csd_leader sub)) (consumer_monitor ob)\<rparr>)"

definition handle_committed_leaders ::
  "crypto \<Rightarrow> (commit \<Rightarrow> bytes option) \<Rightarrow> verified_block list \<Rightarrow> bool \<Rightarrow> commit_observer \<Rightarrow> dag_state
     \<Rightarrow> panic + committed_sub_dag list \<times> commit_observer \<times> dag_state" where
  "handle_committed_leaders cr encode committed_leaders local ob ds =
     rbind (handle_commit cr encode committed_leaders ds) (\<lambda>(subs, ds).
     let subs = map (\<lambda>sub. sub\<lparr>decided_with_local_blocks := local\<rparr>) subs in
     rbind (rfold send_to_finalizer subs ob) (\<lambda>ob.
     rbind (add_scoring_subdags subs ds) (\<lambda>ds.
     Inr (subs, ob, ds))))"

end
