(* ===== verification/Core.thy ===== *)
theory Core
  imports Commit_Observer Universal_Committer Block_Manager
begin

section \<open>The core of a node\<close>

text \<open>
  Models \<open>consensus/core/src/core.rs\<close> for an observer node, which has no proposer: what it does with
  the blocks and the certified commits it receives. The components of \<open>Core\<close> share one \<open>DagState\<close>,
  which is the field \<open>core_dag\<close>; the signals are the values sent. The branch of \<open>enable_v3\<close>, which
  commits by the \<open>FlexCommitter\<close>, is not modelled. The clock is the argument \<open>now\<close>.
\<close>

subsection \<open>State\<close>

record signals =
  accepted_sent :: "verified_block list"
  new_round_sent :: round_number

record core =
  core_manager :: block_manager
  core_dag :: dag_state
  core_committers :: "base_committer_options list"
  core_schedule :: leader_schedule
  core_observer :: commit_observer
  core_signals :: signals
  last_signaled_round :: round_number
  last_decided_leader :: slot

definition broadcast_accepted :: "verified_block list \<Rightarrow> core \<Rightarrow> core" where
  "broadcast_accepted bs co =
     co\<lparr>core_signals := (core_signals co)\<lparr>accepted_sent := accepted_sent (core_signals co) @ bs\<rparr>\<rparr>"

subsection \<open>Accepting blocks\<close>

definition core_accept_blocks ::
  "nat \<Rightarrow> verified_block list \<Rightarrow> core \<Rightarrow> panic + verified_block list \<times> block_ref fset \<times> core" where
  "core_accept_blocks now blocks co =
     rbind (try_accept_blocks now blocks (core_dag co) (core_manager co)) (\<lambda>(accepted, missing, ds, bm).
     Inr (accepted, missing, broadcast_accepted accepted (co\<lparr>core_dag := ds, core_manager := bm\<rparr>)))"

definition accept_committed_blocks ::
  "nat \<Rightarrow> verified_block list \<Rightarrow> core \<Rightarrow> panic + verified_block list \<times> core" where
  "accept_committed_blocks now blocks co =
     rbind (try_accept_committed_blocks now blocks (core_dag co) (core_manager co)) (\<lambda>(accepted, ds, bm).
     Inr (accepted, broadcast_accepted accepted (co\<lparr>core_dag := ds, core_manager := bm\<rparr>)))"

definition check_block_refs :: "block_ref list \<Rightarrow> core \<Rightarrow> panic + block_ref fset \<times> core" where
  "check_block_refs refs co =
     rbind (try_find_blocks refs (core_dag co) (core_manager co)) (\<lambda>(missing, bm).
     Inr (missing, co\<lparr>core_manager := bm\<rparr>))"

definition try_signal_new_round :: "core \<Rightarrow> core" where
  "try_signal_new_round co =
    (let r = tc_round (ds_threshold_clock (core_dag co)) in
     if r \<le> last_signaled_round co then co
     else co\<lparr>core_signals := (core_signals co)\<lparr>new_round_sent := r\<rparr>, last_signaled_round := r\<rparr>)"

subsection \<open>Committing\<close>

text \<open>The number of commits before the next change of the schedule, which is changed when it is due.\<close>

definition refresh_schedule :: "rng \<Rightarrow> core \<Rightarrow> panic + nat \<times> core" where
  "refresh_schedule g co =
     rbind (commits_until_leader_schedule_update (core_schedule co) (core_dag co)) (\<lambda>n.
     rbind (if n = 0
            then rbind (update_leader_schedule_v2 g (core_schedule co) (core_dag co)) (\<lambda>(sch, ds).
                 rbind (commits_until_leader_schedule_update sch ds) (\<lambda>n.
                 Inr (n, co\<lparr>core_schedule := sch, core_dag := ds\<rparr>)))
            else Inr (n, co)) (\<lambda>(n, co).
     rbind (rassert (n > 0) NoCommitsUntilUpdate) (\<lambda>_.
     Inr (n, co))))"

definition certified_leader :: "committee \<Rightarrow> certified_commit \<Rightarrow> panic + decided_leader \<times> certified_commit" where
  "certified_leader c commit =
    (case rev (certified_blocks commit) of
       [] \<Rightarrow> Inl CertifiedCommitEmpty
     | leader # _ \<Rightarrow>
         rbind (rassert (reference leader = commit_leader (trusted_inner (certified_inner commit))) CertifiedLeaderMismatch) (\<lambda>_.
         rbind (committee_authority c (vb_author leader)) (\<lambda>_.
         Inr (DecidedCommit leader False, commit))))"

definition try_select_certified_leaders ::
  "committee \<Rightarrow> certified_commit list \<Rightarrow> nat
     \<Rightarrow> panic + (decided_leader \<times> certified_commit) list \<times> certified_commit list" where
  "try_select_certified_leaders c certified_commits limit =
     rbind (rassert (limit > 0) CertifiedLimitZero) (\<lambda>_.
     rbind (rmap (certified_leader c) (take limit certified_commits)) (\<lambda>selected.
     Inr (selected, drop limit certified_commits)))"

definition sequence_local ::
  "crypto \<Rightarrow> (commit \<Rightarrow> bytes option) \<Rightarrow> verified_block list \<Rightarrow> bool \<Rightarrow> core \<Rightarrow> panic + committed_sub_dag list \<times> core" where
  "sequence_local cr encode leaders local co =
     rbind (handle_committed_leaders cr encode leaders local (core_observer co) (core_dag co)) (\<lambda>(subs, ob, ds).
     Inr (subs, co\<lparr>core_observer := ob, core_dag := ds\<rparr>))"

definition sequence_certified ::
  "crypto \<Rightarrow> (commit \<Rightarrow> bytes option) \<Rightarrow> nat \<Rightarrow> verified_block \<times> certified_commit
     \<Rightarrow> committed_sub_dag list \<times> core \<Rightarrow> panic + committed_sub_dag list \<times> core" where
  "sequence_certified cr encode now = (\<lambda>(leader, commit) (subs, co).
     rbind (accept_committed_blocks now (certified_blocks commit) co) (\<lambda>(_, co).
     rbind (sequence_local cr encode [leader] False co) (\<lambda>(new, co).
     Inr (subs @ new, co))))"

definition unsuspend_for_gc :: "nat \<Rightarrow> core \<Rightarrow> panic + core" where
  "unsuspend_for_gc now co =
     rbind (try_unsuspend_blocks_for_latest_gc_round now (core_dag co) (core_manager co)) (\<lambda>(ds, bm).
     Inr (co\<lparr>core_dag := ds, core_manager := bm\<rparr>))"

text \<open>One round of the loop of \<open>try_commit\<close>; without sub-dags the loop is left.\<close>

definition commit_iteration ::
  "rng \<Rightarrow> crypto \<Rightarrow> (commit \<Rightarrow> bytes option) \<Rightarrow> nat \<Rightarrow> certified_commit list \<Rightarrow> core
     \<Rightarrow> (committed_sub_dag list option \<times> certified_commit list \<times> core) run" where
  "commit_iteration g cr encode now certified_commits co =
     run_bind (Some (refresh_schedule g co)) (\<lambda>(commits_until_update, co).
     run_bind (Some (try_select_certified_leaders (ds_committee (core_dag co)) certified_commits commits_until_update))
       (\<lambda>(selected, certified_commits).
     run_bind (if selected = []
               then run_bind (universal_try_decide g (core_schedule co) (core_committers co) (core_dag co)
                      (last_decided_leader co)) (\<lambda>decided. run_return (take commits_until_update decided))
               else run_return (map fst selected)) (\<lambda>decided_leaders.
     if decided_leaders = [] then run_return (None, certified_commits, co)
     else
       let co = co\<lparr>last_decided_leader := decided_leader_slot (last decided_leaders)\<rparr>;
           sequenced_leaders = List.map_filter into_committed_block decided_leaders
       in
       if sequenced_leaders = [] then run_return (None, certified_commits, co)
       else
         run_bind (Some (if selected = [] then sequence_local cr encode sequenced_leaders True co
                         else rbind (rassert (length sequenced_leaders = length selected) UnexpectedState) (\<lambda>_.
                              rfold (sequence_certified cr encode now) (zip sequenced_leaders (map snd selected)) ([], co))))
           (\<lambda>(subs, co).
         run_bind (Some (unsuspend_for_gc now co)) (\<lambda>co.
         run_return (Some subs, certified_commits, co))))))"

partial_function (option) try_commit_loop ::
  "rng \<Rightarrow> crypto \<Rightarrow> (commit \<Rightarrow> bytes option) \<Rightarrow> nat \<Rightarrow> certified_commit list \<Rightarrow> committed_sub_dag list \<Rightarrow> core
     \<Rightarrow> (committed_sub_dag list \<times> core) run" where
  "try_commit_loop g cr encode now certified_commits committed_sub_dags co =
     run_bind (commit_iteration g cr encode now certified_commits co) (\<lambda>(res, certified_commits, co).
     case res of
       None \<Rightarrow> run_return (committed_sub_dags, co)
     | Some subs \<Rightarrow> try_commit_loop g cr encode now certified_commits (committed_sub_dags @ subs) co)"

text \<open>A commit that was certified must be the one that is made.\<close>

definition check_certified :: "committed_sub_dag \<Rightarrow> (commit_index, commit_ref) fmap \<Rightarrow> panic + (commit_index, commit_ref) fmap" where
  "check_certified sub refs =
    (let i = cr_index (csd_commit_ref sub) in
     case fmlookup refs i of
       None \<Rightarrow> Inr refs
     | Some r \<Rightarrow> rbind (rassert (r = csd_commit_ref sub) CertifiedRefMismatch) (\<lambda>_. Inr (fmdrop i refs)))"

definition try_commit ::
  "rng \<Rightarrow> crypto \<Rightarrow> (commit \<Rightarrow> bytes option) \<Rightarrow> nat \<Rightarrow> certified_commit list \<Rightarrow> core
     \<Rightarrow> (committed_sub_dag list \<times> core) run" where
  "try_commit g cr encode now certified_commits co =
    (let refs = fmap_of_list (map (\<lambda>c. (commit_idx (trusted_inner (certified_inner c)), commit_reference (certified_inner c)))
                  (rev certified_commits)) in
     run_bind (try_commit_loop g cr encode now certified_commits [] co) (\<lambda>(subs, co).
     run_bind (Some (rfold check_certified subs refs)) (\<lambda>_.
     run_return (subs, co))))"

definition try_commit_local ::
  "rng \<Rightarrow> crypto \<Rightarrow> (commit \<Rightarrow> bytes option) \<Rightarrow> nat \<Rightarrow> core \<Rightarrow> (committed_sub_dag list \<times> core) run" where
  "try_commit_local g cr encode now co =
    (if enable_v3 (ds_config (core_dag co)) then Some (Inl V3PathNotModelled)
     else try_commit g cr encode now [] co)"

subsection \<open>What the core is asked to do\<close>

definition add_blocks ::
  "rng \<Rightarrow> crypto \<Rightarrow> (commit \<Rightarrow> bytes option) \<Rightarrow> nat \<Rightarrow> verified_block list \<Rightarrow> core \<Rightarrow> (block_ref fset \<times> core) run" where
  "add_blocks g cr encode now blocks co =
     run_bind (Some (core_accept_blocks now blocks co)) (\<lambda>(accepted, missing, co).
     if accepted = [] then run_return (missing, co)
     else
       run_bind (try_commit_local g cr encode now co) (\<lambda>(_, co).
       run_return (missing, try_signal_new_round co)))"

text \<open>The commits that are not made yet; a gap before the first is an error.\<close>

definition filter_new_commits :: "certified_commit list \<Rightarrow> core \<Rightarrow> consensus_error + certified_commit list" where
  "filter_new_commits commits co =
    (let last_index = last_commit_index (core_dag co);
         commits = filter (\<lambda>c. last_index < commit_idx (trusted_inner (certified_inner c))) commits
     in
     case commits of
       [] \<Rightarrow> Inr []
     | c # _ \<Rightarrow>
         let i = commit_idx (trusted_inner (certified_inner c)) in
         if i \<noteq> wrap32 (last_index + 1) then Inl (UnexpectedCertifiedCommitIndex (wrap32 (last_index + 1)) i)
         else Inr commits)"

definition add_certified_commits ::
  "rng \<Rightarrow> crypto \<Rightarrow> (commit \<Rightarrow> bytes option) \<Rightarrow> nat \<Rightarrow> certified_commits \<Rightarrow> core \<Rightarrow> (block_ref fset \<times> core) run" where
  "add_certified_commits g cr encode now certified co =
    (case filter_new_commits (cc_commits certified) co of
       Inl _ \<Rightarrow> Some (Inl CertifiedCommitsInvalid)
     | Inr commits \<Rightarrow>
         run_bind (Some (core_accept_blocks now (cc_votes certified) co)) (\<lambda>(_, missing, co).
         run_bind (if enable_v3 (ds_config (core_dag co)) then Some (Inl V3PathNotModelled)
                   else try_commit g cr encode now commits co) (\<lambda>(_, co).
         run_return (missing, try_signal_new_round co))))"

definition get_missing_blocks :: "core \<Rightarrow> block_ref fset" where
  "get_missing_blocks co = missing_blocks (core_manager co)"

definition current_reputation_scores :: "core \<Rightarrow> reputation_scores" where
  "current_reputation_scores co = table_scores (leader_table (core_schedule co))"

subsection \<open>Starting an observer\<close>

definition recover_observer ::
  "rng \<Rightarrow> crypto \<Rightarrow> (commit \<Rightarrow> bytes option) \<Rightarrow> nat \<Rightarrow> core \<Rightarrow> core run" where
  "recover_observer g cr encode now co =
     run_bind (try_commit_local g cr encode now co) (\<lambda>(_, co).
     run_return (try_signal_new_round co))"

definition observer_core ::
  "leader_schedule \<Rightarrow> block_manager \<Rightarrow> commit_observer \<Rightarrow> signals \<Rightarrow> dag_state \<Rightarrow> panic + core" where
  "observer_core sch bm ob sig ds =
     rbind (last_commit_leader ds) (\<lambda>last_decided.
     let n = (case num_leaders_per_round (ds_config ds) of Some n \<Rightarrow> n | None \<Rightarrow> 1) in
     Inr \<lparr>core_manager = bm, core_dag = ds,
          core_committers = universal_build (with_pipeline True (with_number_of_leaders n builder_new)),
          core_schedule = sch, core_observer = ob, core_signals = sig,
          last_signaled_round = tc_round (ds_threshold_clock ds), last_decided_leader = last_decided\<rparr>)"

definition new_observer ::
  "rng \<Rightarrow> crypto \<Rightarrow> (commit \<Rightarrow> bytes option) \<Rightarrow> nat \<Rightarrow> leader_schedule \<Rightarrow> block_manager \<Rightarrow> commit_observer
     \<Rightarrow> signals \<Rightarrow> dag_state \<Rightarrow> core run" where
  "new_observer g cr encode now sch bm ob sig ds =
     run_bind (Some (observer_core sch bm ob sig ds)) (recover_observer g cr encode now)"

end
