(* ===== verification/Node_Agreement.thy ===== *)
theory Node_Agreement
  imports Block_Manager_Correct Universal_Committer_Correct
begin

section \<open>Agreement of two nodes\<close>

text \<open>
  The composition of the block manager, the DAG state and the commit rule: what two nodes decide from
  the blocks they receive.
\<close>

subsection \<open>From received blocks to agreement\<close>

text \<open>
  A node at the start of an epoch: only genesis blocks are known and nothing is committed. The stake
  of all blocks of a round, equivocations included, fits 64 bits.
\<close>

definition fresh_node ::
  "committee \<Rightarrow> authority_index set \<Rightarrow> (block_ref \<Rightarrow> verified_block option) \<Rightarrow> dag_state \<Rightarrow> bool" where
  "fresh_node c byz U ds \<longleftrightarrow> receiving c byz U ds \<and> (\<forall>r. 0 < br_round r \<longrightarrow> get_block ds r = None)
     \<and> last_commit ds = None \<and> highest_accepted_round ds = 0"

definition bounded_rounds :: "committee \<Rightarrow> (block_ref \<Rightarrow> verified_block option) \<Rightarrow> bool" where
  "bounded_rounds c U \<longleftrightarrow> (\<forall>r. U r \<noteq> None \<longrightarrow> br_round r + 1 < 2 ^ 32)
     \<and> (\<forall>R refs. finite refs \<longrightarrow> (\<forall>r \<in> refs. U r \<noteq> None \<and> br_round r = R) \<longrightarrow> (\<Sum>r \<in> refs. stk c (br_author r)) \<le> u64_max)"

lemma accepts_closed:
  assumes "receiving c byz U ds" "accepts c byz U inputs ds bm acc ds' bm'"
    and "\<And>r b a. get_block ds r = Some b \<Longrightarrow> a \<in> set (vb_ancestors b) \<Longrightarrow> gc_round ds < br_round a \<Longrightarrow> get_block ds a \<noteq> None"
    and "get_block ds' r = Some b" "a \<in> set (vb_ancestors b)" "gc_round ds' < br_round a"
  shows "get_block ds' a \<noteq> None"
proof -
  note A = acceptsD [OF assms(2)]
  have "a \<in> dom (get_block ds')"
  proof (cases "r \<in> reference ` set acc")
    case True
    then obtain x where x: "x \<in> set acc" "r = reference x" by auto
    then have "x = b" using A(4) [of r] A(6) [OF x(1)] assms(4) by auto
    then have "a \<in> dom (get_block ds) \<union> reference ` set acc"
      using causal_closed [OF A(8) x(1)] assms(5,6) A(12) by simp
    then show ?thesis using accepts_dom [OF assms(2)] by simp
  next
    case False
    then have "get_block ds r = Some b" using A(4) [of r] assms(4) by simp
    then have "a \<in> dom (get_block ds)" using assms(3,5,6) A(12) by auto
    then show ?thesis using accepts_dom [OF assms(2)] by simp
  qed
  then show ?thesis by auto
qed

lemma round_stake_bound:
  assumes "dag_inv ds" "ds_committee ds = c" "\<And>r b. get_block ds r = Some b \<Longrightarrow> U r = Some b" "bounded_rounds c U"
  shows "(\<Sum>b \<leftarrow> map (\<lambda>(_, bi). bi_block bi) (fmap_range (\<lambda>k. br_round k = r) (recent_blocks ds)).
      stk (ds_committee ds) (vb_author b)) \<le> u64_max"
proof -
  let ?L = "fmap_range (\<lambda>k. br_round k = r) (recent_blocks ds)"
  have e: "reference (bi_block bi) = k \<and> U k \<noteq> None \<and> br_round k = r" if "(k, bi) \<in> set ?L" for k bi
  proof -
    have k: "cached_block ds k = Some (bi_block bi)" "br_round k = r" using that by (auto simp: cached_block_def)
    show ?thesis using cached_known [OF assms(1) k(1)] k(2) assms(3) by auto
  qed
  have "vb_author (bi_block bi) = br_author k" if "(k, bi) \<in> set ?L" for k bi
    using conjunct1 [OF e [OF that]] by auto
  then have "(\<Sum>b \<leftarrow> map (\<lambda>(_, bi). bi_block bi) ?L. stk c (vb_author b)) = (\<Sum>k \<leftarrow> map fst ?L. stk c (br_author k))"
    unfolding map_map by (intro arg_cong [of _ _ sum_list] map_cong) auto
  also have "\<dots> = (\<Sum>k \<in> set (map fst ?L). stk c (br_author k))"
    by (rule sum_list_distinct_conv_sum_set) (use fmap_range_sorted [unfolded strict_sorted_iff] in blast)
  also have "\<dots> \<le> u64_max"
  proof -
    have "\<forall>k \<in> set (map fst ?L). U k \<noteq> None \<and> br_round k = r" using e by fastforce
    then show ?thesis using assms(4) finite_set unfolding bounded_rounds_def by blast
  qed
  finally show ?thesis using assms(2) by simp
qed

lemma fresh_closed:
  assumes "fresh_node c byz U ds" "get_block ds r = Some b"
  shows "vb_ancestors b = []"
proof -
  have R: "block_universe c byz U" "U r = Some b"
    using assms receivingD(1,6) [of c byz U ds] unfolding fresh_node_def by auto
  have "br_round r = 0" using assms unfolding fresh_node_def by (metis option.distinct(1) neq0_conv)
  then show ?thesis by (rule universeD(5) [OF R])
qed

lemma received_view:
  assumes "fresh_node c byz U ds" "bounded_rounds c U" "\<forall>b \<in> received batches. U (reference b) = Some b \<and> 0 < vb_round b"
    and "num_leaders_per_round (ds_config ds) = Some 1" "slot_round last_decided = 0"
  shows "\<exists>ds' bm'. accept_batches batches ds (block_manager_new (ds_context ds)) = Inr (ds', bm')
    \<and> can_decide c byz U ds' last_decided \<and> ds_config ds' = ds_config ds"
proof -
  have R: "receiving c byz U ds" and F: "\<And>r. 0 < br_round r \<Longrightarrow> get_block ds r = None" "last_commit ds = None"
    "highest_accepted_round ds = 0"
    using assms(1) by (auto simp: fresh_node_def)
  obtain acc ds' bm' where a: "accept_batches batches ds (block_manager_new (ds_context ds)) = Inr (ds', bm')"
    "accepts c byz U (received batches) ds (block_manager_new (ds_context ds)) acc ds' bm'"
    using accept_batches_ok [OF manager_new [OF R] assms(3)] by blast
  note A = acceptsD [OF a(2)] and R' = receivingD [OF managingD(1) [OF acceptsD(1) [OF a(2)]]]
  have fr: "last_commit ds' = None" "ds_store ds' = ds_store ds"
    using A(3) F(2) by (auto simp: same_frame_def)
  have gc: "gc_round ds' = 0" "last_commit_round ds' = 0"
    using fr by (simp_all add: gc_round_def calculate_gc_round_def last_commit_round_def)
  have store: "read_block (ds_store ds') r = None" if "0 < br_round r" for r
    using F(1) [OF that] that unfolding fr(2) by (auto simp: get_block_eq split: option.splits)
  have "view_of U ds'"
    unfolding view_of_def
  proof (intro conjI allI impI)
    fix r b x assume "get_block ds' r = Some b" "x \<in> set (vb_ancestors b)" "gc_round ds' < br_round x"
    then show "get_block ds' x \<noteq> None"
      using accepts_closed [OF R a(2)] fresh_closed [OF assms(1)] by auto
  next
    fix r b assume "get_block ds' r = Some b" "gc_round ds' < br_round r"
    then show "cached_block ds' r = Some b" using store [of r] gc(1) by (auto simp: get_block_eq split: option.splits)
  next
    fix r
    show "(\<Sum>b \<leftarrow> map (\<lambda>(_, bi). bi_block bi) (fmap_range (\<lambda>k. br_round k = r) (recent_blocks ds')).
      stk (ds_committee ds') (vb_author b)) \<le> u64_max"
      by (rule round_stake_bound [OF R'(2,3) R'(6) assms(2)])
  qed (use R' in auto)
  moreover have "highest_accepted_round ds' + 1 < 2 ^ 32"
  proof -
    have "\<forall>r. U r \<noteq> None \<longrightarrow> br_round r \<le> 2 ^ 32 - 2"
    proof (intro allI impI)
      fix r assume "U r \<noteq> None"
      then have "br_round r + 1 < 2 ^ 32" using assms(2) unfolding bounded_rounds_def by blast
      then show "br_round r \<le> 2 ^ 32 - 2" by linarith
    qed
    moreover have "highest_accepted_round ds \<le> 2 ^ 32 - 2" using F(3) by simp
    ultimately have "highest_accepted_round ds' \<le> 2 ^ 32 - 2"
      using A(3) unfolding same_frame_def by blast
    then show ?thesis by simp
  qed
  moreover have "first_round_to_decide (ds_config ds') last_decided = 1"
    using assms(4,5) A(2) by (simp add: first_round_to_decide_def)
  ultimately have "can_decide c byz U ds' last_decided"
    using R'(1,3) gc assms(5) by (simp add: can_decide_def)
  moreover have "ds_config ds' = ds_config ds" using A(2) by simp
  ultimately show ?thesis using a(1) by blast
qed

text \<open>
  Two correct nodes that start an epoch and receive verified blocks in whatever batches and order,
  some of them perhaps never, build DAGs from which they decide leaders without panic, and the
  sequence of committed and skipped leaders of one is a prefix of that of the other. This composes
  the block manager, the DAG state and the commit rule.
\<close>

theorem fresh_nodes_agree:
  assumes "fresh_node c byz U ds1" "fresh_node c byz U ds2" "bounded_rounds c U"
    and "\<forall>b \<in> received batches1 \<union> received batches2. U (reference b) = Some b \<and> 0 < vb_round b"
    and "ds_config ds1 = ds_config ds2" "num_leaders_per_round (ds_config ds1) = Some 1" "slot_round last_decided = 0"
    and "valid_election g sch committers c" "committers = universal_build b" "builder_wave_length b = default_wave_length"
  shows "\<exists>ds1' bm1 ds2' bm2 l1 l2.
      accept_batches batches1 ds1 (block_manager_new (ds_context ds1)) = Inr (ds1', bm1)
    \<and> accept_batches batches2 ds2 (block_manager_new (ds_context ds2)) = Inr (ds2', bm2)
    \<and> universal_try_decide g sch committers ds1' last_decided = Some (Inr l1)
    \<and> universal_try_decide g sch committers ds2' last_decided = Some (Inr l2)
    \<and> (prefix (map outcome l1) (map outcome l2) \<or> prefix (map outcome l2) (map outcome l1))"
proof -
  obtain ds1' bm1 where 1: "accept_batches batches1 ds1 (block_manager_new (ds_context ds1)) = Inr (ds1', bm1)"
    "can_decide c byz U ds1' last_decided" "ds_config ds1' = ds_config ds1"
    using received_view [OF assms(1,3) _ assms(6,7), of batches1] assms(4) by auto
  have l: "num_leaders_per_round (ds_config ds2) = Some 1" using assms(5,6) by simp
  obtain ds2' bm2 where 2: "accept_batches batches2 ds2 (block_manager_new (ds_context ds2)) = Inr (ds2', bm2)"
    "can_decide c byz U ds2' last_decided" "ds_config ds2' = ds_config ds2"
    using received_view [OF assms(2,3) _ l assms(7), of batches2] assms(4) by auto
  have cfg: "ds_config ds1' = ds_config ds2'" using 1(3) 2(3) assms(5) by simp
  from decisions_prefix [OF 1(2) 2(2) cfg assms(8-10)] show ?thesis
    using 1(1) 2(1) by blast
qed

subsection \<open>Example\<close>

lemma demo_fresh: "fresh_node demo_committee {} (get_block (demo_rounds n)) demo_dag"
  using demo_receiving [of 0 n] demo_rounds_simps(5) [of 0] by (simp add: fresh_node_def demo_dag_get demo_ref_def)

lemma demo_bounded:
  assumes "n < 1000"
  shows "bounded_rounds demo_committee (get_block (demo_rounds n))"
proof -
  have ref: "br_author r \<in> {..<4} \<and> br_digest r = 0 \<and> br_round r \<le> n" if "get_block (demo_rounds n) r \<noteq> None" for r
    using that by (auto simp: demo_rounds_get demo_ref_def split: if_splits)
  have "(\<Sum>r \<in> refs. stk demo_committee (br_author r)) \<le> u64_max"
    if f: "finite refs" "\<forall>r \<in> refs. get_block (demo_rounds n) r \<noteq> None \<and> br_round r = R" for R refs
  proof -
    have "inj_on br_author refs"
      using ref f(2) by (intro inj_onI block_ref.expand) auto
    then have "(\<Sum>r \<in> refs. stk demo_committee (br_author r)) = sum (stk demo_committee) (br_author ` refs)"
      by (simp add: sum.reindex)
    also have "\<dots> \<le> sum (stk demo_committee) {..<4}" using ref f(2) by (intro sum_mono2) auto
    also have "\<dots> \<le> u64_max" by (simp add: lessThan_nat_numeral lessThan_Suc u64_max_def stk_def demo_committee_def demo_authority_def)
    finally show ?thesis .
  qed
  moreover have "br_round r + 1 < 2 ^ 32" if "get_block (demo_rounds n) r \<noteq> None" for r
    using ref [OF that] assms by auto
  ultimately show ?thesis unfolding bounded_rounds_def by blast
qed

theorem fresh_nodes_agree_witness:
  "\<exists>ds1 bm1 ds2 bm2 l1 l2.
      accept_batches [(7, [demo_block 2 1]), (8, [demo_block 1 2, demo_block 1 1, demo_block 1 3])] demo_dag
        (block_manager_new demo_context) = Inr (ds1, bm1)
    \<and> accept_batches [(7, [demo_block 1 1, demo_block 1 2, demo_block 1 3])] demo_dag (block_manager_new demo_context) = Inr (ds2, bm2)
    \<and> universal_try_decide demo_rng demo_schedule (universal_build (with_pipeline True builder_new)) ds1 (Slot 0 0) = Some (Inr l1)
    \<and> universal_try_decide demo_rng demo_schedule (universal_build (with_pipeline True builder_new)) ds2 (Slot 0 0) = Some (Inr l2)
    \<and> (prefix (map outcome l1) (map outcome l2) \<or> prefix (map outcome l2) (map outcome l1))"
proof -
  have c: "ds_context demo_dag = demo_context" using demo_rounds_simps(1) [of 0] by simp
  have "\<forall>b \<in> received [(7, [demo_block 2 1]), (8, [demo_block 1 2, demo_block 1 1, demo_block 1 3])]
      \<union> received [(7, [demo_block 1 1, demo_block 1 2, demo_block 1 3])].
      get_block (demo_rounds 2) (reference b) = Some b \<and> 0 < vb_round b"
    by (auto simp: received_def demo_rounds_get demo_ref_def)
  from fresh_nodes_agree [OF demo_fresh demo_fresh demo_bounded this refl _ _ demo_election refl, of "Slot 0 0"]
  show ?thesis unfolding c
    by (simp add: protocol_config_for_testing_def with_pipeline_def builder_new_def)
qed

end
