(* ===== verification/Commit_Log.thy ===== *)
theory Commit_Log
  imports Core Node_Agreement Linearizer_Correct
begin

section \<open>The log of commits\<close>

text \<open>
  The abstract specification of what the nodes of an epoch agree on: a log whose next step is
  determined by the log alone, although nodes see different parts of the blocks. A step changes the
  leader schedule when it is due, and otherwise skips or commits the leader of the next round. The
  theory restarts the commit rule after each decision, shows that nodes with the same log decide and
  linearise the same, that scores and swap tables never panic along the log, and that steps are
  deterministic.
\<close>

subsection \<open>Deciding from a later slot\<close>

lemma elect_leader_cong:
  assumes "leader_table s1 = leader_table s2" "ctx_committee (schedule_context s1) = ctx_committee (schedule_context s2)"
  shows "elect_leader g s1 = elect_leader g s2"
  using assms by (intro ext) (simp add: elect_leader_def elect_leader_stake_based_def)

lemma try_decide_cong:
  assumes "elect_leader g s1 = elect_leader g s2"
  shows "universal_try_decide g s1 = universal_try_decide g s2"
proof -
  have "committer_elect_leader g s1 = committer_elect_leader g s2"
    using assms by (intro ext) (simp add: committer_elect_leader_def)
  then have "try_decide_step g s1 = try_decide_step g s2"
    by (intro ext) (simp add: try_decide_step_def)
  then show ?thesis by (intro ext) (simp add: universal_try_decide_def)
qed

lemma decisions_unique: "decisions ds vs xs \<Longrightarrow> decisions ds vs ys \<Longrightarrow> xs = ys"
proof (induction arbitrary: ys rule: decisions.induct)
  case (decisions_Cons vs xs opts s x)
  from decisions_Cons.prems obtain y ys' where y: "ys = y # ys'" "decisions ds vs ys'"
    "decide_slot ds opts s (map fst ys') = run_return y"
    by (auto elim: decisions_ConsE)
  have "xs = ys'" by (rule decisions_Cons.IH [OF y(2)])
  then show ?case using y decisions_Cons.hyps(2) by (simp add: run_return_def)
qed (auto elim: decisions_NilE)

text \<open>The committers of a pipeline with one leader in a round.\<close>

definition single_leader :: universal_committer_builder where
  "single_leader = with_pipeline True (with_number_of_leaders 1 builder_new)"

lemma single_leader_simps [simp]:
  "builder_wave_length single_leader = 3" "number_of_leaders single_leader = 1" "pipeline single_leader = True"
  by (simp_all add: single_leader_def with_pipeline_def with_number_of_leaders_def builder_new_def
    default_wave_length_def minimum_wave_length_def)

abbreviation stage :: "nat \<Rightarrow> base_committer_options" where
  "stage ro \<equiv> \<lparr>wave_length = 3, leader_offset = 0, round_offset = ro\<rparr>"

lemma single_leader_build: "universal_build single_leader = [stage 0, stage 1, stage 2]"
  by (simp add: universal_build_def Let_def numeral_3_eq_3 numeral_2_eq_2)

lemma single_leader_elects:
  assumes "ro < 3" "r + 3 < 2 ^ 32"
  shows "committer_elect_leader g sch (stage ro) r =
    (if r mod 3 = ro then rbind (elect_leader g sch r 0) (\<lambda>a. Inr (Some (Slot r a))) else Inr None)"
  using wave_round(1) [of "stage ro" r] assms by (simp add: committer_elect_leader_def)

definition visits :: "rng \<Rightarrow> leader_schedule \<Rightarrow> round_number \<Rightarrow> round_number \<Rightarrow> (base_committer_options \<times> slot) list" where
  "visits g sch i j = map (\<lambda>r. (stage (r mod 3), Slot r (projr (elect_leader g sch r 0)))) [i..<j]"

lemma visited_visits:
  assumes "\<forall>r. is_ok (elect_leader g sch r 0)" "j + 2 < 2 ^ 32" "slot_round last_decided < i"
  shows "rev (visited_slots g sch last_decided (committer_pairs (universal_build single_leader) (rev [i..<j]))) = visits g sch i j"
  using assms(2,3)
proof (induction "j - i" arbitrary: i)
  case 0
  then show ?case by (simp add: visits_def committer_pairs_def)
next
  case (Suc n)
  have ij: "i < j" using Suc.hyps(2) by simp
  let ?P = "\<lambda>rs. committer_pairs (universal_build single_leader) rs"
  have up: "rev [i..<j] = rev [Suc i..<j] @ [i]" using ij by (simp add: upt_conv_Cons)
  have el: "committer_elect_leader g sch opts r \<noteq> Inr (Some last_decided)"
    if "(r, opts) \<in> set (?P (rev [Suc i..<j]))" for r opts
    using that Suc.prems(2) elected_slot(1) by fastforce
  have "visited_slots g sch last_decided (?P (rev [i..<j])) =
      visited_slots g sch last_decided (?P (rev [Suc i..<j])) @ visited_slots g sch last_decided (?P [i])"
    unfolding up committer_pairs_append by (rule visited_append [OF el])
  moreover have "visited_slots g sch last_decided (?P [i]) = [(stage (i mod 3), Slot i (projr (elect_leader g sch i 0)))]"
  proof -
    obtain a where a: "elect_leader g sch i 0 = Inr a" using assms(1) by (metis is_ok_iff)
    have ne: "Slot i a \<noteq> last_decided" using Suc.prems(2) by auto
    have e: "committer_elect_leader g sch (stage ro) i = (if i mod 3 = ro then Inr (Some (Slot i a)) else Inr None)" if "ro < 3" for ro
      using single_leader_elects [OF that, of i g sch] a ij Suc.prems(1) by simp
    consider "i mod 3 = 0" | "i mod 3 = 1" | "i mod 3 = 2" by linarith
    then show ?thesis
      using a ne e [of 0] e [of 1] e [of 2]
      by cases (simp_all add: committer_pairs_def single_leader_build)
  qed
  moreover have "rev (visited_slots g sch last_decided (?P (rev [Suc i..<j]))) = visits g sch (Suc i) j"
    using Suc.hyps by (intro Suc.hyps(1)) (use Suc.prems in auto)
  ultimately show ?case using ij by (simp add: visits_def upt_conv_Cons)
qed

abbreviation pipeline_committers :: "base_committer_options list" where
  "pipeline_committers \<equiv> universal_build single_leader"

lemma single_election_ok:
  assumes "valid_election g sch pipeline_committers c"
  shows "is_ok (elect_leader g sch r 0)"
proof -
  have "stage 0 \<in> set pipeline_committers" by (simp add: single_leader_build)
  then have "\<exists>a. elect_leader g sch r (leader_offset (stage 0)) = Inr a"
    using assms unfolding valid_election_def by blast
  then show ?thesis by auto
qed

lemma try_decide_single:
  assumes "can_decide c byz U ds last_decided" "valid_election g sch pipeline_committers c"
    and "num_leaders_per_round (ds_config ds) = Some 1"
  shows "\<exists>xs l. universal_try_decide g sch pipeline_committers ds last_decided = run_return l
    \<and> decisions ds (visits g sch (slot_round last_decided + 1) (Suc (highest_accepted_round ds - 2))) xs
    \<and> decidable_slots c byz U ds (visits g sch (slot_round last_decided + 1) (Suc (highest_accepted_round ds - 2)))
    \<and> map outcome l = map status_outcome (takeWhile is_decided (map fst xs))"
proof -
  let ?j = "Suc (highest_accepted_round ds - 2)"
  have b: "slot_round last_decided + 1 < 2 ^ 32" "highest_accepted_round ds + 1 < 2 ^ 32"
    using assms(1) by (auto simp: can_decide_def Let_def)
  have F: "first_round_to_decide (ds_config ds) last_decided = slot_round last_decided + 1"
    using b(1) assms(3) by (simp add: first_round_to_decide_def)
  have "rev (visited_slots g sch last_decided (committer_pairs pipeline_committers
      (rev [first_round_to_decide (ds_config ds) last_decided..<?j]))) = visits g sch (slot_round last_decided + 1) ?j"
    unfolding F by (rule visited_visits) (use single_election_ok [OF assms(2)] b(2) in auto)
  from try_decide_run [OF assms(1,2) refl single_leader_simps(1) this [symmetric]] show ?thesis .
qed

lemma visits_Cons:
  "i < j \<Longrightarrow> visits g sch i j = (stage (i mod 3), Slot i (projr (elect_leader g sch i 0))) # visits g sch (Suc i) j"
  by (simp add: visits_def upt_conv_Cons)

lemma can_decide_later:
  assumes "can_decide c byz U ds last_decided" "num_leaders_per_round (ds_config ds) = Some 1"
    and "slot_round last_decided \<le> slot_round s" "slot_round s + 1 < 2 ^ 32"
  shows "can_decide c byz U ds s"
  using assms by (simp add: can_decide_def Let_def first_round_to_decide_def)

lemma try_decide_restart:
  assumes "can_decide c byz U ds last_decided" "valid_election g sch pipeline_committers c"
    and "num_leaders_per_round (ds_config ds) = Some 1"
    and "universal_try_decide g sch pipeline_committers ds last_decided = run_return (d # l)"
  shows "slot_round (fst (outcome d)) = slot_round last_decided + 1"
    and "can_decide c byz U ds (fst (outcome d))"
    and "\<exists>l'. universal_try_decide g sch pipeline_committers ds (fst (outcome d)) = run_return l'
      \<and> map outcome l' = map outcome l"
    and "\<And>L. snd (outcome d) = Some L \<Longrightarrow> get_block ds (reference L) = Some L \<and> slot_of_ref (reference L) = fst (outcome d)"
proof -
  let ?i = "slot_round last_decided + 1" and ?j = "Suc (highest_accepted_round ds - 2)"
  obtain xs where xs: "decisions ds (visits g sch ?i ?j) xs" "decidable_slots c byz U ds (visits g sch ?i ?j)"
    "outcome d # map outcome l = map status_outcome (takeWhile is_decided (map fst xs))"
    using try_decide_single [OF assms(1-3)] assms(4) by (auto simp: run_return_def)
  then obtain x xs' where x: "xs = x # xs'" "is_decided (fst x)" "outcome d = status_outcome (fst x)"
    "map outcome l = map status_outcome (takeWhile is_decided (map fst xs'))"
    by (cases xs) (auto split: if_splits)
  have ij: "?i < ?j"
  proof (rule ccontr)
    assume "\<not> ?i < ?j"
    then have "visits g sch ?i ?j = []" by (simp add: visits_def)
    then show False using xs(1) x(1) by (auto elim: decisions_NilE)
  qed
  note v = visits_Cons [OF ij, of g sch]
  have ds': "decisions ds (visits g sch (Suc ?i) ?j) xs'"
    using xs(1) unfolding v x(1) by (auto elim: decisions_ConsE)
  have s: "fst (status_outcome (fst x)) = Slot ?i (projr (elect_leader g sch ?i 0))"
    using decisions_slots [OF xs(1,2)] unfolding v x(1) by simp
  then show r: "slot_round (fst (outcome d)) = slot_round last_decided + 1" using x(3) by simp
  have "highest_accepted_round ds + 1 < 2 ^ 32" using assms(1) by (auto simp: can_decide_def Let_def)
  then have "slot_round (fst (outcome d)) + 1 < 2 ^ 32" using ij r by linarith
  then show c: "can_decide c byz U ds (fst (outcome d))"
    by (intro can_decide_later [OF assms(1,3)]) (use r in simp_all)
  obtain ys l' where ys: "universal_try_decide g sch pipeline_committers ds (fst (outcome d)) = run_return l'"
    "decisions ds (visits g sch (Suc ?i) ?j) ys"
    "map outcome l' = map status_outcome (takeWhile is_decided (map fst ys))"
    using try_decide_single [OF c assms(2,3)] unfolding r by auto
  have "ys = xs'" by (rule decisions_unique [OF ys(2) ds'])
  then show "\<exists>l'. universal_try_decide g sch pipeline_committers ds (fst (outcome d)) = run_return l'
      \<and> map outcome l' = map outcome l"
    using ys x(4) by auto
  show "get_block ds (reference L) = Some L \<and> slot_of_ref (reference L) = fst (outcome d)" if "snd (outcome d) = Some L" for L
  proof -
    have "fst x = Commit L" using that x(2,3) by (cases "fst x") auto
    then show ?thesis using decisions_commits [OF xs(1,2), of L] x(1,3) by force
  qed
qed

text \<open>The sequence of outcomes, each the first that some node decides after the one before.\<close>

definition next_outcome ::
  "committee \<Rightarrow> authority_index set \<Rightarrow> (block_ref \<Rightarrow> verified_block option) \<Rightarrow> protocol_config \<Rightarrow> rng \<Rightarrow> leader_swap_table
     \<Rightarrow> slot \<Rightarrow> slot \<times> verified_block option \<Rightarrow> bool" where
  "next_outcome c byz U cfg g t last_decided x \<longleftrightarrow>
    (\<exists>ds sch d l. can_decide c byz U ds last_decided \<and> ds_config ds = cfg \<and> leader_table sch = t
       \<and> ctx_committee (schedule_context sch) = c
       \<and> universal_try_decide g sch pipeline_committers ds last_decided = run_return (d # l) \<and> outcome d = x)"

fun follows :: "(slot \<Rightarrow> slot \<times> 'a \<Rightarrow> bool) \<Rightarrow> slot \<Rightarrow> (slot \<times> 'a) list \<Rightarrow> bool" where
  "follows P s [] \<longleftrightarrow> True"
| "follows P s (x # xs) \<longleftrightarrow> P s x \<and> follows P (fst x) xs"

definition electable :: "rng \<Rightarrow> committee \<Rightarrow> leader_swap_table \<Rightarrow> bool" where
  "electable g c t \<longleftrightarrow> (\<forall>sch. leader_table sch = t \<and> ctx_committee (schedule_context sch) = c
     \<longrightarrow> valid_election g sch pipeline_committers c)"

lemma next_outcome_unique:
  assumes "next_outcome c byz U cfg g t s x" "next_outcome c byz U cfg g t s y" "electable g c t"
  shows "x = y"
proof -
  from assms(1) obtain ds1 s1 d1 l1 where 1: "can_decide c byz U ds1 s" "ds_config ds1 = cfg" "leader_table s1 = t"
    "ctx_committee (schedule_context s1) = c"
    "universal_try_decide g s1 pipeline_committers ds1 s = run_return (d1 # l1)" "outcome d1 = x"
    unfolding next_outcome_def by blast
  from assms(2) obtain ds2 s2 d2 l2 where 2: "can_decide c byz U ds2 s" "ds_config ds2 = cfg" "leader_table s2 = t"
    "ctx_committee (schedule_context s2) = c"
    "universal_try_decide g s2 pipeline_committers ds2 s = run_return (d2 # l2)" "outcome d2 = y"
    unfolding next_outcome_def by blast
  have "universal_try_decide g s1 = universal_try_decide g s2"
    by (rule try_decide_cong [OF elect_leader_cong]) (use 1(3,4) 2(3,4) in simp_all)
  then have u: "universal_try_decide g s1 pipeline_committers ds2 s = run_return (d2 # l2)" using 2(5) by simp
  have e: "valid_election g s1 pipeline_committers c" using assms(3) 1(3,4) unfolding electable_def by blast
  have "prefix (map outcome (d1 # l1)) (map outcome (d2 # l2)) \<or> prefix (map outcome (d2 # l2)) (map outcome (d1 # l1))"
    using decisions_prefix [OF 1(1) 2(1) _ e refl] 1(2,5) 2(2) u
    by (simp add: run_return_def default_wave_length_def minimum_wave_length_def)
  then show ?thesis using 1(6) 2(6) by auto
qed

lemma decided_follow:
  assumes "can_decide c byz U ds s" "ds_config ds = cfg" "num_leaders_per_round cfg = Some 1" "leader_table sch = t"
    and "ctx_committee (schedule_context sch) = c" "electable g c t"
    and "universal_try_decide g sch pipeline_committers ds s = run_return l"
  shows "follows (\<lambda>s x. next_outcome c byz U cfg g t s x \<and> slot_round (fst x) = slot_round s + 1
      \<and> slot_round (fst x) + 1 < 2 ^ 32
      \<and> (\<forall>L. snd x = Some L \<longrightarrow> get_block ds (reference L) = Some L \<and> slot_of_ref (reference L) = fst x)) s (map outcome l)"
    (is "follows ?P s _")
proof -
  have e: "valid_election g sch pipeline_committers c" using assms(4-6) unfolding electable_def by blast
  have n: "num_leaders_per_round (ds_config ds) = Some 1" using assms(2,3) by simp
  have "follows ?P s xs" if "can_decide c byz U ds s" "universal_try_decide g sch pipeline_committers ds s = run_return l"
    "map outcome l = xs" for s l xs
    using that
  proof (induction xs arbitrary: s l)
    case (Cons x xs)
    from Cons.prems(3) obtain d l' where l: "l = d # l'" "outcome d = x" "map outcome l' = xs" by auto
    note R = try_decide_restart [OF Cons.prems(1) e n Cons.prems(2) [unfolded l(1)]]
    obtain l2 where l2: "universal_try_decide g sch pipeline_committers ds (fst x) = run_return l2" "map outcome l2 = xs"
      using R(3) l(2,3) by auto
    have "next_outcome c byz U cfg g t s x"
      unfolding next_outcome_def using Cons.prems(1,2) assms(2,4,5) l(1,2) by blast
    moreover have "slot_round (fst x) + 1 < 2 ^ 32" using R(2) l(2) by (auto simp: can_decide_def Let_def)
    ultimately show ?case using R(1,4) Cons.IH [OF _ l2] R(2) l(2) by simp
  qed simp
  then show ?thesis using assms(1,7) by blast
qed

subsection \<open>An epoch and the log of its commits\<close>

text \<open>
  What is common to the nodes of an epoch: the committee with its faulty members, the blocks ever
  verified, the protocol configuration, the parameters of the model, and the length of a leader
  schedule.
\<close>

record epoch =
  ep_committee :: committee
  ep_faulty :: "authority_index set"
  ep_blocks :: "block_ref \<Rightarrow> verified_block option"
  ep_config :: protocol_config
  ep_rng :: rng
  ep_crypto :: crypto
  ep_encode :: "commit \<Rightarrow> bytes option"
  ep_length :: nat

text \<open>
  The assumptions: faults stay below the threshold, rounds and stakes fit their types, one leader a
  round without v3, the encoder never fails, and no authority alone exceeds the stake that may be
  swapped, without which electing a leader may panic.
\<close>

definition epoch_ok :: "epoch \<Rightarrow> bool" where
  "epoch_ok e \<longleftrightarrow> block_universe (ep_committee e) (ep_faulty e) (ep_blocks e)
     \<and> bounded_rounds (ep_committee e) (ep_blocks e) \<and> rng_ok (ep_rng e) \<and> (\<forall>x. ep_encode e x \<noteq> None)
     \<and> num_leaders_per_round (ep_config e) = Some 1 \<and> 0 < gc_depth (ep_config e) \<and> \<not> enable_v3 (ep_config e)
     \<and> 0 < ep_length e \<and> bad_nodes_stake_threshold (ep_config e) \<le> 33
     \<and> bad_nodes_stake_threshold (ep_config e) * total_stake (ep_committee e) \<le> u64_max
     \<and> (\<forall>a \<in> members (ep_committee e). 100 * stk (ep_committee e) a
          \<le> bad_nodes_stake_threshold (ep_config e) * total_stake (ep_committee e))"

lemma epoch_okD:
  assumes "epoch_ok e"
  shows "block_universe (ep_committee e) (ep_faulty e) (ep_blocks e)" "bounded_rounds (ep_committee e) (ep_blocks e)"
    "rng_ok (ep_rng e)" "\<forall>x. ep_encode e x \<noteq> None" "num_leaders_per_round (ep_config e) = Some 1"
    "0 < gc_depth (ep_config e)" "\<not> enable_v3 (ep_config e)" "0 < ep_length e"
    "committee_wf (ep_committee e)" "\<And>r. ep_blocks e r \<noteq> None \<Longrightarrow> br_round r + 1 < 2 ^ 32"
proof -
  show 1: "block_universe (ep_committee e) (ep_faulty e) (ep_blocks e)" and 2: "bounded_rounds (ep_committee e) (ep_blocks e)"
    and "rng_ok (ep_rng e)" "\<forall>x. ep_encode e x \<noteq> None" "num_leaders_per_round (ep_config e) = Some 1"
    "0 < gc_depth (ep_config e)" "\<not> enable_v3 (ep_config e)" "0 < ep_length e"
    using assms unfolding epoch_ok_def by blast+
  show "committee_wf (ep_committee e)" using 1 unfolding block_universe_def by (elim conjE)
  show "\<And>r. ep_blocks e r \<noteq> None \<Longrightarrow> br_round r + 1 < 2 ^ 32"
    using 2 unfolding bounded_rounds_def by blast
qed

text \<open>The state that all nodes reach after the same decisions.\<close>

record commit_log =
  log_last :: slot
  log_table :: leader_swap_table
  log_commit :: "trusted_commit option"
  log_rounds :: "round_number list"
  log_committed :: "block_ref set"
  log_scoring :: scoring_subdag
  log_subs :: "committed_sub_dag list"

definition log_index :: "commit_log \<Rightarrow> commit_index" where
  "log_index st = (case log_commit st of Some c \<Rightarrow> commit_idx (trusted_inner c) | None \<Rightarrow> 0)"

definition log_round :: "commit_log \<Rightarrow> round_number" where
  "log_round st = (case log_commit st of Some c \<Rightarrow> br_round (commit_leader (trusted_inner c)) | None \<Rightarrow> 0)"

text \<open>Rounds grow along the log.\<close>

definition log_rounds_ok :: "epoch \<Rightarrow> commit_log \<Rightarrow> bool" where
  "log_rounds_ok e st \<longleftrightarrow> length (log_rounds st) = committee_size (ep_committee e)
     \<and> (\<forall>r \<in> log_committed st. br_round r \<le> slot_round (log_last st))
     \<and> log_index st \<le> slot_round (log_last st) \<and> log_round st \<le> slot_round (log_last st)"

text \<open>A node whose DAG is a part of the blocks of the epoch and has the commits of the log.\<close>

definition held :: "epoch \<Rightarrow> commit_log \<Rightarrow> dag_state \<Rightarrow> bool" where
  "held e st ds \<longleftrightarrow> view_of (ep_blocks e) ds \<and> ds_committee ds = ep_committee e \<and> ds_config ds = ep_config e
     \<and> last_commit ds = log_commit st \<and> last_committed_rounds ds = log_rounds st
     \<and> (\<forall>r. cached_block ds r \<noteq> None \<longrightarrow> (r \<in> uncommitted ds \<longleftrightarrow> r \<notin> log_committed st))
     \<and> (\<forall>r b a. ep_blocks e r = Some b \<longrightarrow> a \<in> set (vb_ancestors b) \<longrightarrow> br_round a = 0 \<longrightarrow> get_block ds a \<noteq> None)
     \<and> log_committed st \<subseteq> dom (get_block ds)"

lemma heldD:
  assumes "held e st ds"
  shows "view_of (ep_blocks e) ds" "ds_committee ds = ep_committee e" "ds_config ds = ep_config e"
    "last_commit ds = log_commit st" "last_committed_rounds ds = log_rounds st"
    "\<And>r. cached_block ds r \<noteq> None \<Longrightarrow> (r \<in> uncommitted ds \<longleftrightarrow> r \<notin> log_committed st)"
    "\<And>r b a. ep_blocks e r = Some b \<Longrightarrow> a \<in> set (vb_ancestors b) \<Longrightarrow> br_round a = 0 \<Longrightarrow> get_block ds a \<noteq> None"
    "last_commit_index ds = log_index st" "last_commit_round ds = log_round st"
    "gc_round ds = log_round st - gc_depth (ep_config e)" "log_committed st \<subseteq> dom (get_block ds)"
  using assms unfolding held_def
  by (auto simp: last_commit_index_def last_commit_round_def log_index_def log_round_def gc_round_def calculate_gc_round_def)

lemma view_known:
  assumes "view_of U ds" "cached_block ds r = Some b"
  shows "reference b = r" "0 < br_round r" "get_block ds r = Some b" "U r = Some b"
  using cached_known [OF viewD(1) [OF assms(1)] assms(2)] viewD(2) [OF assms(1)] by blast+

lemma held_traversable:
  assumes "epoch_ok e" "held e st ds"
  shows "traversable (gc_round ds) ds" "authors_valid ds"
proof -
  note E = epoch_okD [OF assms(1)] and H = heldD [OF assms(2)]
  have one: "distinct (vb_ancestors b) \<and> is_valid_index (ep_committee e) (vb_author b)
      \<and> (\<forall>a \<in> set (vb_ancestors b). is_valid_index (ep_committee e) (br_author a))"
    if "cached_block ds r = Some b" for r b
  proof -
    note k = view_known [OF H(1) that]
    have "linked_block (ep_committee e) b" by (rule universeD(4) [OF E(1) k(4,2)])
    then show ?thesis by (auto simp: linked_block_def distinct_map)
  qed
  have two: "cached_block ds a \<noteq> None" if b: "cached_block ds r = Some b" "a \<in> set (vb_ancestors b)" "gc_round ds < br_round a"
    for r b a
  proof -
    have "get_block ds a \<noteq> None" using H(1) view_known(3) [OF H(1) b(1)] b(2,3) unfolding view_of_def by blast
    then obtain x where "get_block ds a = Some x" by blast
    then show ?thesis using viewD(4) [OF H(1)] b(3) by blast
  qed
  show "traversable (gc_round ds) ds"
    unfolding traversable_def using one two view_known(1,2) [OF H(1)] by blast
  show "authors_valid ds" unfolding authors_valid_def H(2) using one by blast
qed

text \<open>A leader of the round after the last decided one can be committed.\<close>

lemma held_committable:
  assumes "epoch_ok e" "held e st ds" "log_rounds_ok e st" "get_block ds (reference L) = Some L"
    and "vb_round L = slot_round (log_last st) + 1"
  shows "committable ds L" "parents_above_gc ds L" "cached_block ds (reference L) = Some L"
    "last_commit_index ds < u32_max" "last_commit_round ds \<le> vb_round L"
proof -
  note E = epoch_okD [OF assms(1)] and H = heldD [OF assms(2)]
  have lr: "log_round st \<le> slot_round (log_last st)" "log_index st \<le> slot_round (log_last st)"
    using assms(3) by (simp_all add: log_rounds_ok_def)
  have gc: "gc_round ds < vb_round L" using lr assms(5) unfolding H(10) by linarith
  show above: "parents_above_gc ds L"
    using lr(1) assms(5) E(6) unfolding parents_above_gc_def H(10) by (cases "log_round st") auto
  show c: "cached_block ds (reference L) = Some L"
    using viewD(4) [OF H(1) assms(4)] gc by simp
  have u: "ep_blocks e (reference L) = Some L" by (rule viewD(2) [OF H(1) assms(4)])
  have lb: "linked_block (ep_committee e) L" using universeD(4) [OF E(1) u] assms(5) by simp
  have "vb_round L + 1 < 2 ^ 32" using E(10) [of "reference L"] u by simp
  then show "last_commit_index ds < u32_max" using lr(2) assms(5) unfolding H(8) u32_max_def by simp
  show "last_commit_round ds \<le> vb_round L" using lr(1) assms(5) unfolding H(9) by simp
  let ?ps = "filter (\<lambda>r. br_round r = vb_round L - 1) (vb_ancestors L)"
  have "\<exists>p. get_block ds r = Some p \<and> reference p = r" if "r \<in> set ?ps" for r
  proof -
    have r: "r \<in> set (vb_ancestors L)" "br_round r = vb_round L - 1" using that by auto
    have "get_block ds r \<noteq> None"
    proof (cases "vb_round L = 1")
      case True
      then show ?thesis using H(7) [OF u r(1)] r(2) by simp
    next
      case False
      then have "gc_round ds < br_round r" using above r(2) by (simp add: parents_above_gc_def)
      then show ?thesis using H(1) assms(4) r(1) unfolding view_of_def by blast
    qed
    then obtain p where "get_block ds r = Some p" by blast
    then show ?thesis using universeD(1) [OF E(1) viewD(2) [OF H(1)]] by blast
  qed
  moreover have "distinct (map br_author ?ps)" using lb by (simp add: linked_block_def distinct_map_filter)
  moreover have "br_author ` set ?ps = parent_authors (vb_round L) (vb_ancestors L)"
    using assms(5) by (auto simp: parent_authors_def)
  moreover have "reference L \<in> uncommitted ds"
  proof -
    have "reference L \<notin> log_committed st" using assms(3,5) by (auto simp: log_rounds_ok_def)
    then show ?thesis using H(6) [of "reference L"] c by simp
  qed
  ultimately show "committable ds L"
    using c gc lb unfolding committable_def Let_def H(2) linked_block_def by auto
qed

definition local_sub :: "committed_sub_dag \<Rightarrow> committed_sub_dag" where
  "local_sub sub = sub\<lparr>decided_with_local_blocks := True\<rparr>"

text \<open>The log after a leader is committed.\<close>

definition log_add :: "slot \<Rightarrow> committed_sub_dag \<Rightarrow> trusted_commit \<Rightarrow> round_number list \<Rightarrow> scoring_subdag \<Rightarrow> commit_log \<Rightarrow> commit_log" where
  "log_add s sub c rounds sd st = st\<lparr>log_last := s, log_commit := Some c, log_rounds := rounds,
     log_committed := log_committed st \<union> reference ` set (csd_blocks sub), log_scoring := sd,
     log_subs := log_subs st @ [local_sub sub]\<rparr>"

lemma committed_state_simps [simp]:
  "cached_block (committed_state sub c rounds ds) = cached_block ds"
  "get_block (committed_state sub c rounds ds) = get_block ds"
  "ds_context (committed_state sub c rounds ds) = ds_context ds"
  "ds_scoring_subdag (committed_state sub c rounds ds) = ds_scoring_subdag ds"
  "last_commit (committed_state sub c rounds ds) = Some c"
  "last_committed_rounds (committed_state sub c rounds ds) = rounds"
  "uncommitted (committed_state sub c rounds ds) = uncommitted ds - reference ` set (csd_blocks sub)"
  "highest_accepted_round (committed_state sub c rounds ds) = highest_accepted_round ds"
proof -
  let ?m = "mark_committed (reference ` set (csd_blocks sub)) ds"
  have rb: "recent_blocks (committed_state sub c rounds ds) = recent_blocks ?m" by (simp add: committed_state_def)
  have "cached_block (committed_state sub c rounds ds) = cached_block ?m" by (intro ext) (simp only: cached_block_def rb)
  then show c: "cached_block (committed_state sub c rounds ds) = cached_block ds" by simp
  have "uncommitted (committed_state sub c rounds ds) = uncommitted ?m" by (simp only: uncommitted_def rb)
  then show "uncommitted (committed_state sub c rounds ds) = uncommitted ds - reference ` set (csd_blocks sub)" by simp
  show "get_block (committed_state sub c rounds ds) = get_block ds"
  proof -
    have st: "ds_store (committed_state sub c rounds ds) = ds_store ds" "genesis (committed_state sub c rounds ds) = genesis ds"
      by (simp_all add: committed_state_def mark_committed_def)
    show ?thesis unfolding get_block_eq fun_eq_iff c st by simp
  qed
qed (simp_all add: committed_state_def mark_committed_def)

subsection \<open>Committing a leader\<close>

lemma dag_inv_committed:
  assumes "dag_inv ds"
  shows "dag_inv (committed_state sub c rounds ds)"
proof -
  let ?ds = "committed_state sub c rounds ds"
  have c: "cached_block ?ds = cached_block ds" by simp
  have "cache_inv ?ds" using assms unfolding dag_inv_def cache_inv_def c
    by (simp add: committed_state_def mark_committed_def)
  moreover have "genesis_inv ?ds" using assms unfolding dag_inv_def genesis_inv_def
    by (simp add: committed_state_def mark_committed_def)
  moreover have "store_inv ?ds" using assms unfolding dag_inv_def store_inv_def c
    by (simp add: committed_state_def mark_committed_def)
  ultimately show ?thesis by (simp add: dag_inv_def)
qed

lemma parents_rounds:
  assumes "block_universe c byz U" "view_of U ds" "r \<in> reach (parents ds) V {l}"
  shows "br_round r \<le> br_round l"
  using assms(3)
proof induction
  case (reach_step r a)
  have "br_round a < br_round r"
  proof (cases "cached_block ds r")
    case (Some b)
    then have "a \<in> set (vb_ancestors b)" using reach_step.hyps(2) by (simp add: parents_def)
    then show ?thesis using universeD(6) [OF assms(1) view_known(4) [OF assms(2) Some]] by blast
  qed (use reach_step.hyps(2) in \<open>simp add: parents_def\<close>)
  then show ?case using reach_step.IH by simp
qed simp

lemma view_committed:
  assumes "epoch_ok e" "held e st ds" "log_round st \<le> br_round (commit_leader (trusted_inner c))"
  shows "view_of (ep_blocks e) (committed_state sub c rounds ds)"
proof -
  let ?ds = "committed_state sub c rounds ds"
  note E = epoch_okD [OF assms(1)] and H = heldD [OF assms(2)]
  have gc: "gc_round ds \<le> gc_round ?ds"
    using assms(3) H(3) unfolding H(10) by (simp add: gc_round_def calculate_gc_round_def last_commit_round_def)
  have c: "ds_committee ?ds = ep_committee e" using H(2) by simp
  have inv: "dag_inv ?ds" by (rule dag_inv_committed [OF viewD(1) [OF H(1)]])
  show ?thesis
    unfolding view_of_def
  proof (intro conjI allI impI)
    fix r b a assume "get_block ?ds r = Some b" "a \<in> set (vb_ancestors b)" "gc_round ?ds < br_round a"
    then show "get_block ?ds a \<noteq> None" using H(1) gc unfolding view_of_def by auto
  next
    fix r b assume "get_block ?ds r = Some b" "gc_round ?ds < br_round r"
    then show "cached_block ?ds r = Some b" using viewD(4) [OF H(1)] gc by simp
  next
    fix r
    show "(\<Sum>b \<leftarrow> map (\<lambda>(_, bi). bi_block bi) (fmap_range (\<lambda>k. br_round k = r) (recent_blocks ?ds)).
        stk (ds_committee ?ds) (vb_author b)) \<le> u64_max"
      by (rule round_stake_bound [OF inv c _ E(2)]) (use viewD(2) [OF H(1)] in simp)
  qed (use inv viewD(2) [OF H(1)] in auto)
qed

lemma held_committed:
  assumes "epoch_ok e" "held e st ds" "log_rounds_ok e st" "get_block ds (reference L) = Some L"
    and "slot_of_ref (reference L) = s" "slot_round s = slot_round (log_last st) + 1"
  shows "\<exists>sub c rounds. handle_leader cr (ep_encode e) L (subs, ds) = Inr (subs @ [sub], committed_state sub c rounds ds)
    \<and> (\<forall>sd. held e (log_add s sub c rounds sd st) (committed_state sub c rounds ds))
    \<and> (\<forall>sd. log_rounds_ok e (log_add s sub c rounds sd st))
    \<and> csd_leader sub = reference L \<and> csd_commit_ref sub = commit_reference c \<and> commit_idx (trusted_inner c) = log_index st + 1
    \<and> distinct (map reference (csd_blocks sub)) \<and> reference ` set (csd_blocks sub) \<inter> log_committed st = {}
    \<and> (\<forall>b \<in> set (csd_blocks sub). ep_blocks e (reference b) = Some b \<and> 0 < vb_round b)
    \<and> log_round st \<le> br_round (commit_leader (trusted_inner c))"
proof -
  note E = epoch_okD [OF assms(1)] and H = heldD [OF assms(2)]
  have rd: "vb_round L = slot_round (log_last st) + 1" using assms(5,6) by (auto simp: slot_of_ref_def)
  note C = held_committable [OF assms(1-4) rd]
  have wf: "committee_wf (ds_committee ds)" "length (last_committed_rounds ds) = committee_size (ds_committee ds)"
    using E(9) H(2,5) assms(3) by (simp_all add: log_rounds_ok_def)
  obtain sub c rounds where h: "handle_leader cr (ep_encode e) L (subs, ds) = Inr (subs @ [sub], committed_state sub c rounds ds)"
    "length rounds = committee_size (ds_committee ds)" "commit_idx (trusted_inner c) = last_commit_index ds + 1"
    "commit_leader (trusted_inner c) = reference L" "csd_leader sub = reference L" "csd_commit_ref sub = commit_reference c"
    "distinct (map reference (csd_blocks sub))"
    "reference ` set (csd_blocks sub) = reach (parents ds) {r \<in> uncommitted ds. gc_round ds < br_round r} {reference L}"
    "\<forall>b \<in> set (csd_blocks sub). cached_block ds (reference b) = Some b"
    using handle_leader_run [OF wf(1) held_traversable [OF assms(1,2)] C(1) wf(2) C(4) E(4), of cr subs]
    by (elim exE conjE) (rule that)
  let ?refs = "reference ` set (csd_blocks sub)" and ?ds = "committed_state sub c rounds ds"
  have low: "br_round r \<le> vb_round L" if "r \<in> ?refs" for r
    using parents_rounds [OF E(1) H(1)] that unfolding h(8) by fastforce
  have unc: "?refs \<subseteq> uncommitted ds" using reach_subset unfolding h(8) by fastforce
  have lr: "log_round st \<le> br_round (commit_leader (trusted_inner c))"
    using assms(3) rd h(4) by (simp add: log_rounds_ok_def)
  have known: "?refs \<subseteq> dom (get_block ds)"
  proof
    fix r assume "r \<in> ?refs"
    then obtain b where b: "b \<in> set (csd_blocks sub)" "r = reference b" by blast
    then have "get_block ds r = Some b" using h(9) view_known(3) [OF H(1)] by simp
    then show "r \<in> dom (get_block ds)" by blast
  qed
  have "held e (log_add s sub c rounds sd st) ?ds" for sd
    using view_committed [OF assms(1,2) lr] H(2,3,6,7,11) known
    by (simp add: held_def log_add_def)
  moreover have "log_rounds_ok e (log_add s sub c rounds sd st)" for sd
    using assms(3,6) h(2-4) H(2,8) low rd
    by (auto simp: log_rounds_ok_def log_add_def log_index_def log_round_def)
  moreover have "?refs \<inter> log_committed st = {}"
  proof -
    have "r \<notin> log_committed st" if "r \<in> ?refs" for r
      using that unc H(6) [of r] uncommitted_cached [of r ds] by auto
    then show ?thesis by blast
  qed
  moreover have "\<forall>b \<in> set (csd_blocks sub). ep_blocks e (reference b) = Some b \<and> 0 < vb_round b"
  proof
    fix b assume "b \<in> set (csd_blocks sub)"
    then have "cached_block ds (reference b) = Some b" using h(9) by blast
    from view_known(2,4) [OF H(1) this] show "ep_blocks e (reference b) = Some b \<and> 0 < vb_round b" by simp
  qed
  ultimately show ?thesis using h(1,3,5-7) H(8) lr by auto
qed

subsection \<open>Two nodes with the same log\<close>

abbreviation history_of :: "epoch \<Rightarrow> verified_block \<Rightarrow> block_ref set" where
  "history_of e L \<equiv> reach (links (ep_blocks e)) UNIV {reference L}"

lemma history_known:
  assumes "epoch_ok e" "held e st ds" "get_block ds (reference L) = Some L"
    and "r \<in> history_of e L" "gc_round ds < br_round r"
  shows "get_block ds r \<noteq> None"
  using assms(4,5)
proof induction
  case (reach_step r a)
  note H = heldD [OF assms(2)]
  obtain b where b: "ep_blocks e r = Some b" "a \<in> set (vb_ancestors b)"
    using reach_step.hyps(2) by (auto simp: links_def split: option.splits)
  have "gc_round ds < br_round r" using universeD(6) [OF epoch_okD(1) [OF assms(1)] b] reach_step.prems by simp
  then obtain x where x: "get_block ds r = Some x" using reach_step.IH by blast
  then have "x = b" using viewD(2) [OF H(1) x] b(1) by simp
  then show ?case using H(1) x b(2) reach_step.prems unfolding view_of_def by blast
qed (use assms(3) in simp)

lemma held_same_gc: "held e st ds1 \<Longrightarrow> held e st ds2 \<Longrightarrow> gc_round ds1 = gc_round ds2"
  using heldD(10) by metis

lemma held_agree:
  assumes "epoch_ok e" "held e st ds1" "held e st ds2"
    and "get_block ds1 (reference L) = Some L" "get_block ds2 (reference L) = Some L"
  shows "agree_on (history_of e L) ds1 ds2"
proof -
  note H1 = heldD [OF assms(2)] and H2 = heldD [OF assms(3)] and gc = held_same_gc [OF assms(2,3)]
  have same: "get_block ds1 r = get_block ds2 r" if "r \<in> history_of e L" "gc_round ds1 < br_round r" for r
  proof -
    have "get_block ds1 r \<noteq> None" "get_block ds2 r \<noteq> None"
      using history_known [OF assms(1,2,4) that(1)] history_known [OF assms(1,3,5) that(1)] that(2) gc by auto
    then show ?thesis using viewD(2) [OF H1(1), of r] viewD(2) [OF H2(1), of r] by fastforce
  qed
  have zero: "get_block ds1 r = get_block ds2 r" if r: "r \<in> history_of e L" "br_round r = 0" for r
    using r
  proof (cases rule: reach.cases)
    case reach_start
    then show ?thesis using assms(4,5) by simp
  next
    case (reach_step x)
    then obtain b where b: "ep_blocks e x = Some b" "r \<in> set (vb_ancestors b)" by (auto simp: links_def split: option.splits)
    have "get_block ds1 r \<noteq> None" "get_block ds2 r \<noteq> None" using H1(7) [OF b r(2)] H2(7) [OF b r(2)] by auto
    then show ?thesis using viewD(2) [OF H1(1), of r] viewD(2) [OF H2(1), of r] by fastforce
  qed
  have both: "\<exists>b. cached_block ds1 r = Some b \<and> cached_block ds2 r = Some b \<and> set (vb_ancestors b) \<subseteq> history_of e L
      \<and> (r \<in> uncommitted ds1 \<longleftrightarrow> r \<in> uncommitted ds2)" if r: "r \<in> history_of e L" "gc_round ds1 < br_round r" for r
  proof -
    obtain b where b: "get_block ds1 r = Some b" "get_block ds2 r = Some b"
      using history_known [OF assms(1,2,4) r] same [OF r] by auto
    have c: "cached_block ds1 r = Some b" "cached_block ds2 r = Some b"
      using viewD(4) [OF H1(1) b(1) r(2)] viewD(4) [OF H2(1) b(2)] r(2) gc by auto
    have "ep_blocks e r = Some b" by (rule viewD(2) [OF H1(1) b(1)])
    then have "set (vb_ancestors b) \<subseteq> links (ep_blocks e) r" by (simp add: links_def)
    then have "set (vb_ancestors b) \<subseteq> history_of e L" using reach_step [OF r(1)] by blast
    moreover have "r \<in> uncommitted ds1 \<longleftrightarrow> r \<in> uncommitted ds2" using H1(6) [of r] H2(6) [of r] c by simp
    ultimately show ?thesis using c by blast
  qed
  have tr: "traversable (gc_round ds1) ds1" "traversable (gc_round ds1) ds2"
    using held_traversable(1) [OF assms(1,2)] held_traversable(1) [OF assms(1,3)] gc by simp_all
  show ?thesis
    unfolding agree_on_def
  proof (intro conjI ballI impI tr both)
    fix r assume "r \<in> history_of e L" "gc_round ds1 < br_round r \<or> br_round r = 0"
    then show "get_block ds1 r = get_block ds2 r" using same zero by blast
  qed (use H1(2-5) H2(2-5) in simp_all)
qed

lemma commit_unique:
  assumes "epoch_ok e" "held e st ds1" "held e st ds2" "log_rounds_ok e st"
    and "get_block ds1 (reference L) = Some L" "get_block ds2 (reference L) = Some L"
    and "vb_round L = slot_round (log_last st) + 1"
    and "handle_leader cr encode L ([], ds1) = Inr ([sub1], committed_state sub1 c1 rounds1 ds1)"
    and "handle_leader cr encode L ([], ds2) = Inr ([sub2], committed_state sub2 c2 rounds2 ds2)"
  shows "sub1 = sub2" "c1 = c2" "rounds1 = rounds2"
proof -
  note C = held_committable [OF assms(1,2,4,5,7)]
  have L: "reference L \<in> history_of e L" by (rule reach_start) simp_all
  from handle_leader_agree [OF held_agree [OF assms(1-3,5,6)] L C(2,3,5), of cr encode "[]"]
  have "sub1 = sub2 \<and> agree_on (history_of e L) (committed_state sub1 c1 rounds1 ds1) (committed_state sub2 c2 rounds2 ds2)"
    unfolding assms(8,9) by auto
  then show "sub1 = sub2" "c1 = c2" "rounds1 = rounds2" by (simp_all add: agree_on_def)
qed

subsection \<open>Scores\<close>

lemma score_blocks_ok:
  assumes "committee_base c" "scoring_inv c sd" "\<forall>b \<in> set bs. linked_block c b" "distinct (map reference bs)"
    and "\<forall>b \<in> set bs. voters sd (reference b) = None"
    and "\<forall>l \<in> fset (sd_leaders sd). \<forall>l' \<in> fset (sd_leaders sd). br_round l = br_round l' \<longrightarrow> l = l'"
  shows "\<exists>sd'. rfold (score_block c) bs sd = Inr sd' \<and> scoring_inv c sd' \<and> sd_leaders sd' = sd_leaders sd
    \<and> sd_commit_range sd' = sd_commit_range sd
    \<and> (\<forall>v. voters sd' v \<noteq> None \<longrightarrow> voters sd v \<noteq> None \<or> v \<in> reference ` set bs)"
  using assms(2-6)
proof (induction bs arbitrary: sd)
  case (Cons b bs)
  have b: "is_valid_index c (vb_author b)" "distinct (vb_ancestors b)" "\<forall>a \<in> set (vb_ancestors b). br_round a < vb_round b"
    using Cons.prems(2) by (auto simp: linked_block_def distinct_map)
  have l: "\<forall>a \<in> strong_links b \<inter> fset (sd_leaders sd). \<forall>a' \<in> strong_links b \<inter> fset (sd_leaders sd). a = a'"
    using Cons.prems(5) by (auto simp: strong_links_def)
  have n: "voters sd (reference b) = None" using Cons.prems(4) by simp
  obtain sd1 where 1: "score_block c b sd = Inr sd1" "scoring_inv c sd1" "sd_leaders sd1 = sd_leaders sd"
    "sd_commit_range sd1 = sd_commit_range sd" "voters sd1 = count_block (fset (sd_leaders sd)) b (voters sd)"
    using score_block_ok [OF assms(1) Cons.prems(1) b n l] by blast
  have v: "voters sd1 v \<noteq> None \<Longrightarrow> voters sd v \<noteq> None \<or> v = reference b" for v
    unfolding 1(5) count_block_def by (auto split: if_splits)
  have d: "distinct (map reference bs)" "\<forall>b \<in> set bs. linked_block c b" using Cons.prems(2,3) by simp_all
  have d': "\<forall>x \<in> set bs. voters sd1 (reference x) = None"
  proof
    fix x assume x: "x \<in> set bs"
    have "reference b \<notin> reference ` set bs" using Cons.prems(3) by simp
    then have "reference x \<noteq> reference b" using x by (metis imageI)
    moreover have "voters sd (reference x) = None" using Cons.prems(4) x by simp
    ultimately show "voters sd1 (reference x) = None" using v [of "reference x"] by blast
  qed
  obtain sd2 where 2: "rfold (score_block c) bs sd1 = Inr sd2" "scoring_inv c sd2" "sd_leaders sd2 = sd_leaders sd1"
    "sd_commit_range sd2 = sd_commit_range sd1"
    "\<forall>v. voters sd2 v \<noteq> None \<longrightarrow> voters sd1 v \<noteq> None \<or> v \<in> reference ` set bs"
    using Cons.IH [OF 1(2) d(2,1) d'] Cons.prems(5) 1(3) by auto
  have "\<forall>v. voters sd2 v \<noteq> None \<longrightarrow> voters sd v \<noteq> None \<or> v \<in> reference ` set (b # bs)"
    using 2(5) v by (auto simp del: not_None_eq)
  then show ?case using 1(1,3,4) 2(1-4) by (intro exI [of _ sd2]) simp
qed simp

subsection \<open>The log is in order\<close>

definition log_scores_ok :: "epoch \<Rightarrow> commit_log \<Rightarrow> bool" where
  "log_scores_ok e st \<longleftrightarrow> scoring_inv (ep_committee e) (log_scoring st)
     \<and> (\<forall>v. voters (log_scoring st) v \<noteq> None \<longrightarrow> v \<in> log_committed st)
     \<and> (\<forall>l \<in> fset (sd_leaders (log_scoring st)). br_round l \<le> slot_round (log_last st))
     \<and> (\<forall>l \<in> fset (sd_leaders (log_scoring st)). \<forall>l' \<in> fset (sd_leaders (log_scoring st)).
          br_round l = br_round l' \<longrightarrow> l = l')"

text \<open>The scored commits are the last ones, and follow those that the table was made from.\<close>

definition log_range_ok :: "epoch \<Rightarrow> commit_log \<Rightarrow> bool" where
  "log_range_ok e st \<longleftrightarrow>
     (\<forall>r. sd_commit_range (log_scoring st) = Some r \<longrightarrow> range_hi r = log_index st + 1 \<and> range_lo r \<le> log_index st \<and> 0 < range_lo r
        \<and> range_hi r - range_lo r \<le> ep_length e)
     \<and> (let old = scores_commit_range (table_scores (log_table st));
            lo = (case sd_commit_range (log_scoring st) of None \<Rightarrow> log_index st + 1 | Some r \<Rightarrow> range_lo r)
        in old = CommitRange 0 0 \<or> range_hi old = lo \<and> range_lo old \<le> range_hi old \<and> range_hi old - range_lo old = ep_length e)"

definition table_ok :: "epoch \<Rightarrow> leader_swap_table \<Rightarrow> bool" where
  "table_ok e t \<longleftrightarrow> good_set t \<subseteq> members (ep_committee e) \<and> good_set t \<inter> bad_set t = {}
     \<and> (bad_set t = {} \<or> good_set t \<noteq> {})"

text \<open>The commits are numbered from 1, and no block is in two of them.\<close>

definition output_refs :: "committed_sub_dag list \<Rightarrow> block_ref list" where
  "output_refs subs = concat (map (\<lambda>sub. map reference (csd_blocks sub)) subs)"

definition log_output_ok :: "commit_log \<Rightarrow> bool" where
  "log_output_ok st \<longleftrightarrow> map (\<lambda>sub. cr_index (csd_commit_ref sub)) (log_subs st) = [1..<Suc (log_index st)]
     \<and> distinct (output_refs (log_subs st)) \<and> set (output_refs (log_subs st)) = log_committed st"

definition log_ok :: "epoch \<Rightarrow> commit_log \<Rightarrow> bool" where
  "log_ok e st \<longleftrightarrow> log_rounds_ok e st \<and> log_scores_ok e st \<and> log_range_ok e st \<and> table_ok e (log_table st)
     \<and> log_output_ok st"

lemma log_okD:
  assumes "log_ok e st"
  shows "log_rounds_ok e st" "log_scores_ok e st" "log_range_ok e st" "table_ok e (log_table st)" "log_output_ok st"
  using assms by (simp_all add: log_ok_def)

definition log_count :: "commit_log \<Rightarrow> nat" where
  "log_count st = (case sd_commit_range (log_scoring st) of None \<Rightarrow> 0 | Some r \<Rightarrow> range_hi r - range_lo r)"

definition due :: "epoch \<Rightarrow> commit_log \<Rightarrow> bool" where
  "due e st \<longleftrightarrow> log_count st = ep_length e"

lemma log_count_ok:
  assumes "log_range_ok e st"
  shows "scored_subdags_count (log_scoring st) = Inr (log_count st)" "log_count st \<le> ep_length e"
  using assms
  by (auto simp: log_range_ok_def scored_subdags_count_def log_count_def range_size_def checked_sub64_def split: option.splits)

lemma table_electable:
  assumes "epoch_ok e" "table_ok e t"
  shows "electable (ep_rng e) (ep_committee e) t"
  unfolding electable_def
proof (intro allI impI, elim conjE)
  fix sch :: leader_schedule assume s: "leader_table sch = t" "ctx_committee (schedule_context sch) = ep_committee e"
  show "valid_election (ep_rng e) sch pipeline_committers (ep_committee e)"
    using valid_election_single [OF epoch_okD(3) [OF assms(1)], of sch single_leader] epoch_okD(9) [OF assms(1)] assms(2)
    unfolding s table_ok_def by simp
qed

lemma log_add_simps [simp]:
  "log_last (log_add s sub c rounds sd st) = s" "log_table (log_add s sub c rounds sd st) = log_table st"
  "log_commit (log_add s sub c rounds sd st) = Some c" "log_scoring (log_add s sub c rounds sd st) = sd"
  "log_committed (log_add s sub c rounds sd st) = log_committed st \<union> reference ` set (csd_blocks sub)"
  "log_index (log_add s sub c rounds sd st) = commit_idx (trusted_inner c)"
  "log_subs (log_add s sub c rounds sd st) = log_subs st @ [local_sub sub]"
  by (simp_all add: log_add_def log_index_def)

lemma local_sub_simps [simp]:
  "csd_leader (local_sub sub) = csd_leader sub" "csd_blocks (local_sub sub) = csd_blocks sub"
  "csd_commit_ref (local_sub sub) = csd_commit_ref sub"
  by (simp_all add: local_sub_def)

lemma log_add_subdag:
  assumes "epoch_ok e" "log_ok e st" "\<not> due e st" "log_rounds_ok e (log_add s sub c rounds scoring_subdag_new st)"
    and "slot_round s = slot_round (log_last st) + 1" "slot_round s + 1 < 2 ^ 32"
    and "csd_leader sub = reference L" "vb_round L = slot_round s" "csd_commit_ref sub = commit_reference c"
    and "commit_idx (trusted_inner c) = log_index st + 1"
    and "distinct (map reference (csd_blocks sub))" "reference ` set (csd_blocks sub) \<inter> log_committed st = {}"
    and "\<forall>b \<in> set (csd_blocks sub). ep_blocks e (reference b) = Some b \<and> 0 < vb_round b"
  shows "\<exists>sd. add_subdag (ep_committee e) (local_sub sub) (log_scoring st) = Inr sd
    \<and> log_ok e (log_add s sub c rounds sd st) \<and> log_count (log_add s sub c rounds sd st) = log_count st + 1"
proof -
  note E = epoch_okD [OF assms(1)] and O = log_okD [OF assms(2)]
  let ?sd = "log_scoring st" and ?i = "log_index st + 1"
  have i: "?i < u32_max" using O(1) assms(5,6) by (simp add: log_rounds_ok_def u32_max_def)
  have ci: "cr_index (csd_commit_ref sub) = ?i" using assms(9,10) by (simp add: commit_reference_def)
  define r where "r = (case sd_commit_range ?sd of None \<Rightarrow> CommitRange ?i (?i + 1) | Some r \<Rightarrow> CommitRange (range_lo r) (?i + 1))"
  have range: "(case sd_commit_range ?sd of Some r \<Rightarrow> range_extend_to r ?i | None \<Rightarrow> Inr (commit_range_new ?i ?i)) = Inr r"
    using i O(3) by (auto simp: r_def log_range_ok_def range_extend_to_def commit_range_new_def saturating_add32_def
      Let_def split: option.splits)
  let ?sd1 = "?sd\<lparr>sd_commit_range := Some r, sd_leaders := finsert (reference L) (sd_leaders ?sd)\<rparr>"
  have v: "voters ?sd1 = voters ?sd" by (simp add: voters_def fun_eq_iff)
  have inv: "scoring_inv (ep_committee e) ?sd1" using O(2) by (simp add: log_scores_ok_def scoring_inv_def)
  have lb: "\<forall>b \<in> set (csd_blocks sub). linked_block (ep_committee e) b"
    using universeD(4) [OF E(1)] assms(13) by fastforce
  have none: "\<forall>b \<in> set (csd_blocks sub). voters ?sd1 (reference b) = None"
  proof
    fix b assume "b \<in> set (csd_blocks sub)"
    then have "reference b \<notin> log_committed st" using assms(12) by blast
    then show "voters ?sd1 (reference b) = None" using O(2) unfolding v log_scores_ok_def by blast
  qed
  have new: "l \<in> fset (sd_leaders ?sd) \<Longrightarrow> br_round l < br_round (reference L)" for l
  proof -
    assume "l \<in> fset (sd_leaders ?sd)"
    then have "br_round l \<le> slot_round (log_last st)" using O(2) unfolding log_scores_ok_def by blast
    then show ?thesis using assms(5,8) by simp
  qed
  have uniq: "\<forall>l \<in> fset (sd_leaders ?sd1). \<forall>l' \<in> fset (sd_leaders ?sd1). br_round l = br_round l' \<longrightarrow> l = l'"
  proof (intro ballI impI)
    fix l l' assume l: "l \<in> fset (sd_leaders ?sd1)" "l' \<in> fset (sd_leaders ?sd1)" "br_round l = br_round l'"
    then consider "l = reference L" "l' = reference L" | "l \<in> fset (sd_leaders ?sd)" "l' \<in> fset (sd_leaders ?sd)"
      using new by fastforce
    then show "l = l'" using O(2) l(3) unfolding log_scores_ok_def by cases blast+
  qed
  obtain sd where sd: "rfold (score_block (ep_committee e)) (csd_blocks sub) ?sd1 = Inr sd" "scoring_inv (ep_committee e) sd"
    "sd_leaders sd = sd_leaders ?sd1" "sd_commit_range sd = Some r"
    "\<forall>v. voters sd v \<noteq> None \<longrightarrow> voters ?sd1 v \<noteq> None \<or> v \<in> reference ` set (csd_blocks sub)"
    using score_blocks_ok [OF committee_wf_base [OF E(9)] inv lb assms(11) none uniq] by auto
  have run: "add_subdag (ep_committee e) (local_sub sub) ?sd = Inr sd"
    using sd(1) unfolding add_subdag_def local_sub_simps Let_def ci range assms(7) by simp
  let ?st = "log_add s sub c rounds sd st"
  have "log_rounds_ok e ?st" using assms(4) by (simp add: log_rounds_ok_def log_round_def) (simp add: log_add_def)
  moreover have "log_scores_ok e ?st"
  proof -
    have "v \<in> log_committed ?st" if "voters sd v \<noteq> None" for v
      using sd(5) that O(2) unfolding v log_scores_ok_def log_add_simps by blast
    moreover have "br_round l \<le> slot_round s" if "l \<in> fset (sd_leaders sd)" for l
      using that new [of l] assms(8) unfolding sd(3) by auto
    ultimately show ?thesis using sd(2) uniq unfolding log_scores_ok_def log_add_simps sd(3) [symmetric] by blast
  qed
  moreover have "log_range_ok e ?st"
    using O(3) assms(3,10) sd(4)
    by (auto simp: log_range_ok_def r_def due_def log_count_def Let_def split: option.splits)
  moreover have "log_count ?st = log_count st + 1"
    using O(3) sd(4) by (auto simp: log_range_ok_def r_def log_count_def split: option.splits)
  moreover have "log_output_ok ?st"
    using O(5) assms(10-12) ci by (auto simp: log_output_ok_def output_refs_def image_iff)
  ultimately show ?thesis using run O(4) by (auto simp: log_ok_def)
qed

subsection \<open>Changing the schedule\<close>

definition log_update :: "epoch \<Rightarrow> commit_log \<Rightarrow> commit_log \<Rightarrow> bool" where
  "log_update e st st' \<longleftrightarrow> (\<exists>rs ctx t. calculate_distributed_vote_scores (ep_committee e) (log_scoring st) = Inr rs
     \<and> ctx_committee ctx = ep_committee e \<and> ctx_protocol_config ctx = ep_config e
     \<and> swap_table_new (ep_rng e) ctx (log_index st) rs = Inr t
     \<and> st' = st\<lparr>log_table := t, log_scoring := scoring_clear (log_scoring st)\<rparr>)"

lemma swap_table_new_cong:
  assumes "ctx_committee ctx = ctx_committee ctx'" "ctx_protocol_config ctx = ctx_protocol_config ctx'"
  shows "swap_table_new g ctx i rs = swap_table_new g ctx' i rs"
  using assms by (simp add: swap_table_new_def swap_table_new_inner_def)

lemma log_update_unique:
  assumes "log_update e st a" "log_update e st b"
  shows "a = b"
  using assms unfolding log_update_def by (elim exE conjE) (metis swap_table_new_cong sum.inject(2))

lemma new_table_ok:
  assumes "epoch_ok e" "ctx_committee ctx = ep_committee e" "ctx_protocol_config ctx = ep_config e"
    and "length (scores_per_authority rs) = committee_size (ep_committee e)" "swap_table_new (ep_rng e) ctx i rs = Inr t"
  shows "table_ok e t"
proof -
  let ?c = "ep_committee e" and ?t = "bad_nodes_stake_threshold (ep_config e)"
  have ep: "?t \<le> 33" "?t * total_stake ?c \<le> u64_max" "\<forall>a \<in> members ?c. 100 * stk ?c a \<le> ?t * total_stake ?c"
    using assms(1) unfolding epoch_ok_def by blast+
  have base: "committee_base ?c" by (rule committee_wf_base [OF epoch_okD(9) [OF assms(1)]])
  define order where "order = map fst (ranking (ep_rng e) i rs)"
  note o = ranking_order [OF epoch_okD(3) [OF assms(1)] assms(4), of i, folded order_def]
  obtain k l where t: "good_nodes t = map (node_of ?c) (take k order)"
    "bad_nodes t = fmap_of_list (map (node_of ?c) (rev (take l (rev order))))"
    "weight ?c (set (take k order)) \<le> wrap64 (?t * total_stake ?c) div 100"
    "weight ?c (set (take l (rev order))) \<le> wrap64 (?t * total_stake ?c) div 100"
    "k < committee_size ?c \<longrightarrow> wrap64 (?t * total_stake ?c) div 100 < weight ?c (set (take (Suc k) order))"
    using swap_table_new_inner_eq [OF base epoch_okD(3) [OF assms(1)] ep(1) assms(2,4), of i] assms(3,5)
    unfolding swap_table_new_def order_def by auto
  note sets = swap_table_sets [OF t(1,2)]
  have "set (take k order) \<inter> set (take l (rev order)) = {}"
    using prefix_suffix_disjoint [OF base o(1,2)] budget_bound(2) [OF ep(1) t(3)] budget_bound(2) [OF ep(1) t(4)] by simp
  moreover have "take k order \<noteq> []"
  proof -
    have "members ?c \<noteq> {}" using base by (auto simp: committee_base_def committee_size_def members_def is_valid_index_def)
    then obtain a xs where a: "order = a # xs" using o(2) by (cases order) auto
    have "100 * stk ?c a \<le> ?t * total_stake ?c" using a ep(3) o(2) by auto
    moreover have "wrap64 (?t * total_stake ?c) = ?t * total_stake ?c" using ep(2) by (simp add: u64_max_def)
    ultimately have "stk ?c a \<le> wrap64 (?t * total_stake ?c) div 100" by linarith
    moreover have "0 < committee_size ?c" using base by (auto simp: committee_base_def committee_size_def)
    ultimately show ?thesis using t(5) a by (cases k) auto
  qed
  moreover have "set (take k order) \<subseteq> members ?c" using o(2) set_take_subset [of k order] by auto
  ultimately show ?thesis by (simp add: table_ok_def sets)
qed

lemma log_update_ok:
  assumes "epoch_ok e" "log_ok e st" "due e st" "log_update e st st'"
  shows "log_ok e st'" "\<not> due e st'" "log_subs st' = log_subs st"
proof -
  note E = epoch_okD [OF assms(1)] and O = log_okD [OF assms(2)]
  obtain rs ctx t where u: "calculate_distributed_vote_scores (ep_committee e) (log_scoring st) = Inr rs"
    "ctx_committee ctx = ep_committee e" "ctx_protocol_config ctx = ep_config e"
    "swap_table_new (ep_rng e) ctx (log_index st) rs = Inr t"
    "st' = st\<lparr>log_table := t, log_scoring := scoring_clear (log_scoring st)\<rparr>"
    using assms(4) unfolding log_update_def by (elim exE conjE) (rule that)
  obtain scores where s: "distributed_votes_scores (ep_committee e) (log_scoring st) = Inr scores"
    "length scores = committee_size (ep_committee e)"
    using distributed_votes_total [of "ep_committee e" "log_scoring st"] O(2) unfolding log_scores_ok_def by blast
  obtain r where r: "sd_commit_range (log_scoring st) = Some r" "rs = reputation_scores_new r scores"
    using u(1) s(1) by (auto simp: calculate_distributed_vote_scores_def rbind_eq_Inr rexpect_def split: option.splits)
  have t: "table_ok e t" using new_table_ok [OF assms(1) u(2,3) _ u(4)] s(2) r(2) by (simp add: reputation_scores_new_def)
  have ts: "table_scores t = rs"
    using swap_table_new_inner_eq [OF committee_wf_base [OF E(9)] E(3) _ u(2), of "bad_nodes_stake_threshold (ep_config e)" rs "log_index st"]
      u(3,4) s(2) assms(1) r(2) by (auto simp: swap_table_new_def reputation_scores_new_def epoch_ok_def)
  have "log_rounds_ok e st'" using O(1) u(5) by (simp add: log_rounds_ok_def log_index_def log_round_def)
  moreover have "log_scores_ok e st'"
    using u(5) by (simp add: log_scores_ok_def scoring_clear_def scoring_inv_def voters_def)
  moreover have "log_range_ok e st'"
    using O(3) assms(3) r u(5) ts
    by (auto simp: log_range_ok_def scoring_clear_def reputation_scores_new_def due_def log_count_def log_index_def Let_def)
  moreover have "log_output_ok st'" using O(5) u(5) by (simp add: log_output_ok_def log_index_def)
  ultimately show "log_ok e st'" using t u(5) by (simp add: log_ok_def)
  show "\<not> due e st'" using E(8) u(5) by (simp add: due_def log_count_def scoring_clear_def)
  show "log_subs st' = log_subs st" using u(5) by simp
qed

subsection \<open>Steps of the log\<close>

abbreviation log_outcome :: "epoch \<Rightarrow> commit_log \<Rightarrow> slot \<times> verified_block option \<Rightarrow> bool" where
  "log_outcome e st x \<equiv> next_outcome (ep_committee e) (ep_faulty e) (ep_blocks e) (ep_config e) (ep_rng e) (log_table st)
     (log_last st) x \<and> slot_round (fst x) = slot_round (log_last st) + 1"

text \<open>
  A schedule that is due is changed; otherwise the next leader is skipped or committed.
\<close>

inductive log_step :: "epoch \<Rightarrow> commit_log \<Rightarrow> commit_log \<Rightarrow> bool" for e where
  step_update: "due e st \<Longrightarrow> log_update e st st' \<Longrightarrow> log_step e st st'"
| step_skip: "\<not> due e st \<Longrightarrow> log_outcome e st (s, None) \<Longrightarrow> log_step e st (st\<lparr>log_last := s\<rparr>)"
| step_commit: "\<not> due e st \<Longrightarrow> log_outcome e st (s, Some L) \<Longrightarrow> slot_of_ref (reference L) = s
    \<Longrightarrow> held e st ds \<Longrightarrow> get_block ds (reference L) = Some L
    \<Longrightarrow> handle_leader (ep_crypto e) (ep_encode e) L ([], ds) = Inr ([sub], committed_state sub c rounds ds)
    \<Longrightarrow> add_subdag (ep_committee e) (local_sub sub) (log_scoring st) = Inr sd
    \<Longrightarrow> log_step e st (log_add s sub c rounds sd st)"

lemma slot_round_ref: "slot_of_ref (reference L) = s \<Longrightarrow> vb_round L = slot_round s"
  by (auto simp: slot_of_ref_def)

lemma log_step_unique:
  assumes "epoch_ok e" "log_ok e st" "log_step e st a" "log_step e st b"
  shows "a = b"
proof -
  note el = table_electable [OF assms(1) log_okD(4) [OF assms(2)]]
  have same: "x = y" if "log_outcome e st x" "log_outcome e st y" for x y
    using next_outcome_unique [OF _ _ el] that by blast
  from assms(3) show ?thesis
  proof (cases rule: log_step.cases)
    case step_update
    from assms(4) show ?thesis by (cases rule: log_step.cases) (use step_update log_update_unique in blast)+
  next
    case (step_skip s)
    from assms(4) show ?thesis by (cases rule: log_step.cases) (use step_skip same in blast)+
  next
    case (step_commit s L ds sub c rounds sd)
    from assms(4) show ?thesis
    proof (cases rule: log_step.cases)
      case (step_commit s' L' ds' sub' c' rounds' sd')
      note c1 = \<open>log_outcome e st (s, Some L)\<close> \<open>held e st ds\<close> \<open>get_block ds (reference L) = Some L\<close>
        \<open>handle_leader (ep_crypto e) (ep_encode e) L ([], ds) = Inr ([sub], committed_state sub c rounds ds)\<close>
        \<open>slot_of_ref (reference L) = s\<close> \<open>add_subdag (ep_committee e) (local_sub sub) (log_scoring st) = Inr sd\<close>
        \<open>a = log_add s sub c rounds sd st\<close>
      have L: "s' = s" "L' = L" using same [OF c1(1) step_commit(3)] by simp_all
      have "vb_round L = slot_round (log_last st) + 1" using c1(1) slot_round_ref [OF c1(5)] by simp
      note u = commit_unique [OF assms(1) c1(2) step_commit(5) log_okD(1) [OF assms(2)] c1(3) step_commit(6) [unfolded L] this c1(4) step_commit(7) [unfolded L]]
      have "sd' = sd" using c1(6) step_commit(8) unfolding u(1) by simp
      then show ?thesis using step_commit(1) c1(7) L u by simp
    qed (use step_commit same in blast)+
  qed
qed

lemma log_commit_ok:
  assumes "epoch_ok e" "log_ok e st" "\<not> due e st" "slot_round s = slot_round (log_last st) + 1"
    and "slot_of_ref (reference L) = s" "held e st ds" "get_block ds (reference L) = Some L"
  shows "\<exists>sub c rounds sd. (\<forall>subs. handle_leader (ep_crypto e) (ep_encode e) L (subs, ds)
        = Inr (subs @ [sub], committed_state sub c rounds ds))
    \<and> add_subdag (ep_committee e) (local_sub sub) (log_scoring st) = Inr sd
    \<and> log_ok e (log_add s sub c rounds sd st) \<and> held e (log_add s sub c rounds sd st) (committed_state sub c rounds ds)
    \<and> log_count (log_add s sub c rounds sd st) = log_count st + 1
    \<and> gc_round ds \<le> gc_round (committed_state sub c rounds ds) \<and> csd_leader sub = reference L"
proof -
  obtain sub c rounds where h: "handle_leader (ep_crypto e) (ep_encode e) L ([], ds) = Inr ([] @ [sub], committed_state sub c rounds ds)"
    "\<forall>sd. held e (log_add s sub c rounds sd st) (committed_state sub c rounds ds)"
    "\<forall>sd. log_rounds_ok e (log_add s sub c rounds sd st)"
    "csd_leader sub = reference L" "csd_commit_ref sub = commit_reference c" "commit_idx (trusted_inner c) = log_index st + 1"
    "distinct (map reference (csd_blocks sub))" "reference ` set (csd_blocks sub) \<inter> log_committed st = {}"
    "\<forall>b \<in> set (csd_blocks sub). ep_blocks e (reference b) = Some b \<and> 0 < vb_round b"
    "log_round st \<le> br_round (commit_leader (trusted_inner c))"
    using held_committed [OF assms(1,6) log_okD(1) [OF assms(2)] assms(7,5,4), of "ep_crypto e" "[]"]
    by (elim exE conjE) (rule that)
  have u: "ep_blocks e (reference L) = Some L" by (rule viewD(2) [OF heldD(1) [OF assms(6)] assms(7)])
  have rd: "vb_round L = slot_round s" by (rule slot_round_ref [OF assms(5)])
  have "slot_round s + 1 < 2 ^ 32" using epoch_okD(10) [OF assms(1), of "reference L"] u rd by simp
  note A = log_add_subdag [OF assms(1-3) h(3) [rule_format] assms(4) this h(4) rd h(5-9)]
  have "handle_leader (ep_crypto e) (ep_encode e) L (subs, ds) = Inr (subs @ [sub], committed_state sub c rounds ds)" for subs
    using h(1) by (auto simp: handle_leader_def rbind_eq_Inr Let_def split: prod.splits)
  moreover have "gc_round ds \<le> gc_round (committed_state sub c rounds ds)"
    using h(10) heldD(3,10) [OF assms(6)] by (simp add: gc_round_def calculate_gc_round_def last_commit_round_def)
  ultimately show ?thesis using A h(2,4) by blast
qed

lemma log_step_ok:
  assumes "epoch_ok e" "log_ok e st" "log_step e st st'"
  shows "log_ok e st'" "\<exists>xs. log_subs st' = log_subs st @ xs"
proof -
  have "log_ok e st' \<and> (\<exists>xs. log_subs st' = log_subs st @ xs)"
    using assms(3)
  proof (cases rule: log_step.cases)
    case step_update
    then show ?thesis using log_update_ok [OF assms(1,2)] by simp
  next
    case (step_skip s)
    have "log_rounds_ok e st'" using log_okD(1) [OF assms(2)] step_skip 
      by (auto simp: log_rounds_ok_def log_index_def log_round_def)
    moreover have "log_scores_ok e st'" using log_okD(2) [OF assms(2)] step_skip by (fastforce simp: log_scores_ok_def)
    moreover have i: "log_index (st\<lparr>log_last := s\<rparr>) = log_index st" by (simp add: log_index_def)
    have "log_range_ok e st'" using log_okD(3) [OF assms(2)] unfolding step_skip(1) log_range_ok_def i by fastforce
    moreover have "log_output_ok st'" using log_okD(5) [OF assms(2)] unfolding step_skip(1) log_output_ok_def i by simp
    ultimately show ?thesis using log_okD(4) [OF assms(2)] step_skip by (simp add: log_ok_def)
  next
    case (step_commit s L ds sub c rounds sd)
    obtain sub' c' rounds' sd' where h: "\<forall>subs. handle_leader (ep_crypto e) (ep_encode e) L (subs, ds)
        = Inr (subs @ [sub'], committed_state sub' c' rounds' ds)"
      "add_subdag (ep_committee e) (local_sub sub') (log_scoring st) = Inr sd'" "log_ok e (log_add s sub' c' rounds' sd' st)"
      using log_commit_ok [OF assms(1,2) step_commit(2) _ step_commit(4-6)] step_commit(3) by auto
    have eq: "sub' = sub" "committed_state sub' c' rounds' ds = committed_state sub c rounds ds"
      using h(1) [rule_format, of "[]"] step_commit(7) by auto
    have "last_commit (committed_state sub' c' rounds' ds) = last_commit (committed_state sub c rounds ds)"
      "last_committed_rounds (committed_state sub' c' rounds' ds) = last_committed_rounds (committed_state sub c rounds ds)"
      by (simp_all only: eq(2))
    then have "c' = c" "rounds' = rounds" by simp_all
    then show ?thesis using h(2,3) step_commit(1,8) eq(1) by simp
  qed
  then show "log_ok e st'" "\<exists>xs. log_subs st' = log_subs st @ xs" by blast+
qed

subsection \<open>Deterministic steps\<close>

text \<open>
  Runs of a deterministic system whose output only grows: two runs from the same state extend one
  another.
\<close>

locale deterministic_steps =
  fixes step :: "'s \<Rightarrow> 's \<Rightarrow> bool" and inv :: "'s \<Rightarrow> bool" and out :: "'s \<Rightarrow> 'o list"
  assumes step_determined: "inv s \<Longrightarrow> step s a \<Longrightarrow> step s b \<Longrightarrow> a = b"
    and step_keeps: "inv s \<Longrightarrow> step s a \<Longrightarrow> inv a"
    and step_extends: "inv s \<Longrightarrow> step s a \<Longrightarrow> prefix (out s) (out a)"
begin

lemma reach_keeps:
  assumes "inv s" "step\<^sup>*\<^sup>* s t"
  shows "inv t"
  using assms(2,1) by induction (blast intro: step_keeps)+

lemma reach_extends:
  assumes "inv s" "step\<^sup>*\<^sup>* s t"
  shows "prefix (out s) (out t)"
  using assms(2)
proof induction
  case (step a b)
  then show ?case using step_extends [OF reach_keeps [OF assms(1)]] by (blast intro: prefix_order.trans)
qed simp

lemma reach_comparable:
  assumes "inv s" "step\<^sup>*\<^sup>* s a" "step\<^sup>*\<^sup>* s b"
  shows "step\<^sup>*\<^sup>* a b \<or> step\<^sup>*\<^sup>* b a"
  using assms(2)
proof induction
  case (step a a')
  have "inv a" by (rule reach_keeps [OF assms(1) step.hyps(1)])
  then have "step\<^sup>*\<^sup>* a' b" if "step\<^sup>*\<^sup>* a b" "a \<noteq> b"
    using that step.hyps(2) step_determined by (metis converse_rtranclpE)
  then show ?case using step.IH step.hyps(2) by (metis rtranclp.simps)
qed (simp add: assms(3))

lemma outputs_comparable:
  assumes "inv s" "step\<^sup>*\<^sup>* s a" "step\<^sup>*\<^sup>* s b"
  shows "prefix (out a) (out b) \<or> prefix (out b) (out a)"
  using reach_comparable [OF assms] reach_extends reach_keeps [OF assms(1)] assms(2,3) by blast

end

interpretation log_steps: deterministic_steps "log_step e" "\<lambda>st. epoch_ok e \<and> log_ok e st" log_subs for e
proof
  fix s a b
  assume s: "epoch_ok e \<and> log_ok e s" and a: "log_step e s a"
  show "epoch_ok e \<and> log_ok e a" "prefix (log_subs s) (log_subs a)" using log_step_ok [of e s a] s a by auto
  assume "log_step e s b"
  then show "a = b" using log_step_unique s a by blast
qed

end
