(* ===== verification/Core_Thread.thy ===== *)
theory Core_Thread
  imports Core
begin

section \<open>The core thread\<close>

text \<open>
  Models the loop of \<open>consensus/core/src/core_thread.rs\<close> for an observer node: the commands that other
  tasks send are executed one after the other until the channel closes. An observer has no proposer,
  so that \<open>NewBlock\<close> and the two watched rounds, which concern proposals only, change nothing. Each
  command carries the time at which it runs. The commit finalizer, a task of its own, records finalized
  commits and flushes the shared \<open>DagState\<close> under its lock, between two commands; how it finalizes
  them is not modelled.
\<close>

datatype core_thread_command =
  AddBlocks "verified_block list"
| CheckBlockRefs "block_ref list"
| AddCertifiedCommits certified_commits
| NewBlock round_number bool
| GetMissing

text \<open>The reply is the set of missing blocks, or nothing for \<open>NewBlock\<close>.\<close>

fun run_command ::
  "rng \<Rightarrow> crypto \<Rightarrow> (commit \<Rightarrow> bytes option) \<Rightarrow> nat \<Rightarrow> core_thread_command \<Rightarrow> core \<Rightarrow> (block_ref fset option \<times> core) run" where
  "run_command g cr encode now (AddBlocks blocks) co =
     run_bind (add_blocks g cr encode now blocks co) (\<lambda>(missing, co). run_return (Some missing, co))"
| "run_command g cr encode now (CheckBlockRefs refs) co =
     run_bind (Some (check_block_refs refs co)) (\<lambda>(missing, co). run_return (Some missing, co))"
| "run_command g cr encode now (AddCertifiedCommits commits) co =
     run_bind (add_certified_commits g cr encode now commits co) (\<lambda>(missing, co). run_return (Some missing, co))"
| "run_command g cr encode now (NewBlock r force) co = run_return (None, co)"
| "run_command g cr encode now GetMissing co = run_return (Some (get_missing_blocks co), co)"

text \<open>What \<open>CommitFinalizer::run\<close> does with the DAG for commits that are finalized.\<close>

definition persist_finalized :: "bool \<Rightarrow> committed_sub_dag list \<Rightarrow> dag_state \<Rightarrow> panic + dag_state" where
  "persist_finalized already_finalized commits ds =
    (if commits = [] then Inr ds
     else flush (if already_finalized then ds
                 else fold (\<lambda>c. add_finalized_commit (csd_commit_ref c) (rejected_transactions_by_block c)) commits ds))"

datatype node_event = Command nat core_thread_command | Finalize bool "committed_sub_dag list"

fun run_event :: "rng \<Rightarrow> crypto \<Rightarrow> (commit \<Rightarrow> bytes option) \<Rightarrow> node_event \<Rightarrow> core \<Rightarrow> core run" where
  "run_event g cr encode (Command now cmd) co =
     run_bind (run_command g cr encode now cmd co) (\<lambda>(_, co). run_return co)"
| "run_event g cr encode (Finalize already_finalized commits) co =
     run_bind (Some (persist_finalized already_finalized commits (core_dag co))) (\<lambda>ds. run_return (co\<lparr>core_dag := ds\<rparr>))"

primrec run_inner :: "rng \<Rightarrow> crypto \<Rightarrow> (commit \<Rightarrow> bytes option) \<Rightarrow> node_event list \<Rightarrow> core \<Rightarrow> core run" where
  "run_inner g cr encode [] co = run_return co"
| "run_inner g cr encode (ev # evs) co = run_bind (run_event g cr encode ev co) (run_inner g cr encode evs)"

end
