(* ===== verification/Core_Correct.thy ===== *)
theory Core_Correct
  imports Commit_Log Core_Thread
begin

section \<open>Correctness of the core\<close>

text \<open>
  A core refines the log: whatever an observer is asked to do, its DAG, its schedule, its block
  manager and what it has sent to the finalizer stay those of a state that the log reaches. From the
  determinism of the log follows the agreement of observers.
\<close>

subsection \<open>Accepting blocks keeps the commits\<close>

lemma managing_gc:
  assumes "managing c byz U ds bm" "dag_inv ds'" "ds_context ds' = ds_context ds" "get_block ds' = get_block ds"
    and "gc_round ds \<le> gc_round ds'"
  shows "managing c byz U ds' bm"
proof -
  note M = managingD [OF assms(1)]
  have "receiving c byz U ds'" using M(1) assms(2-4) by (simp add: receiving_def)
  moreover have "waits_ok (dom (get_block ds)) (gc_round ds') {} r sb" if "fmlookup (suspended_blocks bm) r = Some sb" for r sb
    using bm_invD(1) [OF M(2) that] assms(5) unfolding waits_ok_def by auto
  then have "bm_inv (dom (get_block ds)) (gc_round ds') {} bm"
    using bm_invD(2-4) [OF M(2)] unfolding bm_inv_def by blast
  ultimately show ?thesis using M(3-5) assms(4) unfolding managing_def by simp
qed

lemma cache_frameD:
  assumes "cache_frame ds ds'"
  shows "\<And>r b. cached_block ds r = Some b \<Longrightarrow> cached_block ds' r = Some b"
    "\<And>r. cached_block ds r \<noteq> None \<Longrightarrow> r \<in> uncommitted ds' \<longleftrightarrow> r \<in> uncommitted ds"
    "\<And>r. cached_block ds r = None \<Longrightarrow> cached_block ds' r \<noteq> None \<Longrightarrow> get_block ds r = None \<and> r \<in> uncommitted ds'"
proof -
  have 1: "\<And>r bi. fmlookup (recent_blocks ds) r = Some bi \<Longrightarrow> fmlookup (recent_blocks ds') r = Some bi"
    and 2: "\<And>r bi. fmlookup (recent_blocks ds) r = None \<Longrightarrow> fmlookup (recent_blocks ds') r = Some bi
          \<Longrightarrow> get_block ds r = None \<and> \<not> committed bi"
    using assms unfolding cache_frame_def by blast+
  show "\<And>r b. cached_block ds r = Some b \<Longrightarrow> cached_block ds' r = Some b"
    using 1 by (auto simp: cached_block_def)
  show "r \<in> uncommitted ds' \<longleftrightarrow> r \<in> uncommitted ds" if r: "cached_block ds r \<noteq> None" for r
  proof -
    obtain bi where "fmlookup (recent_blocks ds) r = Some bi" using r by (auto simp: cached_block_def)
    then show ?thesis using 1 by (auto simp: uncommitted_def)
  qed
  show "get_block ds r = None \<and> r \<in> uncommitted ds'" if "cached_block ds r = None" "cached_block ds' r \<noteq> None" for r
    using 2 [of r] that by (auto simp: cached_block_def uncommitted_def)
qed

lemma bounded_highest:
  assumes "bounded_rounds c U" "same_frame U ds ds'" "highest_accepted_round ds + 1 < 2 ^ 32"
  shows "highest_accepted_round ds' + 1 < 2 ^ 32"
proof -
  have "\<forall>r. U r \<noteq> None \<longrightarrow> br_round r \<le> 2 ^ 32 - 2"
  proof (intro allI impI)
    fix r assume "U r \<noteq> None"
    then have "br_round r + 1 < 2 ^ 32" using assms(1) unfolding bounded_rounds_def by blast
    then show "br_round r \<le> 2 ^ 32 - 2" by linarith
  qed
  moreover have "highest_accepted_round ds \<le> 2 ^ 32 - 2" using assms(3) by simp
  ultimately have "highest_accepted_round ds' \<le> 2 ^ 32 - 2" using assms(2) unfolding same_frame_def by blast
  then show ?thesis by simp
qed

lemma accepts_view:
  assumes "epoch_ok e" "held e st ds" "managing (ep_committee e) (ep_faulty e) (ep_blocks e) ds bm"
    and "accepts (ep_committee e) (ep_faulty e) (ep_blocks e) I ds bm acc ds' bm'"
  shows "view_of (ep_blocks e) ds'"
proof -
  note H = heldD [OF assms(2)] and A = acceptsD [OF assms(4)]
  note R' = receivingD [OF managingD(1) [OF A(1)]]
  have cf: "cache_frame ds ds'" "ds_store ds' = ds_store ds" using A(3) by (auto simp: same_frame_def)
  show ?thesis
    unfolding view_of_def
  proof (intro conjI allI impI)
    fix r b x assume x: "get_block ds' r = Some b" "x \<in> set (vb_ancestors b)" "gc_round ds' < br_round x"
    show "get_block ds' x \<noteq> None"
    proof (rule accepts_closed [OF managingD(1) [OF assms(3)] assms(4) _ x])
      fix r b a assume "get_block ds r = Some b" "a \<in> set (vb_ancestors b)" "gc_round ds < br_round a"
      then show "get_block ds a \<noteq> None" using H(1) unfolding view_of_def by blast
    qed
  next
    fix r b assume r: "get_block ds' r = Some b" "gc_round ds' < br_round r"
    show "cached_block ds' r = Some b"
    proof (cases "get_block ds r")
      case (Some b')
      then have "get_block ds' r = Some b'" by (rule accepts_keeps [OF assms(4)])
      then have "b' = b" using r(1) by simp
      then show ?thesis using viewD(4) [OF H(1) Some] cache_frameD(1) [OF cf(1)] r(2) A(12) by simp
    next
      case None
      then have "read_block (ds_store ds') r = None"
        using r(2) unfolding cf(2) by (auto simp: get_block_eq split: option.splits)
      then show ?thesis using r by (auto simp: get_block_eq split: option.splits)
    qed
  next
    fix r
    show "(\<Sum>b \<leftarrow> map (\<lambda>(_, bi). bi_block bi) (fmap_range (\<lambda>k. br_round k = r) (recent_blocks ds')).
      stk (ds_committee ds') (vb_author b)) \<le> u64_max"
      by (rule round_stake_bound [OF R'(2,3) R'(6) epoch_okD(2) [OF assms(1)]])
  qed (use R' in auto)
qed

lemma held_accepts:
  assumes "epoch_ok e" "held e st ds" "managing (ep_committee e) (ep_faulty e) (ep_blocks e) ds bm"
    and "accepts (ep_committee e) (ep_faulty e) (ep_blocks e) I ds bm acc ds' bm'"
  shows "held e st ds'"
proof -
  note H = heldD [OF assms(2)] and A = acceptsD [OF assms(4)]
  have cf: "cache_frame ds ds'" "last_commit ds' = last_commit ds" "last_committed_rounds ds' = last_committed_rounds ds"
    using A(3) by (auto simp: same_frame_def)
  have "r \<in> uncommitted ds' \<longleftrightarrow> r \<notin> log_committed st" if r: "cached_block ds' r \<noteq> None" for r
  proof (cases "cached_block ds r = None")
    case True
    from cache_frameD(3) [OF cf(1) True r] show ?thesis using H(11) by blast
  next
    case False
    show ?thesis using cache_frameD(2) [OF cf(1) False] H(6) [OF False] by simp
  qed
  moreover have known: "dom (get_block ds) \<subseteq> dom (get_block ds')" using cf(1) by (simp add: cache_frame_def)
  moreover have "get_block ds' a \<noteq> None" if "ep_blocks e r = Some b" "a \<in> set (vb_ancestors b)" "br_round a = 0" for r b a
    using H(7) [OF that] known by blast
  ultimately show ?thesis
    using accepts_view [OF assms] H(2-5,11) A(2) cf(2,3) unfolding held_def by auto
qed

subsection \<open>Flushing keeps the commits\<close>

lemma flush_frame:
  assumes "flush ds = Inr ds'"
  shows "ds_context ds' = ds_context ds" "last_commit ds' = last_commit ds" "last_committed_rounds ds' = last_committed_rounds ds"
    "ds_scoring_subdag ds' = ds_scoring_subdag ds" "highest_accepted_round ds' = highest_accepted_round ds"
    "genesis ds' = genesis ds"
    "\<And>r bi. fmlookup (recent_blocks ds') r = Some bi \<Longrightarrow> fmlookup (recent_blocks ds) r = Some bi"
proof -
  let ?F = "\<lambda>ds'. ds_context ds' = ds_context ds \<and> last_commit ds' = last_commit ds
    \<and> last_committed_rounds ds' = last_committed_rounds ds \<and> ds_scoring_subdag ds' = ds_scoring_subdag ds
    \<and> highest_accepted_round ds' = highest_accepted_round ds \<and> genesis ds' = genesis ds
    \<and> (\<forall>r bi. fmlookup (recent_blocks ds') r = Some bi \<longrightarrow> fmlookup (recent_blocks ds) r = Some bi)"
  have step: "?F ds2" if "evict_authority a ds1 = Inr ds2" "?F ds1" for a ds1 ds2
    using that by (auto simp: evict_authority_def rbind_eq_Inr Let_def split: if_splits)
  have "?F ds'"
  proof (cases "blocks_to_write ds = [] \<and> commits_to_write ds = [] \<and> commit_info_to_write ds = []
        \<and> finalized_commits_to_write ds = []")
    case True
    then show ?thesis using assms by (simp add: flush_def)
  next
    case False
    let ?ds = "ds\<lparr>blocks_to_write := [], commits_to_write := [], commit_info_to_write := [],
        finalized_commits_to_write := [], ds_store := store_write \<lparr>wb_blocks = blocks_to_write ds,
          wb_commits = commits_to_write ds, wb_commit_info = commit_info_to_write ds,
          wb_finalized_commits = finalized_commits_to_write ds\<rparr> (ds_store ds)\<rparr>"
    obtain ds1 where 1: "rfold (\<lambda>(a, _). evict_authority a) (indexed_authorities (ds_committee ds)) ?ds = Inr ds1"
      "ds' = ds1\<lparr>round_infos := dropWhile (\<lambda>info. ri_round info \<le> gc_round ds1) (round_infos ds1)\<rparr>"
      using assms False by (auto simp: flush_def Let_def rbind_eq_Inr)
    have "?F ds1"
    proof (rule rfold_invariant [OF 1(1), of ?F])
      show "?F ?ds" by simp
      fix x :: "nat \<times> authority" and ds2 ds3 assume x: "(case x of (a, _) \<Rightarrow> evict_authority a) ds2 = Inr ds3" "?F ds2"
      have "evict_authority (fst x) ds2 = Inr ds3" using x(1) unfolding case_prod_beta .
      from step [OF this x(2)] show "?F ds3" .
    qed
    then show ?thesis using 1(2) by simp
  qed
  then show "ds_context ds' = ds_context ds" "last_commit ds' = last_commit ds" "last_committed_rounds ds' = last_committed_rounds ds"
    "ds_scoring_subdag ds' = ds_scoring_subdag ds" "highest_accepted_round ds' = highest_accepted_round ds"
    "genesis ds' = genesis ds"
    "\<And>r bi. fmlookup (recent_blocks ds') r = Some bi \<Longrightarrow> fmlookup (recent_blocks ds) r = Some bi" by blast+
qed

lemma held_flush:
  assumes "epoch_ok e" "held e st ds" "flush ds = Inr ds'"
  shows "held e st ds'" "dag_inv ds'" "get_block ds' = get_block ds" "gc_round ds' = gc_round ds"
proof -
  note E = epoch_okD [OF assms(1)] and H = heldD [OF assms(2)] and F = flush_frame [OF assms(3)]
  have d: "dag_inv ds' \<and> get_block ds' = get_block ds \<and> (\<forall>r. gc_round ds < br_round r \<longrightarrow> cached_block ds' r = cached_block ds r)"
    using flush_ok [OF viewD(1) [OF H(1)]] assms(3) by auto
  then show inv: "dag_inv ds'" and get: "get_block ds' = get_block ds" by blast+
  show gc: "gc_round ds' = gc_round ds" using F(1,2) by (simp add: gc_round_def calculate_gc_round_def last_commit_round_def)
  have flags: "r \<in> uncommitted ds' \<longleftrightarrow> r \<notin> log_committed st" if r: "cached_block ds' r \<noteq> None" for r
  proof -
    obtain bi where bi: "fmlookup (recent_blocks ds') r = Some bi" using r by (auto simp: cached_block_def)
    note bi' = F(7) [OF bi]
    have "cached_block ds r \<noteq> None" using bi' by (simp add: cached_block_def)
    from H(6) [OF this] show ?thesis using bi bi' by (simp add: uncommitted_def)
  qed
  have "view_of (ep_blocks e) ds'"
    unfolding view_of_def get gc
  proof (intro conjI allI impI)
    fix r b a assume "get_block ds r = Some b" "a \<in> set (vb_ancestors b)" "gc_round ds < br_round a"
    then show "get_block ds a \<noteq> None" using H(1) unfolding view_of_def by blast
  next
    fix r b assume "get_block ds r = Some b" "gc_round ds < br_round r"
    then show "cached_block ds' r = Some b" using viewD(4) [OF H(1)] d by simp
  next
    fix r
    show "(\<Sum>b \<leftarrow> map (\<lambda>(_, bi). bi_block bi) (fmap_range (\<lambda>k. br_round k = r) (recent_blocks ds')).
        stk (ds_committee ds') (vb_author b)) \<le> u64_max"
      by (rule round_stake_bound [OF inv _ _ E(2)]) (use F(1) H(2) get viewD(2) [OF H(1)] in auto)
  qed (use inv viewD(2) [OF H(1)] in auto)
  then show "held e st ds'" using H(2-5,7,11) F(1-3) flags unfolding held_def get by simp
qed

subsection \<open>A core that follows the log\<close>

definition following :: "epoch \<Rightarrow> commit_log \<Rightarrow> core \<Rightarrow> bool" where
  "following e st co \<longleftrightarrow> managing (ep_committee e) (ep_faulty e) (ep_blocks e) (core_dag co) (core_manager co)
     \<and> held e st (core_dag co) \<and> ds_scoring_subdag (core_dag co) = log_scoring st
     \<and> leader_table (core_schedule co) = log_table st
     \<and> ctx_committee (schedule_context (core_schedule co)) = ep_committee e
     \<and> ctx_protocol_config (schedule_context (core_schedule co)) = ep_config e
     \<and> num_commits_per_schedule (core_schedule co) = ep_length e
     \<and> last_decided_leader co = log_last st \<and> finalizer_queue (core_observer co) = log_subs st
     \<and> finalizer_open (core_observer co) \<and> core_committers co = pipeline_committers
     \<and> highest_accepted_round (core_dag co) + 1 < 2 ^ 32 \<and> slot_round (log_last st) + 1 < 2 ^ 32"

lemma followingD:
  assumes "following e st co"
  shows "managing (ep_committee e) (ep_faulty e) (ep_blocks e) (core_dag co) (core_manager co)"
    "held e st (core_dag co)" "ds_scoring_subdag (core_dag co) = log_scoring st"
    "leader_table (core_schedule co) = log_table st"
    "ctx_committee (schedule_context (core_schedule co)) = ep_committee e"
    "ctx_protocol_config (schedule_context (core_schedule co)) = ep_config e"
    "num_commits_per_schedule (core_schedule co) = ep_length e"
    "last_decided_leader co = log_last st" "finalizer_queue (core_observer co) = log_subs st"
    "finalizer_open (core_observer co)" "core_committers co = pipeline_committers"
    "highest_accepted_round (core_dag co) + 1 < 2 ^ 32" "slot_round (log_last st) + 1 < 2 ^ 32"
  using assms unfolding following_def by blast+

lemma following_accepts:
  assumes "epoch_ok e" "following e st co"
    and "accepts (ep_committee e) (ep_faulty e) (ep_blocks e) I (core_dag co) (core_manager co) acc ds bm"
  shows "following e st (co\<lparr>core_dag := ds, core_manager := bm\<rparr>)"
proof -
  note F = followingD [OF assms(2)] and A = acceptsD [OF assms(3)]
  have "held e st ds" by (rule held_accepts [OF assms(1) F(2,1) assms(3)])
  moreover have "ds_scoring_subdag ds = log_scoring st" using A(3) F(3) by (simp add: same_frame_def)
  moreover have "highest_accepted_round ds + 1 < 2 ^ 32" by (rule bounded_highest [OF epoch_okD(2) [OF assms(1)] A(3) F(12)])
  ultimately show ?thesis using assms(2) A(1) unfolding following_def by simp
qed

lemma following_signals [simp]:
  "following e st (broadcast_accepted bs co) = following e st co"
  "following e st (try_signal_new_round co) = following e st co"
  by (simp_all add: following_def broadcast_accepted_def try_signal_new_round_def Let_def)

lemma following_decides:
  assumes "epoch_ok e" "log_ok e st" "following e st co"
  shows "can_decide (ep_committee e) (ep_faulty e) (ep_blocks e) (core_dag co) (log_last st)"
proof -
  note E = epoch_okD [OF assms(1)] and F = followingD [OF assms(3)] and H = heldD [OF followingD(2) [OF assms(3)]]
  have "log_round st \<le> slot_round (log_last st)" using log_okD(1) [OF assms(2)] by (simp add: log_rounds_ok_def)
  then have "last_commit_round (core_dag co) \<le> slot_round (log_last st) + 1" "gc_round (core_dag co) < slot_round (log_last st) + 1"
    unfolding H(9,10) by linarith+
  then show ?thesis
    using E(1) H(1,2) F(12,13) E(5) H(3) by (simp add: can_decide_def first_round_to_decide_def)
qed

subsection \<open>Changing the schedule\<close>

lemma commits_until_ok:
  assumes "log_range_ok e st" "ds_scoring_subdag ds = log_scoring st" "num_commits_per_schedule sch = ep_length e"
  shows "commits_until_leader_schedule_update sch ds = Inr (ep_length e - log_count st)"
  using log_count_ok [OF assms(1)] assms(2,3)
  by (simp add: commits_until_leader_schedule_update_def scoring_subdags_count_def checked_sub64_def)

lemma held_irrelevant:
  assumes "held e st ds" "recent_blocks ds' = recent_blocks ds" "dag_inv ds'" "ds_context ds' = ds_context ds"
    and "get_block ds' = get_block ds" "last_commit ds' = last_commit ds" "last_committed_rounds ds' = last_committed_rounds ds"
    and "log_commit st' = log_commit st" "log_rounds st' = log_rounds st" "log_committed st' = log_committed st"
  shows "held e st' ds'"
proof -
  have c: "cached_block ds' = cached_block ds" "uncommitted ds' = uncommitted ds"
    using assms(2) by (simp_all add: cached_block_def uncommitted_def fun_eq_iff)
  have gc: "gc_round ds' = gc_round ds"
    using assms(4,6) by (simp add: gc_round_def calculate_gc_round_def last_commit_round_def)
  have "view_of (ep_blocks e) ds'"
    using heldD(1) [OF assms(1)] assms(3) unfolding view_of_def c gc assms(2,4,5) by blast
  then show ?thesis
    using assms(1) unfolding held_def c assms(4-10) by simp
qed

lemma due_range:
  assumes "epoch_ok e" "log_range_ok e st" "due e st"
  shows "\<exists>r cm. sd_commit_range (log_scoring st) = Some r \<and> log_commit st = Some cm \<and> range_end r = log_index st
    \<and> (scores_commit_range (table_scores (log_table st)) = CommitRange 0 0
       \<or> is_next_range (scores_commit_range (table_scores (log_table st))) r
         \<and> is_equal_size (scores_commit_range (table_scores (log_table st))) r = Inr True)"
proof -
  obtain r where r: "sd_commit_range (log_scoring st) = Some r"
    using assms(3) epoch_okD(8) [OF assms(1)] by (auto simp: due_def log_count_def split: option.splits)
  have r': "range_hi r = log_index st + 1" "range_lo r \<le> log_index st" "0 < range_lo r" "range_hi r - range_lo r = ep_length e"
    using assms(2,3) r by (auto simp: log_range_ok_def due_def log_count_def)
  then have "0 < log_index st" by linarith
  then obtain cm where cm: "log_commit st = Some cm" by (auto simp: log_index_def split: option.splits)
  let ?old = "scores_commit_range (table_scores (log_table st))"
  have "?old = CommitRange 0 0 \<or> is_next_range ?old r \<and> is_equal_size ?old r = Inr True"
    using assms(2) r r' by (auto simp: log_range_ok_def Let_def is_next_range_def is_equal_size_def range_size_def checked_sub64_def)
  then show ?thesis using r cm r'(1) by (simp add: range_end_def)
qed

lemma following_updated:
  assumes "following e st co" "log_table st' = t" "log_scoring st' = scoring_clear (log_scoring st)" "log_last st' = log_last st"
    and "log_commit st' = log_commit st" "log_rounds st' = log_rounds st" "log_committed st' = log_committed st"
    and "log_subs st' = log_subs st"
  shows "following e st' (co\<lparr>core_schedule := (core_schedule co)\<lparr>leader_table := t\<rparr>,
      core_dag := (clear_scoring_subdag (core_dag co))\<lparr>commit_info_to_write := infos\<rparr>\<rparr>)"
proof -
  note F = followingD [OF assms(1)]
  let ?ds = "core_dag co" and ?ds' = "(clear_scoring_subdag (core_dag co))\<lparr>commit_info_to_write := infos\<rparr>"
  have inv: "dag_inv ?ds' \<and> get_block ?ds' = get_block ?ds"
    by (rule same_cached_inv [OF viewD(1) [OF heldD(1) [OF F(2)]]]; simp add: clear_scoring_subdag_def cached_block_def fun_eq_iff)
  have gc: "gc_round ?ds \<le> gc_round ?ds'"
    by (simp add: clear_scoring_subdag_def gc_round_def calculate_gc_round_def last_commit_round_def)
  have "managing (ep_committee e) (ep_faulty e) (ep_blocks e) ?ds' (core_manager co)"
    by (rule managing_gc [OF F(1) _ _ _ gc]) (use inv in \<open>simp_all add: clear_scoring_subdag_def\<close>)
  moreover have "held e st' ?ds'"
    by (rule held_irrelevant [OF F(2)]) (use inv assms(5-7) in \<open>simp_all add: clear_scoring_subdag_def\<close>)
  moreover have "ds_scoring_subdag ?ds' = log_scoring st'" "highest_accepted_round ?ds' = highest_accepted_round ?ds"
    using F(3) assms(3) by (simp_all add: clear_scoring_subdag_def)
  ultimately show ?thesis using assms(1,2,4,8) unfolding following_def by simp
qed

lemma update_due:
  assumes "epoch_ok e" "log_ok e st" "following e st co" "due e st"
  shows "\<exists>st' sch ds. update_leader_schedule_v2 (ep_rng e) (core_schedule co) (core_dag co) = Inr (sch, ds)
    \<and> log_update e st st' \<and> following e st' (co\<lparr>core_schedule := sch, core_dag := ds\<rparr>) \<and> log_last st' = log_last st"
proof -
  note E = epoch_okD [OF assms(1)] and O = log_okD [OF assms(2)] and F = followingD [OF assms(3)]
  note H = heldD [OF F(2)]
  let ?ds = "core_dag co" and ?sch = "core_schedule co"
  obtain r cm where r: "sd_commit_range (log_scoring st) = Some r" "log_commit st = Some cm" "range_end r = log_index st"
    "scores_commit_range (table_scores (log_table st)) = CommitRange 0 0
       \<or> is_next_range (scores_commit_range (table_scores (log_table st))) r
         \<and> is_equal_size (scores_commit_range (table_scores (log_table st))) r = Inr True"
    using due_range [OF assms(1) O(3) assms(4)] by blast
  have thr: "bad_nodes_stake_threshold (ep_config e) \<le> 33" using assms(1) unfolding epoch_ok_def by blast
  obtain rs t infos where u: "calculate_scoring_subdag_scores ?ds = Inr rs"
    "swap_table_new (ep_rng e) (schedule_context ?sch) (range_end r) rs = Inr t"
    "update_leader_schedule_v2 (ep_rng e) ?sch ?ds =
       Inr (?sch\<lparr>leader_table := t\<rparr>, (clear_scoring_subdag ?ds)\<lparr>commit_info_to_write := infos\<rparr>)"
    using update_leader_schedule_total [of ?ds "ep_rng e" ?sch r cm] E(3,9) H(2,4) O(2) F(3-6) thr r
    by (auto simp: log_scores_ok_def)
  let ?st = "st\<lparr>log_table := t, log_scoring := scoring_clear (log_scoring st)\<rparr>"
  have "log_update e st ?st"
    using u(1,2) F(3,5,6) H(2) r(3) unfolding log_update_def calculate_scoring_subdag_scores_def by auto
  moreover have "following e ?st (co\<lparr>core_schedule := ?sch\<lparr>leader_table := t\<rparr>,
      core_dag := (clear_scoring_subdag ?ds)\<lparr>commit_info_to_write := infos\<rparr>\<rparr>)"
    by (rule following_updated [OF assms(3)]) simp_all
  ultimately show ?thesis using u(3) by (intro exI [of _ ?st]) auto
qed

lemma refresh_ok:
  assumes "epoch_ok e" "log_ok e st" "following e st co"
  shows "\<exists>st' co'. refresh_schedule (ep_rng e) co = Inr (ep_length e - log_count st', co') \<and> (log_step e)\<^sup>*\<^sup>* st st'
    \<and> log_ok e st' \<and> following e st' co' \<and> \<not> due e st' \<and> log_last st' = log_last st
    \<and> log_subs st' = log_subs st"
proof -
  have until: "commits_until_leader_schedule_update (core_schedule c) (core_dag c) = Inr (ep_length e - log_count s)"
    if "log_ok e s" "following e s c" for s c
    by (rule commits_until_ok [OF log_okD(3) [OF that(1)] followingD(3,7) [OF that(2)]])
  have pos: "0 < ep_length e - log_count s" if "log_ok e s" "\<not> due e s" for s
    using that(2) log_count_ok(2) [OF log_okD(3) [OF that(1)]] by (simp add: due_def)
  show ?thesis
  proof (cases "due e st")
    case False
    have "refresh_schedule (ep_rng e) co = Inr (ep_length e - log_count st, co)"
      using until [OF assms(2,3)] pos [OF assms(2) False] by (simp add: refresh_schedule_def)
    then show ?thesis using assms False by blast
  next
    case True
    obtain st' sch ds where u: "update_leader_schedule_v2 (ep_rng e) (core_schedule co) (core_dag co) = Inr (sch, ds)"
      "log_update e st st'" "following e st' (co\<lparr>core_schedule := sch, core_dag := ds\<rparr>)" "log_last st' = log_last st"
      using update_due [OF assms True] by blast
    note U = log_update_ok [OF assms(1,2) True u(2)]
    have "commits_until_leader_schedule_update (core_schedule co) (core_dag co) = Inr 0"
      using until [OF assms(2,3)] True by (simp add: due_def)
    then have "refresh_schedule (ep_rng e) co = Inr (ep_length e - log_count st', co\<lparr>core_schedule := sch, core_dag := ds\<rparr>)"
      using until [OF U(1) u(3)] pos [OF U(1,2)] u(1) by (simp add: refresh_schedule_def)
    then show ?thesis using u(3,4) U step_update [OF True u(2)] by blast
  qed
qed

subsection \<open>Committing the decided leaders\<close>

abbreviation next_decision :: "epoch \<Rightarrow> leader_swap_table \<Rightarrow> (block_ref \<Rightarrow> verified_block option) \<Rightarrow> slot
    \<Rightarrow> slot \<times> verified_block option \<Rightarrow> bool" where
  "next_decision e t K \<equiv> \<lambda>s x.
     next_outcome (ep_committee e) (ep_faulty e) (ep_blocks e) (ep_config e) (ep_rng e) t s x
       \<and> slot_round (fst x) = slot_round s + 1 \<and> slot_round (fst x) + 1 < 2 ^ 32
       \<and> (\<forall>L. snd x = Some L \<longrightarrow> K (reference L) = Some L \<and> slot_of_ref (reference L) = fst x)"

lemma follows_take: "follows P s xs \<Longrightarrow> follows P s (take n xs)"
proof (induction xs arbitrary: s n)
  case (Cons x xs)
  then show ?case by (cases n) auto
qed simp

lemma follows_rounds:
  assumes "follows (next_decision e t K) s xs" "xs \<noteq> []"
  shows "slot_round s < slot_round (fst (last xs))" "slot_round (fst (last xs)) + 1 < 2 ^ 32"
proof -
  have "slot_round s < slot_round (fst (last xs)) \<and> slot_round (fst (last xs)) + 1 < 2 ^ 32"
    using assms
  proof (induction xs arbitrary: s)
    case (Cons x xs)
    then show ?case by (cases "xs = []") (simp, fastforce)
  qed simp
  then show "slot_round s < slot_round (fst (last xs))" "slot_round (fst (last xs)) + 1 < 2 ^ 32" by blast+
qed

text \<open>What committing keeps of the DAG.\<close>

definition dag_frame :: "dag_state \<Rightarrow> dag_state \<Rightarrow> bool" where
  "dag_frame ds ds' \<longleftrightarrow> get_block ds' = get_block ds \<and> ds_context ds' = ds_context ds \<and> gc_round ds \<le> gc_round ds'
     \<and> highest_accepted_round ds' = highest_accepted_round ds \<and> ds_scoring_subdag ds' = ds_scoring_subdag ds"

definition committed_to :: "epoch \<Rightarrow> slot \<Rightarrow> verified_block list \<Rightarrow> commit_log \<Rightarrow> dag_state \<Rightarrow> commit_log \<Rightarrow> dag_state
    \<Rightarrow> committed_sub_dag list \<Rightarrow> bool" where
  "committed_to e s leaders st ds st' ds' subs \<longleftrightarrow> (log_step e)\<^sup>*\<^sup>* st st' \<and> log_ok e st' \<and> held e st' ds'
     \<and> (\<forall>acc. rfold (handle_leader (ep_crypto e) (ep_encode e)) leaders (acc, ds) = Inr (acc @ subs, ds'))
     \<and> log_subs st' = log_subs st @ map local_sub subs
     \<and> add_subdags (ep_committee e) (map local_sub subs) (log_scoring st) = Inr (log_scoring st')
     \<and> log_last st' = s \<and> log_table st' = log_table st \<and> dag_frame ds ds' \<and> map csd_leader subs = map reference leaders"

lemma committed_skip:
  assumes "log_step e st st1" "log_scoring st1 = log_scoring st" "log_subs st1 = log_subs st" "log_table st1 = log_table st"
    and "committed_to e s leaders st1 ds st' ds' subs"
  shows "committed_to e s leaders st ds st' ds' subs"
  using assms unfolding committed_to_def by (auto intro: converse_rtranclp_into_rtranclp)

lemma committed_leader:
  assumes "log_step e st st1"
    and "\<forall>acc. handle_leader (ep_crypto e) (ep_encode e) L (acc, ds) = Inr (acc @ [sub], ds1)"
    and "add_subdag (ep_committee e) (local_sub sub) (log_scoring st) = Inr (log_scoring st1)"
    and "log_subs st1 = log_subs st @ [local_sub sub]" "log_table st1 = log_table st" "dag_frame ds ds1" "csd_leader sub = reference L"
    and "committed_to e s leaders st1 ds1 st' ds' subs"
  shows "committed_to e s (L # leaders) st ds st' ds' (sub # subs)"
  using assms unfolding committed_to_def add_subdags_def
  by (auto simp: dag_frame_def intro: converse_rtranclp_into_rtranclp)

lemma decided_commits:
  assumes "epoch_ok e" "log_ok e st" "held e st ds" "follows (next_decision e t (get_block ds)) (log_last st) xs"
    and "log_table st = t" "length xs \<le> ep_length e - log_count st"
  shows "\<exists>st' ds' subs. committed_to e (if xs = [] then log_last st else fst (last xs)) (List.map_filter snd xs) st ds st' ds' subs"
  using assms(2-6)
proof (induction xs arbitrary: st ds)
  case Nil
  then show ?case
    by (intro exI [of _ st] exI [of _ ds] exI [of _ "[]"]) (simp add: committed_to_def dag_frame_def add_subdags_def map_filter_simps)
next
  case (Cons x xs)
  obtain s L where x: "x = (s, L)" by fastforce
  have nd: "\<not> due e st" using Cons.prems(5) by (auto simp: due_def)
  have out: "log_outcome e st (s, L)" and later: "follows (next_decision e t (get_block ds)) s xs"
    using Cons.prems(3,4) x by auto
  show ?case
  proof (cases L)
    case None
    let ?st = "st\<lparr>log_last := s\<rparr>"
    have step: "log_step e st ?st" using step_skip [OF nd] out None by simp
    have cnt: "log_count ?st = log_count st" by (simp add: log_count_def)
    have held: "held e ?st ds" using Cons.prems(2) by (simp add: held_def)
    obtain st' ds' subs where "committed_to e (if xs = [] then log_last ?st else fst (last xs)) (List.map_filter snd xs) ?st ds st' ds' subs"
      using Cons.IH [OF log_step_ok(1) [OF assms(1) Cons.prems(1) step] held] later Cons.prems(4,5) cnt by auto
    from committed_skip [OF step _ _ _ this]
    have "committed_to e (if x # xs = [] then log_last st else fst (last (x # xs))) (List.map_filter snd (x # xs)) st ds st' ds' subs"
      using x None by (auto simp: map_filter_simps split: if_splits)
    then show ?thesis by blast
  next
    case (Some b)
    have b: "get_block ds (reference b) = Some b" "slot_of_ref (reference b) = s" using Cons.prems(3) x Some by auto
    have s: "slot_round s = slot_round (log_last st) + 1" using out by simp
    obtain sub c rounds sd where c: "\<forall>subs. handle_leader (ep_crypto e) (ep_encode e) b (subs, ds)
        = Inr (subs @ [sub], committed_state sub c rounds ds)"
      "add_subdag (ep_committee e) (local_sub sub) (log_scoring st) = Inr sd"
      "log_ok e (log_add s sub c rounds sd st)" "held e (log_add s sub c rounds sd st) (committed_state sub c rounds ds)"
      "log_count (log_add s sub c rounds sd st) = log_count st + 1"
      "gc_round ds \<le> gc_round (committed_state sub c rounds ds)" "csd_leader sub = reference b"
      using log_commit_ok [OF assms(1) Cons.prems(1) nd s b(2) Cons.prems(2) b(1)] by (elim exE conjE) (rule that)
    let ?st = "log_add s sub c rounds sd st" and ?ds = "committed_state sub c rounds ds"
    have step: "log_step e st ?st"
      by (rule step_commit [OF nd _ b(2) Cons.prems(2) b(1) _ c(2)]) (use out Some c(1) in simp_all)
    have len: "length xs \<le> ep_length e - log_count ?st" using Cons.prems(5) c(5) by simp
    have fr: "dag_frame ds ?ds" using c(6) by (simp add: dag_frame_def)
    obtain st' ds' subs where r: "committed_to e (if xs = [] then log_last ?st else fst (last xs)) (List.map_filter snd xs) ?st ?ds st' ds' subs"
      using Cons.IH [OF c(3,4) _ _ len] later Cons.prems(4) by auto
    from committed_leader [OF step c(1) _ _ _ fr c(7) r] c(2)
    have "committed_to e (if x # xs = [] then log_last st else fst (last (x # xs))) (List.map_filter snd (x # xs)) st ds st' ds' (sub # subs)"
      using x Some by (auto simp: map_filter_simps split: if_splits)
    then show ?thesis by blast
  qed
qed

lemma send_all:
  assumes "finalizer_open ob"
  shows "\<exists>ob'. rfold send_to_finalizer subs ob = Inr ob' \<and> finalizer_open ob' \<and> finalizer_queue ob' = finalizer_queue ob @ subs"
  using assms
proof (induction subs arbitrary: ob)
  case (Cons sub subs)
  let ?ob = "ob\<lparr>consumer_monitor := report_committed (cr_index (csd_commit_ref sub)) (br_round (csd_leader sub)) (consumer_monitor ob),
      finalizer_queue := finalizer_queue ob @ [sub]\<rparr>"
  have "send_to_finalizer sub ob = Inr ?ob" using Cons.prems by (simp add: send_to_finalizer_def finalizer_send_def)
  then show ?case using Cons.IH [of ?ob] Cons.prems by auto
qed simp

subsection \<open>One iteration of the commit loop\<close>

lemma held_scored:
  assumes "held e st ds"
  shows "held e st (ds\<lparr>ds_scoring_subdag := sd\<rparr>)" "dag_inv (ds\<lparr>ds_scoring_subdag := sd\<rparr>)"
    "get_block (ds\<lparr>ds_scoring_subdag := sd\<rparr>) = get_block ds" "gc_round (ds\<lparr>ds_scoring_subdag := sd\<rparr>) = gc_round ds"
proof -
  have inv: "dag_inv (ds\<lparr>ds_scoring_subdag := sd\<rparr>) \<and> get_block (ds\<lparr>ds_scoring_subdag := sd\<rparr>) = get_block ds"
    by (rule same_cached_inv [OF viewD(1) [OF heldD(1) [OF assms]]]; simp add: cached_block_def fun_eq_iff)
  then show "dag_inv (ds\<lparr>ds_scoring_subdag := sd\<rparr>)" "get_block (ds\<lparr>ds_scoring_subdag := sd\<rparr>) = get_block ds" by blast+
  show "gc_round (ds\<lparr>ds_scoring_subdag := sd\<rparr>) = gc_round ds"
    by (simp add: gc_round_def calculate_gc_round_def last_commit_round_def)
  show "held e st (ds\<lparr>ds_scoring_subdag := sd\<rparr>)" by (rule held_irrelevant [OF assms]) (use inv in simp_all)
qed

lemma following_skips:
  assumes "following e st co" "committed_to e s [] st (core_dag co) st' ds' subs" "slot_round s + 1 < 2 ^ 32"
  shows "following e st' (co\<lparr>last_decided_leader := s\<rparr>)"
proof -
  have "subs = []" "ds' = core_dag co" using assms(2) by (auto simp: committed_to_def)
  then show ?thesis using assms unfolding following_def committed_to_def add_subdags_def by simp
qed

lemma sequence_ok:
  assumes "following e st co" "committed_to e s leaders st (core_dag co) st' ds' subs" "slot_round s + 1 < 2 ^ 32"
  shows "\<exists>co'. sequence_local (ep_crypto e) (ep_encode e) leaders True (co\<lparr>last_decided_leader := s\<rparr>)
      = Inr (map local_sub subs, co') \<and> following e st' co'"
proof -
  note F = followingD [OF assms(1)]
  have C: "held e st' ds'" "rfold (handle_leader (ep_crypto e) (ep_encode e)) leaders ([], core_dag co) = Inr (subs, ds')"
    "log_subs st' = log_subs st @ map local_sub subs"
    "add_subdags (ep_committee e) (map local_sub subs) (log_scoring st) = Inr (log_scoring st')"
    "log_last st' = s" "log_table st' = log_table st" "dag_frame (core_dag co) ds'"
    using assms(2) by (simp_all add: committed_to_def)
  let ?ds = "ds'\<lparr>ds_scoring_subdag := log_scoring st'\<rparr>"
  obtain ob where ob: "rfold send_to_finalizer (map local_sub subs) (core_observer co) = Inr ob" "finalizer_open ob"
    "finalizer_queue ob = finalizer_queue (core_observer co) @ map local_sub subs"
    using send_all [OF F(10)] by blast
  note S = held_scored [OF C(1), of "log_scoring st'"]
  have loc: "map (\<lambda>sub. sub\<lparr>decided_with_local_blocks := True\<rparr>) subs = map local_sub subs" by (simp add: local_sub_def)
  have "add_scoring_subdags (map local_sub subs) ds' = Inr ?ds"
    using C(4,7) F(3) heldD(2) [OF C(1)] by (simp add: add_scoring_subdags_def dag_frame_def)
  then have run: "sequence_local (ep_crypto e) (ep_encode e) leaders True (co\<lparr>last_decided_leader := s\<rparr>)
      = Inr (map local_sub subs, co\<lparr>last_decided_leader := s, core_observer := ob, core_dag := ?ds\<rparr>)"
    using C(2) ob(1) by (simp add: sequence_local_def handle_committed_leaders_def handle_commit_def loc)
  have "managing (ep_committee e) (ep_faulty e) (ep_blocks e) ?ds (core_manager co)"
    by (rule managing_gc [OF F(1) S(2)]) (use C(7) S(3,4) in \<open>simp_all add: dag_frame_def\<close>)
  then have "following e st' (co\<lparr>last_decided_leader := s, core_observer := ob, core_dag := ?ds\<rparr>)"
    using F(4-7,9,11,12) S(1) C(3,5-7) ob(2,3) assms(3) by (simp add: following_def dag_frame_def)
  then show ?thesis using run by blast
qed

lemma unsuspend_gc_ok:
  assumes "epoch_ok e" "following e st co"
  shows "\<exists>co'. unsuspend_for_gc now co = Inr co' \<and> following e st co'"
proof -
  obtain acc ds bm where g: "gc_loop now (gc_round (core_dag co)) (core_dag co) (core_manager co) = Inr (ds, bm)"
    "accepts (ep_committee e) (ep_faulty e) (ep_blocks e) {} (core_dag co) (core_manager co) acc ds bm"
    using gc_loop_ok [OF followingD(1) [OF assms(2)] refl, of now] by blast
  from following_accepts [OF assms g(2)] show ?thesis
    using g(1) by (simp add: unsuspend_for_gc_def try_unsuspend_blocks_for_latest_gc_round_def)
qed

lemma following_decided:
  assumes "epoch_ok e" "log_ok e st" "following e st co"
  shows "\<exists>l. universal_try_decide (ep_rng e) (core_schedule co) (core_committers co) (core_dag co) (last_decided_leader co)
      = run_return l \<and> follows (next_decision e (log_table st) (get_block (core_dag co))) (log_last st) (map outcome l)"
proof -
  note E = epoch_okD [OF assms(1)] and F = followingD [OF assms(3)] and cd = following_decides [OF assms]
  note H = heldD [OF F(2)] and el = table_electable [OF assms(1) log_okD(4) [OF assms(2)]]
  have n: "num_leaders_per_round (ds_config (core_dag co)) = Some 1" using E(5) H(3) by simp
  have v: "valid_election (ep_rng e) (core_schedule co) pipeline_committers (ep_committee e)"
    using el F(4,5) unfolding electable_def by blast
  obtain l where l: "universal_try_decide (ep_rng e) (core_schedule co) pipeline_committers (core_dag co) (log_last st) = run_return l"
    using try_decide_single [OF cd v n] by blast
  from decided_follow [OF cd H(3) E(5) F(4,5) el l] l show ?thesis unfolding F(8,11) by blast
qed

lemma map_filter_outcome: "List.map_filter into_committed_block ds = List.map_filter snd (map outcome ds)"
  by (induction ds) (simp_all add: map_filter_simps outcome_def split: option.split)

lemma last_outcome: "ds \<noteq> [] \<Longrightarrow> decided_leader_slot (last ds) = fst (last (map outcome ds))"
  by (simp add: last_map outcome_def)

text \<open>The second half of an iteration, when leaders are decided.\<close>

lemma sequenced_ok:
  assumes "epoch_ok e" "following e st co" "committed_to e s leaders st (core_dag co) st' ds' subs" "slot_round s + 1 < 2 ^ 32"
  shows "\<exists>res co'. (if leaders = [] then run_return (None, [], co\<lparr>last_decided_leader := s\<rparr>)
      else run_bind (Some (sequence_local (ep_crypto e) (ep_encode e) leaders True (co\<lparr>last_decided_leader := s\<rparr>))) (\<lambda>(subs, co).
        run_bind (Some (unsuspend_for_gc now co)) (\<lambda>co. run_return (Some subs, [], co)))) = run_return (res, [], co')
    \<and> following e st' co'"
proof (cases "leaders = []")
  case True
  then show ?thesis using following_skips [OF assms(2) _ assms(4)] assms(3) by auto
next
  case False
  obtain co1 where 1: "sequence_local (ep_crypto e) (ep_encode e) leaders True (co\<lparr>last_decided_leader := s\<rparr>)
      = Inr (map local_sub subs, co1)" "following e st' co1"
    using sequence_ok [OF assms(2-4)] by blast
  obtain co2 where "unsuspend_for_gc now co1 = Inr co2" "following e st' co2"
    using unsuspend_gc_ok [OF assms(1) 1(2)] by blast
  then show ?thesis using False 1(1) by auto
qed

lemma commit_iteration_ok:
  assumes "epoch_ok e" "log_ok e st" "following e st co"
  shows "\<exists>res co' st'. commit_iteration (ep_rng e) (ep_crypto e) (ep_encode e) now [] co = run_return (res, [], co')
    \<and> (log_step e)\<^sup>*\<^sup>* st st' \<and> log_ok e st' \<and> following e st' co'
    \<and> (res \<noteq> None \<longrightarrow> slot_round (log_last st) < slot_round (log_last st'))
    \<and> (\<exists>n co1 l. refresh_schedule (ep_rng e) co = Inr (n, co1)
         \<and> universal_try_decide (ep_rng e) (core_schedule co1) (core_committers co1) (core_dag co1) (last_decided_leader co1) = run_return l
         \<and> map csd_leader (log_subs st') = map csd_leader (log_subs st)
             @ map reference (List.map_filter into_committed_block (take n l)))"
proof -
  let ?run = "commit_iteration (ep_rng e) (ep_crypto e) (ep_encode e) now [] co"
  obtain st1 co1 where 1: "refresh_schedule (ep_rng e) co = Inr (ep_length e - log_count st1, co1)" "(log_step e)\<^sup>*\<^sup>* st st1"
    "log_ok e st1" "following e st1 co1" "\<not> due e st1" "log_last st1 = log_last st"
    "log_subs st1 = log_subs st"
    using refresh_ok [OF assms] by blast
  let ?n = "ep_length e - log_count st1"
  have n: "0 < ?n" using 1(5) log_count_ok(2) [OF log_okD(3) [OF 1(3)]] by (simp add: due_def)
  have sel: "try_select_certified_leaders c [] ?n = Inr ([], [])" for c
    using n by (simp add: try_select_certified_leaders_def)
  obtain l where l: "universal_try_decide (ep_rng e) (core_schedule co1) (core_committers co1) (core_dag co1) (last_decided_leader co1) = run_return l"
    "follows (next_decision e (log_table st1) (get_block (core_dag co1))) (log_last st1) (map outcome l)"
    using following_decided [OF assms(1) 1(3,4)] by blast
  define d where "d = take ?n l"
  have fol: "follows (next_decision e (log_table st1) (get_block (core_dag co1))) (log_last st1) (map outcome d)"
    using follows_take [OF l(2), of ?n] by (simp add: d_def take_map)
  have len: "length (map outcome d) \<le> ?n" by (simp add: d_def)
  note pre = 1(1) sel l(1) d_def [symmetric]
  show ?thesis
  proof (cases "d = []")
    case True
    then have "?run = run_return (None, [], co1)" by (simp add: commit_iteration_def pre)
    moreover have "map csd_leader (log_subs st1) = map csd_leader (log_subs st) @ map reference (List.map_filter into_committed_block d)"
      using True 1(7) by (simp add: map_filter_simps)
    ultimately show ?thesis using 1 l(1) unfolding d_def by blast
  next
    case False
    let ?s = "decided_leader_slot (last d)" and ?ls = "List.map_filter into_committed_block d"
    obtain st2 ds2 subs where c: "committed_to e ?s ?ls st1 (core_dag co1) st2 ds2 subs"
      using decided_commits [OF assms(1) 1(3) followingD(2) [OF 1(4)] fol refl len] False
      unfolding map_filter_outcome last_outcome [OF False] by auto
    have r: "slot_round (log_last st) < slot_round ?s" "slot_round ?s + 1 < 2 ^ 32"
      using follows_rounds [OF fol] False 1(6) unfolding last_outcome [OF False] by simp_all
    have st2: "(log_step e)\<^sup>*\<^sup>* st st2" "log_ok e st2" "log_last st2 = ?s" using c 1(2) by (auto simp: committed_to_def)
    have "?run = (if ?ls = [] then run_return (None, [], co1\<lparr>last_decided_leader := ?s\<rparr>)
        else run_bind (Some (sequence_local (ep_crypto e) (ep_encode e) ?ls True (co1\<lparr>last_decided_leader := ?s\<rparr>))) (\<lambda>(subs, co).
          run_bind (Some (unsuspend_for_gc now co)) (\<lambda>co. run_return (Some subs, [], co))))"
      using False by (cases "?ls = []") (simp_all add: commit_iteration_def pre)
    then obtain res co2 where "?run = run_return (res, [], co2)" "following e st2 co2"
      using sequenced_ok [OF assms(1) 1(4) c r(2), of now] by auto
    moreover have "map csd_leader (log_subs st2) = map csd_leader (log_subs st) @ map reference ?ls"
      using c 1(7) by (simp add: committed_to_def comp_def)
    ultimately show ?thesis using st2 r(1) 1(1) l(1) unfolding d_def by auto
  qed
qed

subsection \<open>The commit loop ends\<close>

lemma commit_loop_ok:
  assumes "epoch_ok e" "log_ok e st" "following e st co"
  shows "\<exists>subs co' st'. try_commit_loop (ep_rng e) (ep_crypto e) (ep_encode e) now [] acc co = run_return (subs, co')
    \<and> (log_step e)\<^sup>*\<^sup>* st st' \<and> log_ok e st' \<and> following e st' co'"
  using assms(2,3)
proof (induction "2 ^ 32 - slot_round (log_last st)" arbitrary: st co acc rule: less_induct)
  case less
  obtain res co1 st1 where 1: "commit_iteration (ep_rng e) (ep_crypto e) (ep_encode e) now [] co = run_return (res, [], co1)"
    "(log_step e)\<^sup>*\<^sup>* st st1" "log_ok e st1" "following e st1 co1"
    "res \<noteq> None \<longrightarrow> slot_round (log_last st) < slot_round (log_last st1)"
    using commit_iteration_ok [OF assms(1) less.prems] by blast
  note unf = try_commit_loop.simps [of "ep_rng e" "ep_crypto e" "ep_encode e" now "[]" acc co]
  show ?case
  proof (cases res)
    case None
    then show ?thesis using 1 unfolding unf by auto
  next
    case (Some subs)
    have "2 ^ 32 - slot_round (log_last st1) < 2 ^ 32 - slot_round (log_last st)"
      using 1(5) Some followingD(13) [OF 1(4)] by auto
    from less.hyps [OF this 1(3,4), of "acc @ subs"] obtain subs' co' st' where
      2: "try_commit_loop (ep_rng e) (ep_crypto e) (ep_encode e) now [] (acc @ subs) co1 = run_return (subs', co')"
      "(log_step e)\<^sup>*\<^sup>* st1 st'" "log_ok e st'" "following e st' co'" by blast
    have "(log_step e)\<^sup>*\<^sup>* st st'" using 1(2) 2(2) by (rule rtranclp_trans)
    then show ?thesis using 1(1) 2 Some unfolding unf by auto
  qed
qed

lemma check_nothing: "rfold check_certified subs fmempty = Inr fmempty"
  by (induction subs) (simp_all add: check_certified_def Let_def)

lemma try_commit_ok:
  assumes "epoch_ok e" "log_ok e st" "following e st co"
  shows "\<exists>subs co' st'. try_commit_local (ep_rng e) (ep_crypto e) (ep_encode e) now co = run_return (subs, co')
    \<and> (log_step e)\<^sup>*\<^sup>* st st' \<and> log_ok e st' \<and> following e st' co'"
proof -
  have v3: "\<not> enable_v3 (ds_config (core_dag co))"
    using epoch_okD(7) [OF assms(1)] heldD(3) [OF followingD(2) [OF assms(3)]] by simp
  obtain subs co' st' where "try_commit_loop (ep_rng e) (ep_crypto e) (ep_encode e) now [] [] co = run_return (subs, co')"
    "(log_step e)\<^sup>*\<^sup>* st st'" "log_ok e st'" "following e st' co'"
    using commit_loop_ok [OF assms] by blast
  then show ?thesis using v3 by (auto simp: try_commit_local_def try_commit_def check_nothing)
qed

subsection \<open>Events\<close>

definition event_ok :: "epoch \<Rightarrow> node_event \<Rightarrow> bool" where
  "event_ok e ev \<longleftrightarrow> (case ev of
     Command now (AddBlocks bs) \<Rightarrow> (\<forall>b \<in> set bs. ep_blocks e (reference b) = Some b \<and> 0 < vb_round b)
   | Command now (CheckBlockRefs refs) \<Rightarrow> (\<forall>r \<in> set refs. is_valid_index (ep_committee e) (br_author r))
   | Command now (AddCertifiedCommits cs) \<Rightarrow> False
   | _ \<Rightarrow> True)"

lemma core_accept_ok:
  assumes "epoch_ok e" "following e st co" "\<forall>b \<in> set bs. ep_blocks e (reference b) = Some b \<and> 0 < vb_round b"
  shows "\<exists>acc m co'. core_accept_blocks now bs co = Inr (acc, m, co') \<and> following e st co'"
proof -
  have "\<forall>b \<in> set (sort_key vb_round bs). ep_blocks e (reference b) = Some b \<and> 0 < vb_round b" using assms(3) by simp
  from accept_inputs_ok [OF followingD(1) [OF assms(2)] this, of now "[]" "{||}"]
  obtain acc m ds bm where a: "try_accept_blocks now bs (core_dag co) (core_manager co) = Inr (acc, m, ds, bm)"
    "accepts (ep_committee e) (ep_faulty e) (ep_blocks e) (set bs) (core_dag co) (core_manager co) acc ds bm"
    by (auto simp: try_accept_blocks_def try_accept_blocks_internal_def)
  then show ?thesis using following_accepts [OF assms(1,2) a(2)] by (auto simp: core_accept_blocks_def)
qed

lemma add_blocks_ok:
  assumes "epoch_ok e" "log_ok e st" "following e st co" "\<forall>b \<in> set bs. ep_blocks e (reference b) = Some b \<and> 0 < vb_round b"
  shows "\<exists>m co' st'. add_blocks (ep_rng e) (ep_crypto e) (ep_encode e) now bs co = run_return (m, co')
    \<and> (log_step e)\<^sup>*\<^sup>* st st' \<and> log_ok e st' \<and> following e st' co'"
proof -
  obtain acc m co1 where 1: "core_accept_blocks now bs co = Inr (acc, m, co1)" "following e st co1"
    using core_accept_ok [OF assms(1,3,4)] by blast
  obtain subs co' st' where "try_commit_local (ep_rng e) (ep_crypto e) (ep_encode e) now co1 = run_return (subs, co')"
    "(log_step e)\<^sup>*\<^sup>* st st'" "log_ok e st'" "following e st' co'"
    using try_commit_ok [OF assms(1,2) 1(2)] by blast
  then show ?thesis using 1 assms(2) by (cases "acc = []") (auto simp: add_blocks_def)
qed

lemma following_finalized:
  "following e st co \<Longrightarrow> following e st (co\<lparr>core_dag := (core_dag co)\<lparr>finalized_commits_to_write := fs\<rparr>\<rparr>)"
proof -
  assume f: "following e st co"
  let ?ds = "core_dag co" and ?ds' = "(core_dag co)\<lparr>finalized_commits_to_write := fs\<rparr>"
  have inv: "dag_inv ?ds' \<and> get_block ?ds' = get_block ?ds"
    by (rule same_cached_inv [OF viewD(1) [OF heldD(1) [OF followingD(2) [OF f]]]]; simp add: cached_block_def fun_eq_iff)
  have "managing (ep_committee e) (ep_faulty e) (ep_blocks e) ?ds' (core_manager co)"
    by (rule managing_gc [OF followingD(1) [OF f]])
      (use inv in \<open>simp_all add: gc_round_def calculate_gc_round_def last_commit_round_def\<close>)
  moreover have "held e st ?ds'" by (rule held_irrelevant [OF followingD(2) [OF f]]) (use inv in simp_all)
  ultimately show ?thesis using f unfolding following_def by simp
qed

lemma following_flush:
  assumes "epoch_ok e" "following e st co"
  shows "\<exists>ds. flush (core_dag co) = Inr ds \<and> following e st (co\<lparr>core_dag := ds\<rparr>)"
proof -
  note F = followingD [OF assms(2)]
  obtain ds where ds: "flush (core_dag co) = Inr ds" using flush_ok [OF viewD(1) [OF heldD(1) [OF F(2)]]] by blast
  note K = held_flush [OF assms(1) F(2) ds] and fr = flush_frame [OF ds]
  have "managing (ep_committee e) (ep_faulty e) (ep_blocks e) ds (core_manager co)"
    by (rule managing_gc [OF F(1) K(2) fr(1) K(3)]) (simp add: K(4))
  then have "following e st (co\<lparr>core_dag := ds\<rparr>)"
    using assms(2) K(1) fr(4,5) unfolding following_def by simp
  then show ?thesis using ds by blast
qed

lemma add_finalized_commits:
  "\<exists>fs. fold (\<lambda>c. add_finalized_commit (f c) (g c)) cs ds = ds\<lparr>finalized_commits_to_write := fs\<rparr>"
proof (induction cs arbitrary: ds)
  case Nil
  show ?case by (rule exI [of _ "finalized_commits_to_write ds"]) simp
next
  case (Cons c cs)
  from Cons.IH [of "add_finalized_commit (f c) (g c) ds"] show ?case by (auto simp: add_finalized_commit_def)
qed

lemma persist_finalized_ok:
  assumes "epoch_ok e" "following e st co"
  shows "\<exists>ds. persist_finalized already commits (core_dag co) = Inr ds \<and> following e st (co\<lparr>core_dag := ds\<rparr>)"
proof -
  obtain fs where fs: "fold (\<lambda>c. add_finalized_commit (csd_commit_ref c) (rejected_transactions_by_block c)) commits (core_dag co)
      = (core_dag co)\<lparr>finalized_commits_to_write := fs\<rparr>"
    using add_finalized_commits [of csd_commit_ref rejected_transactions_by_block commits "core_dag co"] by blast
  have keep: "following e st (co\<lparr>core_dag := core_dag co\<rparr>)" using assms(2) by simp
  show ?thesis
    using keep following_flush [OF assms] following_flush [OF assms(1) following_finalized [OF assms(2), of fs]]
    by (cases "commits = []") (auto simp: persist_finalized_def fs)
qed

lemma run_event_ok:
  assumes "epoch_ok e" "log_ok e st" "following e st co" "event_ok e ev"
  shows "\<exists>co' st'. run_event (ep_rng e) (ep_crypto e) (ep_encode e) ev co = run_return co'
    \<and> (log_step e)\<^sup>*\<^sup>* st st' \<and> log_ok e st' \<and> following e st' co'"
proof (cases ev)
  case (Finalize already commits)
  obtain ds where ds: "persist_finalized already commits (core_dag co) = Inr ds" "following e st (co\<lparr>core_dag := ds\<rparr>)"
    using persist_finalized_ok [OF assms(1,3)] by blast
  then show ?thesis using Finalize assms(2) by auto
next
  case (Command now cmd)
  show ?thesis
  proof (cases cmd)
    case (AddBlocks bs)
    then show ?thesis using add_blocks_ok [OF assms(1-3), of bs now] assms(4) Command by (fastforce simp: event_ok_def)
  next
    case (CheckBlockRefs refs)
    then have "\<forall>r \<in> set refs. is_valid_index (ep_committee e) (br_author r)" using assms(4) Command by (simp add: event_ok_def)
    from try_find_blocks_ok [OF followingD(1) [OF assms(3)] this] obtain wanted bm where
      b: "try_find_blocks refs (core_dag co) (core_manager co) = Inr (wanted, bm)"
      "managing (ep_committee e) (ep_faulty e) (ep_blocks e) (core_dag co) bm" by blast
    then have "following e st (co\<lparr>core_manager := bm\<rparr>)" using assms(3) unfolding following_def by simp
    then show ?thesis using Command CheckBlockRefs b(1) assms(2) by (auto simp: check_block_refs_def)
  qed (use assms Command in \<open>auto simp: event_ok_def\<close>)
qed

lemma run_inner_ok:
  assumes "epoch_ok e" "log_ok e st" "following e st co" "\<forall>ev \<in> set evs. event_ok e ev"
  shows "\<exists>co' st'. run_inner (ep_rng e) (ep_crypto e) (ep_encode e) evs co = run_return co'
    \<and> (log_step e)\<^sup>*\<^sup>* st st' \<and> log_ok e st' \<and> following e st' co'"
  using assms(2-4)
proof (induction evs arbitrary: st co)
  case (Cons ev evs)
  obtain co1 st1 where 1: "run_event (ep_rng e) (ep_crypto e) (ep_encode e) ev co = run_return co1"
    "(log_step e)\<^sup>*\<^sup>* st st1" "log_ok e st1" "following e st1 co1"
    using run_event_ok [OF assms(1) Cons.prems(1,2), of ev] Cons.prems(3) by auto
  obtain co2 st2 where 2: "run_inner (ep_rng e) (ep_crypto e) (ep_encode e) evs co1 = run_return co2"
    "(log_step e)\<^sup>*\<^sup>* st1 st2" "log_ok e st2" "following e st2 co2"
    using Cons.IH [OF 1(3,4)] Cons.prems(3) by auto
  have "(log_step e)\<^sup>*\<^sup>* st st2" using 1(2) 2(2) by (rule rtranclp_trans)
  then show ?case using 1(1) 2 by auto
qed auto

subsection \<open>The start of an epoch\<close>

definition log_init :: "epoch \<Rightarrow> commit_log" where
  "log_init e = \<lparr>log_last = Slot 0 0, log_table = swap_table_default, log_commit = None,
     log_rounds = replicate (committee_size (ep_committee e)) 0, log_committed = {},
     log_scoring = scoring_subdag_new, log_subs = []\<rparr>"

lemma log_init_ok: "log_ok e (log_init e)"
proof -
  have "log_index (log_init e) = 0" "log_round (log_init e) = 0" by (simp_all add: log_init_def log_index_def log_round_def)
  moreover have "sd_commit_range scoring_subdag_new = None" "sd_leaders scoring_subdag_new = {||}" "voters scoring_subdag_new v = None" for v
    by (simp_all add: scoring_subdag_new_def voters_def)
  ultimately show ?thesis
    unfolding log_ok_def log_rounds_ok_def log_scores_ok_def log_range_ok_def table_ok_def log_output_ok_def
    by (simp add: log_init_def swap_table_default_def reputation_scores_default_def good_set_def bad_set_def output_refs_def)
qed

text \<open>
  A node at the start of the epoch: an empty DAG, the default schedule, nothing sent to the finalizer,
  and the genesis blocks that the blocks of the epoch refer to.
\<close>

definition fresh_observer :: "epoch \<Rightarrow> leader_schedule \<Rightarrow> commit_observer \<Rightarrow> dag_state \<Rightarrow> bool" where
  "fresh_observer e sch ob ds \<longleftrightarrow> fresh_node (ep_committee e) (ep_faulty e) (ep_blocks e) ds \<and> ds_config ds = ep_config e
     \<and> last_committed_rounds ds = replicate (committee_size (ep_committee e)) 0 \<and> ds_scoring_subdag ds = scoring_subdag_new
     \<and> (\<forall>r b a. ep_blocks e r = Some b \<longrightarrow> a \<in> set (vb_ancestors b) \<longrightarrow> br_round a = 0 \<longrightarrow> get_block ds a \<noteq> None)
     \<and> leader_table sch = swap_table_default \<and> ctx_committee (schedule_context sch) = ep_committee e
     \<and> ctx_protocol_config (schedule_context sch) = ep_config e \<and> num_commits_per_schedule sch = ep_length e
     \<and> finalizer_open ob \<and> finalizer_queue ob = []"

lemma genesis_leader:
  assumes "dag_inv ds" "last_commit ds = None" "0 < committee_size (ds_committee ds)"
  shows "last_commit_leader ds = Inr (Slot 0 0)"
proof -
  have g: "genesis_inv ds" using assms(1) by (simp add: dag_inv_def)
  let ?ks = "sorted_list_of_fset (fmdom (genesis ds))"
  obtain r0 where r0: "r0 |\<in>| fmdom (genesis ds)" "br_author r0 = 0" using g assms(3) unfolding genesis_inv_def by blast
  then obtain k ks where ks: "?ks = k # ks" by (metis list.exhaust fset_of_list_simps(1) sorted_list_of_fset_simps(2) fempty_iff)
  have mem: "x |\<in>| fmdom (genesis ds) \<longleftrightarrow> x \<in> set (k # ks)" for x
    using arg_cong [OF ks, of set] by simp
  have rd: "br_round x = 0" if "x |\<in>| fmdom (genesis ds)" for x
    using that g by (auto simp: genesis_inv_def fmlookup_dom_iff)
  have "sorted (k # ks)" unfolding ks [symmetric] by (simp add: sorted_list_of_fset.rep_eq)
  then have "k \<le> r0" using mem [of r0] r0(1) by auto
  then have "br_author k = 0" "br_round k = 0"
    using rd [of k] rd [OF r0(1)] mem [of k] r0(2) by (auto simp: less_eq_block_ref_def)
  then show ?thesis using assms(2) ks
    by (simp add: last_commit_leader_def sorted_list_of_fmap_def slot_of_ref_def)
qed

lemma fresh_view:
  assumes "epoch_ok e" "fresh_observer e sch ob ds"
  shows "view_of (ep_blocks e) ds" "\<And>r. cached_block ds r = None"
proof -
  have F: "fresh_node (ep_committee e) (ep_faulty e) (ep_blocks e) ds" using assms(2) by (simp add: fresh_observer_def)
  have n: "\<And>r. 0 < br_round r \<Longrightarrow> get_block ds r = None" and R0: "receiving (ep_committee e) (ep_faulty e) (ep_blocks e) ds"
    using F by (simp_all add: fresh_node_def)
  note R = receivingD [OF R0]
  show c: "\<And>r. cached_block ds r = None"
    using cached_known(2,3) [OF R(2)] n by (metis not_Some_eq)
  show "view_of (ep_blocks e) ds"
    unfolding view_of_def
  proof (intro conjI allI impI)
    fix r b a assume "get_block ds r = Some b" "a \<in> set (vb_ancestors b)"
    then show "get_block ds a \<noteq> None" using fresh_closed [OF F] by auto
  next
    fix r b assume "get_block ds r = Some b" "gc_round ds < br_round r"
    then show "cached_block ds r = Some b" using n [of r] by simp
  next
    fix r
    show "(\<Sum>b \<leftarrow> map (\<lambda>(_, bi). bi_block bi) (fmap_range (\<lambda>k. br_round k = r) (recent_blocks ds)).
      stk (ds_committee ds) (vb_author b)) \<le> u64_max"
      by (rule round_stake_bound [OF R(2,3) R(6) epoch_okD(2) [OF assms(1)]])
  qed (use R in auto)
qed

lemma observer_core_ok:
  assumes "epoch_ok e" "fresh_observer e sch ob ds"
  shows "\<exists>co. observer_core sch (block_manager_new (ds_context ds)) ob sig ds = Inr co \<and> following e (log_init e) co"
proof -
  note E = epoch_okD [OF assms(1)] and V = fresh_view [OF assms]
  have F: "receiving (ep_committee e) (ep_faulty e) (ep_blocks e) ds" "last_commit ds = None" "highest_accepted_round ds = 0"
    "ds_config ds = ep_config e" "last_committed_rounds ds = replicate (committee_size (ep_committee e)) 0"
    "\<forall>r b a. ep_blocks e r = Some b \<longrightarrow> a \<in> set (vb_ancestors b) \<longrightarrow> br_round a = 0 \<longrightarrow> get_block ds a \<noteq> None"
    using assms(2) unfolding fresh_observer_def fresh_node_def by blast+
  have c: "ds_committee ds = ep_committee e" by (rule receivingD(3) [OF F(1)])
  have "0 < committee_size (ds_committee ds)"
    using committee_wf_base [OF E(9)] unfolding c by (simp add: committee_base_def committee_size_def)
  from genesis_leader [OF receivingD(2) [OF F(1)] F(2) this] have l: "last_commit_leader ds = Inr (Slot 0 0)" .
  have "held e (log_init e) ds"
    using V c F(2,4-6) unfolding held_def log_init_def by simp
  then show ?thesis
    using assms(2) manager_new [OF F(1)] F(3) E(5) F(4)
    by (simp add: observer_core_def l following_def fresh_observer_def log_init_def single_leader_def)
qed

text \<open>An observer that starts, recovers and then handles events.\<close>

definition observer_run ::
  "epoch \<Rightarrow> nat \<Rightarrow> leader_schedule \<Rightarrow> commit_observer \<Rightarrow> signals \<Rightarrow> dag_state \<Rightarrow> node_event list \<Rightarrow> core run" where
  "observer_run e now sch ob sig ds evs =
     run_bind (new_observer (ep_rng e) (ep_crypto e) (ep_encode e) now sch (block_manager_new (ds_context ds)) ob sig ds)
       (run_inner (ep_rng e) (ep_crypto e) (ep_encode e) evs)"

lemma observer_run_ok:
  assumes "epoch_ok e" "fresh_observer e sch ob ds" "\<forall>ev \<in> set evs. event_ok e ev"
  shows "\<exists>co st. observer_run e now sch ob sig ds evs = Some (Inr co) \<and> (log_step e)\<^sup>*\<^sup>* (log_init e) st
    \<and> log_ok e st \<and> following e st co"
proof -
  obtain co where co: "observer_core sch (block_manager_new (ds_context ds)) ob sig ds = Inr co" "following e (log_init e) co"
    using observer_core_ok [OF assms(1,2)] by blast
  obtain subs co1 st1 where 1: "try_commit_local (ep_rng e) (ep_crypto e) (ep_encode e) now co = run_return (subs, co1)"
    "(log_step e)\<^sup>*\<^sup>* (log_init e) st1" "log_ok e st1" "following e st1 co1"
    using try_commit_ok [OF assms(1) log_init_ok co(2)] by blast
  have "following e st1 (try_signal_new_round co1)" using 1(4) by simp
  from run_inner_ok [OF assms(1) 1(3) this assms(3)] obtain co2 st2 where
    2: "run_inner (ep_rng e) (ep_crypto e) (ep_encode e) evs (try_signal_new_round co1) = run_return co2"
    "(log_step e)\<^sup>*\<^sup>* st1 st2" "log_ok e st2" "following e st2 co2" by blast
  have "observer_run e now sch ob sig ds evs = Some (Inr co2)"
    using co(1) 1(1) 2(1) by (simp add: observer_run_def new_observer_def recover_observer_def run_return_def)
  then show ?thesis using rtranclp_trans [OF 1(2) 2(2)] 2(3,4) by blast
qed

subsection \<open>Agreement\<close>

text \<open>
  C1. Two observers that start in the same epoch and then handle any commands, with flushes in
  between: blocks arrive in whatever batches and order, some perhaps never. Neither panics nor runs
  forever, and the committed sub-dags that one has sent to its finalizer are a prefix of those of the
  other, block for block and with the same commit references and timestamps, across changes of the
  leader schedule. This composes every modelled component but the verification of blocks.
\<close>

theorem observers_agree:
  assumes "epoch_ok e" "fresh_observer e sch1 ob1 ds1" "fresh_observer e sch2 ob2 ds2"
    and "\<forall>ev \<in> set evs1 \<union> set evs2. event_ok e ev"
  shows "\<exists>co1 co2. observer_run e now1 sch1 ob1 sig1 ds1 evs1 = Some (Inr co1)
    \<and> observer_run e now2 sch2 ob2 sig2 ds2 evs2 = Some (Inr co2)
    \<and> (prefix (finalizer_queue (core_observer co1)) (finalizer_queue (core_observer co2))
       \<or> prefix (finalizer_queue (core_observer co2)) (finalizer_queue (core_observer co1)))"
proof -
  obtain co1 st1 where 1: "observer_run e now1 sch1 ob1 sig1 ds1 evs1 = Some (Inr co1)" "(log_step e)\<^sup>*\<^sup>* (log_init e) st1"
    "log_ok e st1" "following e st1 co1"
    using observer_run_ok [OF assms(1,2), of evs1] assms(4) by blast
  obtain co2 st2 where 2: "observer_run e now2 sch2 ob2 sig2 ds2 evs2 = Some (Inr co2)" "(log_step e)\<^sup>*\<^sup>* (log_init e) st2"
    "log_ok e st2" "following e st2 co2"
    using observer_run_ok [OF assms(1,3), of evs2] assms(4) by blast
  have "prefix (log_subs st1) (log_subs st2) \<or> prefix (log_subs st2) (log_subs st1)"
    by (rule log_steps.outputs_comparable [OF _ 1(2) 2(2)]) (simp add: assms(1) log_init_ok)
  then show ?thesis using 1(1) 2(1) followingD(9) [OF 1(4)] followingD(9) [OF 2(4)] by auto
qed

text \<open>
  C5. What an observer sends to the finalizer: the commits have the indices 1, 2, 3 and so on without
  gap, and no block is in two of them or twice in one.
\<close>

theorem observer_output_once:
  assumes "epoch_ok e" "fresh_observer e sch ob ds" "\<forall>ev \<in> set evs. event_ok e ev"
  shows "\<exists>co. observer_run e now sch ob sig ds evs = Some (Inr co)
    \<and> map (\<lambda>sub. cr_index (csd_commit_ref sub)) (finalizer_queue (core_observer co))
        = [1..<Suc (length (finalizer_queue (core_observer co)))]
    \<and> distinct (concat (map (\<lambda>sub. map reference (csd_blocks sub)) (finalizer_queue (core_observer co))))"
proof -
  obtain co st where c: "observer_run e now sch ob sig ds evs = Some (Inr co)" "log_ok e st" "following e st co"
    using observer_run_ok [OF assms] by blast
  have o: "map (\<lambda>sub. cr_index (csd_commit_ref sub)) (log_subs st) = [1..<Suc (log_index st)]" "distinct (output_refs (log_subs st))"
    using log_okD(5) [OF c(2)] by (simp_all add: log_output_ok_def)
  have "length (log_subs st) = log_index st" using arg_cong [OF o(1), of length] by simp
  then show ?thesis using c(1) o followingD(9) [OF c(3)] by (simp add: output_refs_def)
qed

lemma try_commit_commits:
  assumes "epoch_ok e" "log_ok e st" "following e st co"
  shows "\<exists>n co1 l subs co'. refresh_schedule (ep_rng e) co = Inr (n, co1)
    \<and> universal_try_decide (ep_rng e) (core_schedule co1) (core_committers co1) (core_dag co1) (last_decided_leader co1) = run_return l
    \<and> try_commit_local (ep_rng e) (ep_crypto e) (ep_encode e) now co = run_return (subs, co')
    \<and> prefix (map csd_leader (finalizer_queue (core_observer co)) @ map reference (List.map_filter into_committed_block (take n l)))
        (map csd_leader (finalizer_queue (core_observer co')))"
proof -
  obtain res co1 st1 where 1: "commit_iteration (ep_rng e) (ep_crypto e) (ep_encode e) now [] co = run_return (res, [], co1)"
    "log_ok e st1" "following e st1 co1"
    and "\<exists>n co2 l. refresh_schedule (ep_rng e) co = Inr (n, co2)
         \<and> universal_try_decide (ep_rng e) (core_schedule co2) (core_committers co2) (core_dag co2) (last_decided_leader co2) = run_return l
         \<and> map csd_leader (log_subs st1) = map csd_leader (log_subs st) @ map reference (List.map_filter into_committed_block (take n l))"
    using commit_iteration_ok [OF assms, of now] by blast
  then obtain n co2 l where 2: "refresh_schedule (ep_rng e) co = Inr (n, co2)"
    "universal_try_decide (ep_rng e) (core_schedule co2) (core_committers co2) (core_dag co2) (last_decided_leader co2) = run_return l"
    "map csd_leader (log_subs st1) = map csd_leader (log_subs st) @ map reference (List.map_filter into_committed_block (take n l))"
    by blast
  have "\<exists>subs co' st'. try_commit_loop (ep_rng e) (ep_crypto e) (ep_encode e) now [] [] co = run_return (subs, co')
      \<and> (log_step e)\<^sup>*\<^sup>* st1 st' \<and> following e st' co'"
  proof (cases res)
    case None
    then show ?thesis using 1 unfolding try_commit_loop.simps [of _ _ _ _ _ _ co] by auto
  next
    case (Some subs)
    then show ?thesis
      using 1(1) commit_loop_ok [OF assms(1) 1(2,3), of now subs] unfolding try_commit_loop.simps [of _ _ _ _ _ _ co] by auto
  qed
  then obtain subs co' st' where 3: "try_commit_loop (ep_rng e) (ep_crypto e) (ep_encode e) now [] [] co = run_return (subs, co')"
    "(log_step e)\<^sup>*\<^sup>* st1 st'" "following e st' co'" by blast
  have "prefix (log_subs st1) (log_subs st')" by (rule log_steps.reach_extends [OF _ 3(2)]) (simp add: assms(1) 1(2))
  then have "prefix (map csd_leader (log_subs st1)) (map csd_leader (log_subs st'))" by (rule map_mono_prefix)
  moreover have "try_commit_local (ep_rng e) (ep_crypto e) (ep_encode e) now co = run_return (subs, co')"
    using 3(1) epoch_okD(7) [OF assms(1)] heldD(3) [OF followingD(2) [OF assms(3)]]
    by (simp add: try_commit_local_def try_commit_def check_nothing)
  ultimately show ?thesis using 2 followingD(9) [OF assms(3)] followingD(9) [OF 3(3)] by metis
qed

text \<open>
  C4. Decided leaders are committed: when blocks arrive at an observer that has handled any events and
  some are accepted, the leaders that the commit rule decides to commit on the DAG with them, up to the
  next change of the schedule, are sent to the finalizer right after those sent before and in the order
  of the decisions.
\<close>

theorem decided_leaders_committed:
  assumes "epoch_ok e" "fresh_observer e sch ob ds" "\<forall>ev \<in> set evs. event_ok e ev"
    and "\<forall>b \<in> set bs. ep_blocks e (reference b) = Some b \<and> 0 < vb_round b"
  shows "\<exists>co acc m co0 n co1 l co'. observer_run e start sch ob sig ds evs = Some (Inr co)
    \<and> core_accept_blocks now bs co = Inr (acc, m, co0) \<and> refresh_schedule (ep_rng e) co0 = Inr (n, co1)
    \<and> universal_try_decide (ep_rng e) (core_schedule co1) (core_committers co1) (core_dag co1) (last_decided_leader co1) = Some (Inr l)
    \<and> add_blocks (ep_rng e) (ep_crypto e) (ep_encode e) now bs co = Some (Inr (m, co'))
    \<and> (acc = [] \<or> prefix (map csd_leader (finalizer_queue (core_observer co))
            @ map reference (List.map_filter into_committed_block (take n l)))
          (map csd_leader (finalizer_queue (core_observer co'))))"
proof -
  obtain co st where c: "observer_run e start sch ob sig ds evs = Some (Inr co)" "log_ok e st" "following e st co"
    using observer_run_ok [OF assms(1-3)] by blast
  obtain acc m co0 where 0: "core_accept_blocks now bs co = Inr (acc, m, co0)" "following e st co0"
    using core_accept_ok [OF assms(1) c(3) assms(4)] by blast
  have q: "finalizer_queue (core_observer co0) = finalizer_queue (core_observer co)"
    using followingD(9) [OF c(3)] followingD(9) [OF 0(2)] by simp
  obtain n co1 l subs co2 where 1: "refresh_schedule (ep_rng e) co0 = Inr (n, co1)"
    "universal_try_decide (ep_rng e) (core_schedule co1) (core_committers co1) (core_dag co1) (last_decided_leader co1) = run_return l"
    "try_commit_local (ep_rng e) (ep_crypto e) (ep_encode e) now co0 = run_return (subs, co2)"
    "prefix (map csd_leader (finalizer_queue (core_observer co0)) @ map reference (List.map_filter into_committed_block (take n l)))
        (map csd_leader (finalizer_queue (core_observer co2)))"
    using try_commit_commits [OF assms(1) c(2) 0(2), of now] by blast
  let ?co' = "if acc = [] then co0 else try_signal_new_round co2"
  have "add_blocks (ep_rng e) (ep_crypto e) (ep_encode e) now bs co = Some (Inr (m, ?co'))"
    using 0(1) 1(3) by (simp add: add_blocks_def run_return_def)
  moreover have "core_observer (try_signal_new_round co2) = core_observer co2" by (simp add: try_signal_new_round_def Let_def)
  then have "acc = [] \<or> prefix (map csd_leader (finalizer_queue (core_observer co))
            @ map reference (List.map_filter into_committed_block (take n l)))
          (map csd_leader (finalizer_queue (core_observer ?co')))" using 1(4) q by simp
  ultimately show ?thesis using c(1) 0(1) 1(1,2) unfolding run_return_def by blast
qed

subsection \<open>Example\<close>

text \<open>
  An epoch of six rounds. One node receives the rounds in order, flushes in between, and misses the
  last; the other receives a block of the second round first.
\<close>

definition demo_epoch :: epoch where
  "demo_epoch = \<lparr>ep_committee = demo_committee, ep_faulty = {}, ep_blocks = get_block (demo_rounds 6),
     ep_config = protocol_config_for_testing, ep_rng = demo_rng, ep_crypto = demo_crypto,
     ep_encode = (\<lambda>c. Some []), ep_length = consensus_commits_per_schedule\<rparr>"

definition demo_round :: "round_number \<Rightarrow> verified_block list" where
  "demo_round r = [demo_block r 1, demo_block r 2, demo_block r 3]"

definition demo_finalized :: committed_sub_dag where
  "demo_finalized = committed_sub_dag_new (BlockRef 1 1 0) [demo_block 1 1] 1 \<lparr>cr_index = 1, cr_digest = 0\<rparr>"

definition demo_events1 :: "node_event list" where
  "demo_events1 = [Command 7 (AddBlocks (demo_round 1)), Command 8 (AddBlocks (demo_round 2)), Finalize True [demo_finalized],
     Command 9 (AddBlocks (demo_round 3 @ demo_round 4 @ demo_round 5))]"

definition demo_events2 :: "node_event list" where
  "demo_events2 = [Command 5 (AddBlocks [demo_block 2 1]), Command 6 GetMissing, Command 6 (CheckBlockRefs [BlockRef 1 2 0]),
     Command 7 (AddBlocks (demo_round 1)), Finalize False [demo_finalized], Command 8 (AddBlocks (demo_round 2 @ demo_round 3 @ demo_round 4)),
     Command 9 (NewBlock 5 False), Command 9 (AddBlocks (demo_round 6 @ demo_round 5))]"

definition demo_observer :: commit_observer where
  "demo_observer = \<lparr>consumer_monitor = monitor_new 0 None, finalizer_open = True, finalizer_queue = []\<rparr>"

definition demo_signals :: signals where
  "demo_signals = \<lparr>accepted_sent = [], new_round_sent = 0\<rparr>"

abbreviation demo_start :: leader_schedule where
  "demo_start \<equiv> leader_schedule_new demo_context swap_table_default"

lemma demo_epoch_ok: "epoch_ok demo_epoch"
proof -
  have stk: "stk demo_committee a \<le> 1" for a
    by (auto simp: demo_stk)
  have t: "total_stake demo_committee = 4" by (simp add: demo_committee_def)
  have "\<forall>a \<in> members demo_committee. 100 * stk demo_committee a \<le> 30 * 4"
  proof
    fix a
    show "100 * stk demo_committee a \<le> 30 * 4" using stk [of a] by simp
  qed
  then show ?thesis
    using demo_universe [of 6] demo_bounded [of 6] demo_rng_ok
    by (simp add: epoch_ok_def demo_epoch_def protocol_config_for_testing_def consensus_commits_per_schedule_def t u64_max_def)
qed

lemma demo_fresh_observer: "fresh_observer demo_epoch demo_start demo_observer demo_dag"
proof -
  have g: "get_block demo_dag a \<noteq> None"
    if "get_block (demo_rounds 6) r = Some b" "a \<in> set (vb_ancestors b)" "br_round a = 0" for r b a
    using that by (auto simp: demo_rounds_get demo_dag_get demo_ref_def split: if_splits)
  show ?thesis
    using demo_fresh [of 6] demo_rounds_simps(1) [of 0] g
    by (simp add: fresh_observer_def demo_epoch_def leader_schedule_new_def demo_observer_def demo_dag_def demo_size)
qed

lemma demo_events_ok: "\<forall>ev \<in> set demo_events1 \<union> set demo_events2. event_ok demo_epoch ev"
  by (auto simp: demo_events1_def demo_events2_def demo_round_def event_ok_def demo_epoch_def demo_rounds_get demo_ref_def
    is_valid_index_def demo_size)

theorem observers_agree_witness:
  "\<exists>co1 co2. observer_run demo_epoch 1 demo_start demo_observer demo_signals demo_dag demo_events1 = Some (Inr co1)
    \<and> observer_run demo_epoch 2 demo_start demo_observer demo_signals demo_dag demo_events2 = Some (Inr co2)
    \<and> (prefix (finalizer_queue (core_observer co1)) (finalizer_queue (core_observer co2))
       \<or> prefix (finalizer_queue (core_observer co2)) (finalizer_queue (core_observer co1)))"
  by (rule observers_agree [OF demo_epoch_ok demo_fresh_observer demo_fresh_observer demo_events_ok])

theorem observer_output_once_witness:
  "\<exists>co. observer_run demo_epoch 1 demo_start demo_observer demo_signals demo_dag demo_events1 = Some (Inr co)
    \<and> map (\<lambda>sub. cr_index (csd_commit_ref sub)) (finalizer_queue (core_observer co))
        = [1..<Suc (length (finalizer_queue (core_observer co)))]
    \<and> distinct (concat (map (\<lambda>sub. map reference (csd_blocks sub)) (finalizer_queue (core_observer co))))"
  by (rule observer_output_once [OF demo_epoch_ok demo_fresh_observer]) (use demo_events_ok in blast)

theorem decided_leaders_committed_witness:
  "\<exists>co acc m co0 n co1 l co'. observer_run demo_epoch 1 demo_start demo_observer demo_signals demo_dag demo_events1 = Some (Inr co)
    \<and> core_accept_blocks 10 (demo_round 6) co = Inr (acc, m, co0) \<and> refresh_schedule (ep_rng demo_epoch) co0 = Inr (n, co1)
    \<and> universal_try_decide (ep_rng demo_epoch) (core_schedule co1) (core_committers co1) (core_dag co1) (last_decided_leader co1) = Some (Inr l)
    \<and> add_blocks (ep_rng demo_epoch) (ep_crypto demo_epoch) (ep_encode demo_epoch) 10 (demo_round 6) co = Some (Inr (m, co'))
    \<and> (acc = [] \<or> prefix (map csd_leader (finalizer_queue (core_observer co))
            @ map reference (List.map_filter into_committed_block (take n l)))
          (map csd_leader (finalizer_queue (core_observer co'))))"
proof (rule decided_leaders_committed [OF demo_epoch_ok demo_fresh_observer])
  show "\<forall>ev \<in> set demo_events1. event_ok demo_epoch ev" using demo_events_ok by blast
  show "\<forall>b \<in> set (demo_round 6). ep_blocks demo_epoch (reference b) = Some b \<and> 0 < vb_round b"
    by (simp add: demo_round_def demo_epoch_def demo_rounds_get demo_ref_def)
qed

end
