(* ===== verification/Spec2Isabelle.thy ===== *)
theory Spec2Isabelle
  imports Committee Stake_Aggregator Threshold_Clock Block_Verifier Commit Leader_Scoring Mem_Store Dag_Correct
    Linearizer_Correct Leader_Schedule_Correct Universal_Committer_Correct Block_Manager_Correct Core_Correct
begin

text \<open>
  Verification of the Mysticeti consensus core of the haneul repository (\<open>src/consensus\<close>).

  \<^bold>\<open>The program.\<close> A committee of authorities with stakes exchanges signed blocks. A block of a round
  refers to blocks of earlier rounds, a quorum of them of the round before; together they form a DAG.
  A node verifies the blocks it receives, keeps those whose ancestors are missing aside, and accepts
  the others into its DAG. From the DAG alone it decides, round by round, whether the leader of the
  round is committed or skipped. A committed leader determines a sub-dag, the part of its causal
  history that is not committed yet, which is sorted, given a timestamp and an index, and sent to the
  finalizer. After a number of commits the scores of the authorities change the schedule of leaders.

  \<^bold>\<open>Conventions.\<close> Code that may panic returns \<open>panic + 'a\<close>, with one constructor of \<open>panic\<close> for each
  assertion, expectation and index access; errors that the code returns are a second sum. Rounds,
  indices, stakes and timestamps are natural numbers, with the wrap-around, saturation or checked
  subtraction of their width written out where the code computes with them; digests are 256-bit
  words. \<open>BTreeSet\<close> and \<open>BTreeMap\<close> are finite sets and maps read in the order of their keys. State
  behind locks is passed along. Loops are structural recursions, functions with a termination proof,
  or partial functions in the option type, whose result \<open>None\<close> means that the loop does not end; the
  theorems on these state that they return. No fuel is used. Hash functions, encoders, signatures, the
  verifier of transactions, the generator of the \<open>rand\<close> crate and the clock are parameters; the
  hypotheses on them (\<open>rng_ok\<close>, \<open>signature_scheme\<close>, an encoder that does not fail) state what their
  documentation promises, and witnesses instantiate them.

  \<^bold>\<open>Theories and sources\<close> (below \<open>src/consensus/core/src\<close> unless said otherwise).

  \<^item> \<open>Prelude\<close>: panics, the sum and the run monad with their rules, finite sets and maps as ordered
    collections, reachability, widths of integers.
  \<^item> \<open>Committee\<close> (\<open>config/src/committee.rs\<close>), \<open>Stake_Aggregator\<close>, \<open>Threshold_Clock\<close>: construction of
    a committee, its thresholds and the intersection of quorums; a vote counts once; the clock computes
    the round it is defined by, and the case in which it does not.
  \<^item> \<open>Block_Ref\<close> (\<open>types/src/block.rs\<close>), \<open>Node_Context\<close> (\<open>context.rs\<close>, \<open>error.rs\<close>, protocol
    configuration), \<open>Block\<close>, \<open>Block_Verifier\<close>: block versions and their accessors, signing, genesis;
    the verifier accepts exactly the blocks that satisfy a declarative predicate.
  \<^item> \<open>Commit\<close>, \<open>Leader_Scoring\<close>: commits, sub-dags, decisions and ranges; scores as stakes of votes.
  \<^item> \<open>Mem_Store\<close> (\<open>storage/mod.rs\<close>, \<open>storage/mem_store.rs\<close>): writes, reads and scans of the store.
  \<^item> \<open>Dag_State\<close> (\<open>dag_state.rs\<close>) with \<open>Dag_Inv\<close> and \<open>Dag_Correct\<close>: the record of \<open>DagState\<close> and its
    operations; an invariant between cache, store and references that accepting, flushing and evicting
    keep; lookups, causal links and commits.
  \<^item> \<open>Linearizer\<close>, \<open>Linearizer_Correct\<close>: the traversal of a sub-dag returns the uncommitted history
    above the garbage collection round in order; committing a leader never panics; two nodes that agree
    on a history make the same commits.
  \<^item> \<open>Leader_Schedule\<close>, \<open>Leader_Schedule_Correct\<close>: the swap table, election by stake, recovery.
  \<^item> \<open>Base_Committer\<close>, \<open>Commit_Votes\<close>, \<open>Commit_Rule\<close>, \<open>Universal_Committer\<close>,
    \<open>Universal_Committer_Correct\<close>: votes, certificates, the direct and the indirect rule over a universe
    of verified blocks in which correct authorities do not equivocate; two nodes with different parts of
    the DAG decide prefixes of one sequence. \<open>Demo_Rounds\<close> holds the example of the witnesses.
  \<^item> \<open>Block_Manager\<close> with \<open>Block_Manager_Inv\<close>, \<open>Block_Manager_Accept\<close>, \<open>Block_Manager_Correct\<close>: blocks
    are accepted in causal order and exactly when their history has arrived, whatever the order of
    arrival; what blocks wait for is fetched; garbage collection and committed blocks.
  \<^item> \<open>Node_Agreement\<close>: agreement of decisions of two nodes from the blocks they receive.
  \<^item> \<open>Commit_Observer\<close> (\<open>commit_observer.rs\<close>, \<open>commit_consumer.rs\<close>, sending in \<open>commit_finalizer.rs\<close>),
    \<open>Core\<close> (\<open>core.rs\<close>), \<open>Core_Thread\<close> (\<open>core_thread.rs\<close>): the core of an observer node, which has no
    proposer, with the loop of \<open>try_commit\<close> and the commands it serves.
  \<^item> \<open>Commit_Log\<close>, \<open>Core_Correct\<close>: an abstract log of commits with deterministic steps, and that a core
    refines it. Hence observers never panic, always return, and send prefixes of one sequence of
    sub-dags to their finalizers, across changes of the schedule; the leaders they decide are
    committed, indices have no gap and no block is committed twice.

  \<^bold>\<open>Locales.\<close> \<open>quorum_system\<close> and its extension \<open>hybrid_quorum_system\<close> state what thresholds must satisfy for
  quorums to intersect, \<open>committee_threshold\<close> what an aggregator needs of a threshold, \<open>block_table\<close> the
  laws of a keyed table of the store, and \<open>deterministic_steps\<close> what runs of a deterministic system share;
  each is interpreted by the definitions of the theory it stands in.

  \<^bold>\<open>Assumptions of the composed theorems.\<close> \<open>epoch_ok\<close>: the stake of faulty authorities stays below the
  fault threshold of the committee and the others do not equivocate; rounds and the stake of the blocks of
  a round fit their types; one leader a round, without v3; commits can be encoded; and no authority alone
  exceeds the stake that a schedule may swap, without which electing a leader may panic. The commands are
  executed one after the other, and the finalizer takes the lock on \<open>DagState\<close> between commands only.
  Certified commits are modelled, but not part of the theorem on observers.

  \<^bold>\<open>Not modelled.\<close>

  \<^item> The path of \<open>enable_v3\<close> (\<open>flex_committer.rs\<close>, \<open>leader_slot_decider.rs\<close>, \<open>leader_schedule_v3.rs\<close>): a second
    commit rule behind a flag; \<open>Core\<close> reports \<open>V3PathNotModelled\<close> there. The v3 parts of \<open>Committee\<close>, \<open>Block\<close>,
    \<open>Block_Verifier\<close> and \<open>DagState\<close> are modelled.
  \<^item> Proposing blocks (\<open>proposer.rs\<close>, \<open>ancestor.rs\<close>, \<open>round_tracker.rs\<close>, \<open>round_prober.rs\<close>,
    \<open>leader_timeout.rs\<close>): timers, network round trips and heuristics on latency.
  \<^item> Transactions: the queues of \<open>transaction.rs\<close>, and \<open>transaction_vote_tracker.rs\<close> with the finalization of
    transactions in \<open>commit_finalizer.rs\<close>. Recovery in \<open>commit_observer.rs\<close>, which waits for the consumer.
  \<^item> Synchronisation, services, subscriptions and the network: concurrent tasks and remote calls.
  \<^item> RocksDB, metrics, logging and test helpers.
  \<^item> The other crates of the workspace, which use consensus as a library.
\<close>

end
